(* ===== verification/Prelude.thy ===== *)
theory Prelude
  imports Main "HOL-Library.Word" "HOL-Library.Monad_Syntax"
begin

unbundle bit_operations_syntax

text \<open>
  Shared types, checked memory accesses and generic lemmas of the development.

  \<^item> Integers keep the width they have in the sources: \<open>u8\<close>, \<open>u16\<close> and \<open>u32\<close> are C's
    \<open>uint8_t\<close>, \<open>uint16_t\<close> and \<open>uint32_t\<close>. Promotion to C's \<open>int\<close> is written out with
    \<open>uint\<close> or \<open>unat\<close> where a comparison or an index depends on it.
  \<^item> An access to an array that may leave it goes through \<open>rd\<close> and \<open>wr\<close>, which return \<open>None\<close>
    where the C program would touch memory outside the object. A function of type
    \<open>\<dots> \<Rightarrow> 'a option\<close> returns \<open>None\<close> whenever the code it models would do so.
\<close>

type_synonym u8 = "8 word"
type_synonym u16 = "16 word"
type_synonym u32 = "32 word"

named_theorems access_simps "rewrite rules for checked array accesses"

section \<open>Checked array accesses\<close>

definition rd :: "'a list \<Rightarrow> nat \<Rightarrow> 'a option" where
  "rd xs i = (if i < length xs then Some (xs ! i) else None)"

definition wr :: "'a list \<Rightarrow> nat \<Rightarrow> 'a \<Rightarrow> 'a list option" where
  "wr xs i v = (if i < length xs then Some (xs[i := v]) else None)"

lemma rd_in [access_simps]: "i < length xs \<Longrightarrow> rd xs i = Some (xs ! i)"
  by (simp add: rd_def)

lemma rd_out [access_simps]: "length xs \<le> i \<Longrightarrow> rd xs i = None"
  by (simp add: rd_def)

lemma wr_in [access_simps]: "i < length xs \<Longrightarrow> wr xs i v = Some (xs[i := v])"
  by (simp add: wr_def)

lemma wr_out [access_simps]: "length xs \<le> i \<Longrightarrow> wr xs i v = None"
  by (simp add: wr_def)

lemma wr_SomeD: "wr xs i v = Some ys \<Longrightarrow> i < length xs \<and> ys = xs[i := v]"
  by (simp add: wr_def split: if_splits)

lemma rd_SomeD: "rd xs i = Some x \<Longrightarrow> i < length xs \<and> x = xs ! i"
  by (simp add: rd_def split: if_splits)

text \<open>A run of stores at consecutive indices.\<close>

fun wr_list :: "'a list \<Rightarrow> nat \<Rightarrow> 'a list \<Rightarrow> 'a list option" where
  "wr_list xs i [] = Some xs"
| "wr_list xs i (v # vs) = do {
     xs' \<leftarrow> wr xs i v;
     wr_list xs' (Suc i) vs
   }"

lemma wr_list_in:
  "i + length vs \<le> length xs \<Longrightarrow>
     wr_list xs i vs = Some (take i xs @ vs @ drop (i + length vs) xs)"
proof (induction vs arbitrary: xs i)
  case Nil
  then show ?case by simp
next
  case (Cons v vs)
  then have "i < length xs" by simp
  moreover have "take (Suc i) (xs[i := v]) = take i xs @ [v]"
    using \<open>i < length xs\<close> by (simp add: take_Suc_conv_app_nth)
  ultimately show ?case
    using Cons.IH [of "Suc i" "xs[i := v]"] Cons.prems by (simp add: wr_in drop_update_cancel)
qed

lemma length_wr: "wr xs i v = Some ys \<Longrightarrow> length ys = length xs"
  by (auto dest: wr_SomeD)

lemma length_wr_list: "wr_list xs i vs = Some ys \<Longrightarrow> length ys = length xs"
  by (induction vs arbitrary: xs i) (auto simp: bind_eq_Some_conv dest: length_wr)

section \<open>Bytes and words\<close>

text \<open>\<open>_BV(n)\<close> and \<open>1 << n\<close> on a byte.\<close>

definition BV :: "nat \<Rightarrow> u8" where
  "BV n = push_bit n 1"

text \<open>
  The firmware's CPU is little endian: the union \<open>usbWord_t\<close> and a 16-bit entry of a
  descriptor put the low byte first.
\<close>

definition le16 :: "u8 \<Rightarrow> u8 \<Rightarrow> u16" where
  "le16 lo hi = ucast lo OR push_bit 8 (ucast hi)"

definition lo8 :: "u16 \<Rightarrow> u8" where
  "lo8 w = ucast w"

definition hi8 :: "u16 \<Rightarrow> u8" where
  "hi8 w = ucast (drop_bit 8 w)"

lemma unat_u8_less: "unat (x :: u8) < 256"
  by (rule order_less_le_trans [OF unsigned_less]) simp

lemma unat_u16_less: "unat (x :: u16) < 65536"
  by (rule order_less_le_trans [OF unsigned_less]) simp

lemma bit_BV [simp]: "bit (BV n) i \<longleftrightarrow> i = n \<and> n < 8"
  by (auto simp: BV_def bit_simps)

lemma bit_le16: "bit (le16 lo hi) i \<longleftrightarrow> (if i < 8 then bit lo i else i < 16 \<and> bit hi (i - 8))"
  by (auto simp: le16_def bit_simps dest: bit_imp_le_length)

lemma lo8_le16 [simp]: "lo8 (le16 lo hi) = lo"
  by (rule bit_word_eqI) (simp add: lo8_def bit_simps bit_le16)

lemma hi8_le16 [simp]: "hi8 (le16 lo hi) = hi"
  by (rule bit_word_eqI) (simp add: hi8_def bit_simps bit_le16)

lemma le16_lo8_hi8 [simp]: "le16 (lo8 w) (hi8 w) = w"
  by (rule bit_word_eqI) (auto simp: lo8_def hi8_def bit_simps bit_le16)

lemma unat_le16: "unat (le16 lo hi) = unat lo + 256 * unat hi"
proof -
  have "unat (le16 lo hi) = unat (ucast lo + push_bit 8 (ucast hi) :: u16)"
  proof -
    have "(ucast lo :: u16) AND push_bit 8 (ucast hi) = 0"
      by (rule bit_word_eqI) (auto simp: bit_simps dest: bit_imp_le_length)
    then show ?thesis by (simp add: le16_def disjunctive_add_eq_or)
  qed
  also have "\<dots> = unat lo + 256 * unat hi"
    using unat_u8_less [of lo] unat_u8_less [of hi]
    by (simp add: unat_word_ariths push_bit_eq_mult unsigned_ucast_eq take_bit_nat_eq_self)
  finally show ?thesis .
qed

section \<open>Counting on words\<close>

lemma funpow_8: "(f ^^ 8) x = f (f (f (f (f (f (f (f x)))))))"
  by (simp add: eval_nat_numeral)

lemma unat_inc_less:
  assumes "unat w < n" and "n < 2 ^ LENGTH('a::len)"
  shows "unat (w + 1 :: 'a word) = Suc (unat w)"
proof -
  have "Suc (unat w) < 2 ^ LENGTH('a)" using assms by simp
  then show ?thesis by (simp add: unat_word_ariths)
qed

end
