(* ===== verification/Protocol.thy ===== *)
theory Protocol
  imports Prelude
begin

unbundle bit_operations_syntax

text \<open>
  The numbers of the USB control protocol that the firmware and the host tool share
  (\<open>common/inc/common/protocol.h\<close>): return codes, request codes, the flag bits of a
  transfer's \<open>wIndex\<close> and the transfer status. They are abbreviations, as the C names are
  macros, so a comparison of two of them is a comparison of numerals.
\<close>

section \<open>Return codes\<close>

abbreviation (input) PROTO_RC_OK :: u8 where
  "PROTO_RC_OK \<equiv> 0"

abbreviation (input) PROTO_RC_INVALID_CMD :: u8 where
  "PROTO_RC_INVALID_CMD \<equiv> 1"

abbreviation (input) PROTO_RC_BUSY :: u8 where
  "PROTO_RC_BUSY \<equiv> 2"

abbreviation (input) PROTO_RC_INVALID_VAL :: u8 where
  "PROTO_RC_INVALID_VAL \<equiv> 3"

abbreviation (input) PROTO_RC_TIMEOUT :: u8 where
  "PROTO_RC_TIMEOUT \<equiv> 4"

section \<open>Request codes\<close>

abbreviation (input) PROTO_CMD_NOP :: u8 where
  "PROTO_CMD_NOP \<equiv> 0"

abbreviation (input) PROTO_CMD_GET_VERSION :: u8 where
  "PROTO_CMD_GET_VERSION \<equiv> 1"

abbreviation (input) PROTO_CMD_RESET :: u8 where
  "PROTO_CMD_RESET \<equiv> 2"

abbreviation (input) PROTO_CMD_COIL_ENABLE :: u8 where
  "PROTO_CMD_COIL_ENABLE \<equiv> 3"

abbreviation (input) PROTO_CMD_PULSE_VECTOR_READ :: u8 where
  "PROTO_CMD_PULSE_VECTOR_READ \<equiv> 4"

abbreviation (input) PROTO_CMD_PULSE_VECTOR_WRITE :: u8 where
  "PROTO_CMD_PULSE_VECTOR_WRITE \<equiv> 5"

abbreviation (input) PROTO_CMD_SAMPLE_VECTOR_READ :: u8 where
  "PROTO_CMD_SAMPLE_VECTOR_READ \<equiv> 6"

abbreviation (input) PROTO_CMD_SAMPLE_VECTOR_WRITE :: u8 where
  "PROTO_CMD_SAMPLE_VECTOR_WRITE \<equiv> 7"

abbreviation (input) PROTO_CMD_GET_BUFFER_SIZE :: u8 where
  "PROTO_CMD_GET_BUFFER_SIZE \<equiv> 8"

abbreviation (input) PROTO_CMD_TRANSFER_START :: u8 where
  "PROTO_CMD_TRANSFER_START \<equiv> 9"

abbreviation (input) PROTO_CMD_TRANSFER_STATUS :: u8 where
  "PROTO_CMD_TRANSFER_STATUS \<equiv> 10"

section \<open>Flags of a transfer request\<close>

abbreviation (input) PROTO_TRANSFER_FLAG_FIRST_ON_START :: u16 where
  "PROTO_TRANSFER_FLAG_FIRST_ON_START \<equiv> 0x8000"

abbreviation (input) PROTO_TRANSFER_FLAG_START_ON_EDGE :: u16 where
  "PROTO_TRANSFER_FLAG_START_ON_EDGE \<equiv> 0x4000"

abbreviation (input) PROTO_TRANSFER_FLAG_FALLING_EDGE :: u16 where
  "PROTO_TRANSFER_FLAG_FALLING_EDGE \<equiv> 0x2000"

abbreviation (input) PROTO_TRANSFER_FLAG_TX_MODE :: u16 where
  "PROTO_TRANSFER_FLAG_TX_MODE \<equiv> 0x1000"

section \<open>Transfer status\<close>

abbreviation (input) PROTO_TRANSFER_STATUS_UNKNOWN :: u8 where
  "PROTO_TRANSFER_STATUS_UNKNOWN \<equiv> 0"

abbreviation (input) PROTO_TRANSFER_STATUS_OK :: u8 where
  "PROTO_TRANSFER_STATUS_OK \<equiv> 1"

abbreviation (input) PROTO_TRANSFER_STATUS_TIMEOUT :: u8 where
  "PROTO_TRANSFER_STATUS_TIMEOUT \<equiv> 2"

abbreviation (input) PROTO_TRANSFER_STATUS_IN_PROGRESS :: u8 where
  "PROTO_TRANSFER_STATUS_IN_PROGRESS \<equiv> 3"

text \<open>The four requests that move a buffer, each in its own data stage.\<close>

definition buffer_command :: "u8 \<Rightarrow> bool" where
  "buffer_command c \<longleftrightarrow>
     c = PROTO_CMD_PULSE_VECTOR_READ \<or> c = PROTO_CMD_PULSE_VECTOR_WRITE \<or>
     c = PROTO_CMD_SAMPLE_VECTOR_READ \<or> c = PROTO_CMD_SAMPLE_VECTOR_WRITE"

end
