(* ===== verification/Fw_State.thy ===== *)
theory Fw_State
  imports Protocol
begin

unbundle bit_operations_syntax

text \<open>
  The state of the firmware: the microcontroller registers it writes (\<open>avr\<close>), the transfer
  context \<open>_commonCtx\<close> (\<open>common_ctx\<close>), the variables of the USB driver (\<open>usbdrv\<close>) and the
  global variables of \<open>firmware/src/main.c\<close> (\<open>fw\<close>).

  A control register is the set of its bits, each under the name the source gives it, so no
  bit position of a particular device header enters the model. Port registers and the timer
  and converter data registers are bytes.
\<close>

section \<open>Configuration constants of main.c\<close>

abbreviation (input) FIRMWARE_VERSION_MAJOR :: u8 where
  "FIRMWARE_VERSION_MAJOR \<equiv> 0"

abbreviation (input) FIRMWARE_VERSION_MINOR :: u8 where
  "FIRMWARE_VERSION_MINOR \<equiv> 1"

abbreviation (input) PIO_COIL_PIN :: nat where
  "PIO_COIL_PIN \<equiv> 0"

abbreviation (input) PIO_GEN_PIN :: nat where
  "PIO_GEN_PIN \<equiv> 1"

abbreviation (input) PULSE_VECTOR_SIZE :: nat where
  "PULSE_VECTOR_SIZE \<equiv> 7"

abbreviation (input) SAMPLE_BUFFER_SIZE :: nat where
  "SAMPLE_BUFFER_SIZE \<equiv> 192"

abbreviation (input) PRESCALER_MINIMAL_VALUE :: u8 where
  "PRESCALER_MINIMAL_VALUE \<equiv> 4"

definition ADC_REF_MV :: u16 where "ADC_REF_MV = 4750"

definition ADC_HI_MV :: u16 where "ADC_HI_MV = 100"

definition ADC_LO_MV :: u16 where "ADC_LO_MV = 350"

definition ADC_MAX :: u16 where "ADC_MAX = 255"

definition VOLTAGE_HIGH_MV :: u32 where
  "VOLTAGE_HIGH_MV = ucast (ADC_REF_MV - ADC_HI_MV)"

definition VOLTAGE_LOW_MV :: u32 where
  "VOLTAGE_LOW_MV = ucast (ADC_REF_MV - ADC_LO_MV)"

definition ADC_HI :: u8 where
  "ADC_HI = ucast ((VOLTAGE_HIGH_MV * ucast ADC_MAX) div ucast ADC_REF_MV)"

definition ADC_LO :: u8 where
  "ADC_LO = ucast ((VOLTAGE_LOW_MV * ucast ADC_MAX) div ucast ADC_REF_MV)"

lemma ADC_HI_value: "ADC_HI = 249"
  by (simp add: ADC_HI_def VOLTAGE_HIGH_MV_def ADC_REF_MV_def ADC_HI_MV_def ADC_MAX_def)

lemma ADC_LO_value: "ADC_LO = 236"
  by (simp add: ADC_LO_def VOLTAGE_LOW_MV_def ADC_REF_MV_def ADC_LO_MV_def ADC_MAX_def)

section \<open>Microcontroller registers\<close>

datatype regbit =
    ADLAR
  | ADEN | ADSC | ADATE | ADIF | ADIE | ADPS2
  | ADTS0 | ADTS1
  | WGM01 | CS01 | CS02
  | OCIE0A | OCF0A
  | TSM | PSR0
  | CTC1 | CS10 | COM1A0
  | PCKE
  | PCIF

abbreviation (input) TIMER_PRESCALER_T0 :: "regbit set" where
  "TIMER_PRESCALER_T0 \<equiv> {CS02, CS01}"

record avr =
  ADMUX :: "regbit set"
  ADCSRA :: "regbit set"
  ADCSRB :: "regbit set"
  ADCH :: u8
  TCCR0A :: "regbit set"
  TCCR0B :: "regbit set"
  TCNT0 :: u8
  OCR0A :: u8
  TIMSK :: "regbit set"
  TIFR :: "regbit set"
  GTCCR :: "regbit set"
  TCCR1 :: "regbit set"
  OCR1C :: u8
  DDRB :: u8
  PORTB :: u8
  PLLCSR :: "regbit set"
  CLKPR :: u8
  OSCCAL :: u8
  PCMSK :: u8
  GIMSK :: u8
  GIFR :: "regbit set"
  irqs_enabled :: bool

section \<open>Transfer context\<close>

datatype State =
    STATE_IDLE
  | STATE_STARTING
  | STATE_WAIT_CONDITION
  | STATE_RX
  | STATE_TX
  | STATE_FINISHED

text \<open>The one-bit fields of the C structure are booleans; every value stored in them is 0 or 1.\<close>

record common_ctx =
  state :: State
  timeout :: u16
  timedOut :: bool
  fallingEdge :: bool
  prescalerCompOnStart :: bool
  edgeStart :: bool
  tx :: bool
  prescalerValue :: u8
  transferId :: u8

definition commonCtx_init :: common_ctx where
  "commonCtx_init =
    \<lparr> state = STATE_IDLE,
      timeout = 0,
      timedOut = False,
      fallingEdge = False,
      prescalerCompOnStart = False,
      edgeStart = False,
      tx = False,
      prescalerValue = PRESCALER_MINIMAL_VALUE,
      transferId = 0 \<rparr>"

section \<open>Variables of the USB driver\<close>

text \<open>
  \<open>usbMsgPtr\<close> points into one of the objects below; a pointer is an object and an offset in
  it. \<open>usbRxLen\<close> is a \<open>signed char\<close>: a byte read with \<open>sint\<close>.
\<close>

datatype msg_object =
    Obj_NULL
  | Obj_response
  | Obj_usbTxBuf
  | Obj_usbConfiguration
  | Obj_usbDescriptorDevice
  | Obj_usbDescriptorConfiguration
  | Obj_usbDescriptorString0
  | Obj_usbDescriptorStringDevice

type_synonym usbMsgPtr_t = "msg_object \<times> nat"

record usbdrv =
  usbRxBuf :: "u8 list"
  usbInputBufOffset :: u8
  usbDeviceAddr :: u8
  usbNewDeviceAddr :: u8
  usbConfiguration :: u8
  usbRxLen :: u8
  usbCurrentTok :: u8
  usbRxToken :: u8
  usbTxLen :: u8
  usbTxBuf :: "u8 list"
  usbMsgPtr :: usbMsgPtr_t
  usbMsgLen :: u8
  usbMsgFlags :: u8

definition usbdrv_init :: usbdrv where
  "usbdrv_init =
    \<lparr> usbRxBuf = replicate 22 0,
      usbInputBufOffset = 0,
      usbDeviceAddr = 0,
      usbNewDeviceAddr = 0,
      usbConfiguration = 0,
      usbRxLen = 0,
      usbCurrentTok = 0,
      usbRxToken = 0,
      usbTxLen = 0,
      usbTxBuf = replicate 11 0,
      usbMsgPtr = (Obj_NULL, 0),
      usbMsgLen = 0,
      usbMsgFlags = 0 \<rparr>"

section \<open>The firmware state\<close>

record fw =
  hw :: avr
  ctx :: common_ctx
  usb :: usbdrv
  command :: u8
  response :: "u8 list"
  sampleVector :: "u8 list"
  ioBuffer :: "u8 list"
  ioBufferOffset :: u8
  opLength :: u16
  opOffset :: u16
  adcLastSignal :: u8
  adcLowVal :: u8
  adcHiVal :: u8

text \<open>
  The state before \<open>main\<close> runs: every global has its static initialiser (zero where the source
  gives none) and the registers hold what the boot loader left in them.
\<close>

definition fw_init :: "avr \<Rightarrow> fw" where
  "fw_init h =
    \<lparr> hw = h,
      ctx = commonCtx_init,
      usb = usbdrv_init,
      command = PROTO_CMD_NOP,
      response = replicate 7 0,
      sampleVector = replicate PULSE_VECTOR_SIZE 0,
      ioBuffer = replicate SAMPLE_BUFFER_SIZE 0,
      ioBufferOffset = 0,
      opLength = 0,
      opOffset = 0,
      adcLastSignal = 0,
      adcLowVal = ADC_LO,
      adcHiVal = ADC_HI \<rparr>"

text \<open>Every register at 0, its value after a reset of the device.\<close>

definition avr_reset :: avr where
  "avr_reset =
    \<lparr> ADMUX = {}, ADCSRA = {}, ADCSRB = {}, ADCH = 0, TCCR0A = {}, TCCR0B = {}, TCNT0 = 0,
      OCR0A = 0, TIMSK = {}, TIFR = {}, GTCCR = {}, TCCR1 = {}, OCR1C = 0, DDRB = 0, PORTB = 0,
      PLLCSR = {}, CLKPR = 0, OSCCAL = 0, PCMSK = 0, GIMSK = 0, GIFR = {},
      irqs_enabled = False \<rparr>"

text \<open>Short forms of the updates that the handlers make most.\<close>

abbreviation set_state :: "State \<Rightarrow> fw \<Rightarrow> fw" where
  "set_state x s \<equiv> s\<lparr>ctx := (ctx s)\<lparr>state := x\<rparr>\<rparr>"

abbreviation fw_state :: "fw \<Rightarrow> State" where
  "fw_state s \<equiv> state (ctx s)"

text \<open>The arrays keep the sizes they are declared with.\<close>

definition arrays_ok :: "fw \<Rightarrow> bool" where
  "arrays_ok s \<longleftrightarrow>
     length (response s) = 7 \<and>
     length (sampleVector s) = PULSE_VECTOR_SIZE \<and>
     length (ioBuffer s) = SAMPLE_BUFFER_SIZE \<and>
     length (usbRxBuf (usb s)) = 22 \<and>
     length (usbTxBuf (usb s)) = 11"

lemma arrays_okD:
  assumes "arrays_ok s"
  shows "length (response s) = 7"
    and "length (sampleVector s) = 7"
    and "length (ioBuffer s) = 192"
    and "length (usbRxBuf (usb s)) = 22"
    and "length (usbTxBuf (usb s)) = 11"
  using assms by (simp_all add: arrays_ok_def)

lemma arrays_ok_init: "arrays_ok (fw_init h)"
  by (simp add: arrays_ok_def fw_init_def usbdrv_init_def)

end
