(* ===== verification/Fw_Hardware.thy ===== *)
theory Fw_Hardware
  imports Fw_State
begin

unbundle bit_operations_syntax

text \<open>
  The register operations of \<open>firmware/src/main.c\<close> and the pin macros of
  \<open>firmware/src/utils.h\<close>. Each function is the sequence of register writes of its C
  counterpart.

  Two registers are not plain memory. The timer flag register and the \<open>ADIF\<close> bit of \<open>ADCSRA\<close>
  are cleared by writing a one, so a read-modify-write \<open>TIFR |= m\<close> clears every flag that was
  pending as well as \<open>m\<close>; writing a zero to \<open>ADSC\<close> does not stop a conversion that runs. This is
  the documented behaviour of the device, stated in \<open>write_TIFR\<close> and \<open>write_ADCSRA\<close>; all other
  registers hold what was last written.
\<close>

section \<open>Register writes\<close>

definition write_TIFR :: "regbit set \<Rightarrow> avr \<Rightarrow> avr" where
  "write_TIFR v h = h\<lparr>TIFR := TIFR h - v\<rparr>"

definition write_ADCSRA :: "regbit set \<Rightarrow> avr \<Rightarrow> avr" where
  "write_ADCSRA v h = h\<lparr>ADCSRA :=
     (v - {ADIF}) \<union> (if ADIF \<in> v then {} else ADCSRA h \<inter> {ADIF}) \<union> (ADCSRA h \<inter> {ADSC})\<rparr>"

definition write_GIFR :: "regbit set \<Rightarrow> avr \<Rightarrow> avr" where
  "write_GIFR v h = h\<lparr>GIFR := GIFR h - v\<rparr>"

text \<open>\<open>TIFR |= m\<close> and \<open>ADCSRA |= m\<close>, \<open>ADCSRA &= ~m\<close>: a read, then a write.\<close>

definition TIFR_or :: "regbit set \<Rightarrow> avr \<Rightarrow> avr" where
  "TIFR_or m h = write_TIFR (TIFR h \<union> m) h"

definition ADCSRA_or :: "regbit set \<Rightarrow> avr \<Rightarrow> avr" where
  "ADCSRA_or m h = write_ADCSRA (ADCSRA h \<union> m) h"

definition ADCSRA_andnot :: "regbit set \<Rightarrow> avr \<Rightarrow> avr" where
  "ADCSRA_andnot m h = write_ADCSRA (ADCSRA h - m) h"

lemma TIFR_TIFR_or: "TIFR (TIFR_or m h) = {}"
  by (auto simp: TIFR_or_def write_TIFR_def)

lemma ADCSRA_ADCSRA_or:
  "ADCSRA (ADCSRA_or m h) = (ADCSRA h \<union> m) - {ADIF}"
  by (auto simp: ADCSRA_or_def write_ADCSRA_def)

lemma ADCSRA_ADCSRA_andnot:
  "ADIF \<notin> m \<Longrightarrow> ADCSRA (ADCSRA_andnot m h) = (ADCSRA h - m - {ADIF}) \<union> (ADCSRA h \<inter> {ADSC})"
  by (auto simp: ADCSRA_andnot_def write_ADCSRA_def)

section \<open>Pins\<close>

definition PIO_SET_HIGH :: "nat \<Rightarrow> avr \<Rightarrow> avr" where
  "PIO_SET_HIGH pin h = h\<lparr>PORTB := PORTB h OR BV pin\<rparr>"

definition PIO_SET_LOW :: "nat \<Rightarrow> avr \<Rightarrow> avr" where
  "PIO_SET_LOW pin h = h\<lparr>PORTB := PORTB h AND NOT (BV pin)\<rparr>"

definition PIO_SET_OUTPUT :: "nat \<Rightarrow> avr \<Rightarrow> avr" where
  "PIO_SET_OUTPUT pin h = h\<lparr>DDRB := DDRB h OR BV pin\<rparr>"

definition PIO_SET_INPUT :: "nat \<Rightarrow> avr \<Rightarrow> avr" where
  "PIO_SET_INPUT pin h = h\<lparr>DDRB := DDRB h AND NOT (BV pin)\<rparr>"

text \<open>The coil pin is driven (to the low level \<open>_init\<close> put in its port bit) while it is an output;
  as an input it is released.\<close>

definition coil_driven :: "avr \<Rightarrow> bool" where
  "coil_driven h \<longleftrightarrow> bit (DDRB h) PIO_COIL_PIN"

lemma coil_driven_output: "coil_driven (PIO_SET_OUTPUT PIO_COIL_PIN h)"
  by (simp add: coil_driven_def PIO_SET_OUTPUT_def bit_simps)

lemma coil_driven_input: "\<not> coil_driven (PIO_SET_INPUT PIO_COIL_PIN h)"
  by (simp add: coil_driven_def PIO_SET_INPUT_def bit_simps)

section \<open>Prescaler (timer 0)\<close>

definition prescallerInit :: "avr \<Rightarrow> avr" where
  "prescallerInit h =
     (let h = h\<lparr>TCCR0A := TCCR0A h \<union> {WGM01}\<rparr>
      in TIFR_or {OCF0A} h)"

definition prescallerStart :: "bool \<Rightarrow> u8 \<Rightarrow> bool \<Rightarrow> avr \<Rightarrow> avr" where
  "prescallerStart interrupt value compareMatchOnStart h =
     (let h = h\<lparr>GTCCR := GTCCR h \<union> {TSM, PSR0}\<rparr>;
          h = h\<lparr>OCR0A := value - 1\<rparr>;
          h = (if compareMatchOnStart
               then (if 2 < value then h\<lparr>TCNT0 := value - 2\<rparr> else h\<lparr>TCNT0 := 0\<rparr>)
               else h\<lparr>TCNT0 := 0\<rparr>);
          h = (if interrupt
               then (let h = TIFR_or {OCF0A} h in h\<lparr>TIMSK := TIMSK h \<union> {OCIE0A}\<rparr>)
               else h);
          h = h\<lparr>TCCR0B := TCCR0B h \<union> TIMER_PRESCALER_T0\<rparr>
      in h\<lparr>GTCCR := GTCCR h - {TSM}\<rparr>)"

definition prescallerStop :: "avr \<Rightarrow> avr" where
  "prescallerStop h =
     (let h = h\<lparr>TCCR0B := TCCR0B h - TIMER_PRESCALER_T0\<rparr>
      in h\<lparr>TIMSK := TIMSK h - {OCIE0A}\<rparr>)"

section \<open>Analogue to digital converter\<close>

text \<open>
  \<open>_adcInit\<close> starts one conversion and waits for it. The converter's answer \<open>v\<close> comes from the
  device: \<open>adc_complete v\<close> is the end of a conversion, after which \<open>ADIF\<close> is set.
\<close>

definition adc_complete :: "u8 \<Rightarrow> avr \<Rightarrow> avr" where
  "adc_complete v h = h\<lparr>ADCSRA := (ADCSRA h - {ADSC}) \<union> {ADIF}, ADCH := v\<rparr>"

definition adcInit :: "u8 \<Rightarrow> avr \<Rightarrow> avr" where
  "adcInit v h =
     (let h = h\<lparr>ADMUX := ADMUX h \<union> {ADLAR}\<rparr>;
          h = ADCSRA_or {ADPS2, ADEN} h;
          h = h\<lparr>ADCSRB := ADCSRB h \<union> {ADTS0, ADTS1}\<rparr>;
          h = ADCSRA_or {ADSC} h;
          h = adc_complete v h
      in ADCSRA_or {ADIF} h)"

definition adcStart :: "avr \<Rightarrow> avr" where
  "adcStart h = ADCSRA_or {ADATE, ADIE, ADSC} h"

definition adcStop :: "avr \<Rightarrow> avr" where
  "adcStop h = ADCSRA_andnot {ADATE, ADIE, ADSC} h"

section \<open>Coil generator (timer 1)\<close>

definition coilInit :: "avr \<Rightarrow> avr" where
  "coilInit h =
     (let h = PIO_SET_OUTPUT PIO_GEN_PIN h;
          h = h\<lparr>OCR1C := 65\<rparr>
      in h\<lparr>TCCR1 := TCCR1 h \<union> {CTC1, CS10}\<rparr>)"

definition coilStart :: "avr \<Rightarrow> avr" where
  "coilStart h = h\<lparr>TCCR1 := TCCR1 h \<union> {COM1A0}\<rparr>"

definition coilStop :: "avr \<Rightarrow> avr" where
  "coilStop h = h\<lparr>TCCR1 := TCCR1 h - {COM1A0}\<rparr>"

section \<open>What each operation does to the parts the interrupts depend on\<close>

definition timer_running :: "avr \<Rightarrow> bool" where
  "timer_running h \<longleftrightarrow> TIMER_PRESCALER_T0 \<subseteq> TCCR0B h \<and> TSM \<notin> GTCCR h"

lemmas hw_defs =
  prescallerInit_def prescallerStart_def prescallerStop_def adc_complete_def adcInit_def
  adcStart_def adcStop_def coilInit_def coilStart_def coilStop_def PIO_SET_HIGH_def
  PIO_SET_LOW_def PIO_SET_OUTPUT_def PIO_SET_INPUT_def TIFR_or_def write_TIFR_def
  ADCSRA_or_def ADCSRA_andnot_def write_ADCSRA_def write_GIFR_def

end
