(* ===== verification/Fw_Requests.thy ===== *)
theory Fw_Requests
  imports Fw_Hardware
begin

unbundle bit_operations_syntax

text \<open>
  The three functions \<open>firmware/src/main.c\<close> supplies to the USB driver: \<open>usbFunctionSetup\<close>
  answers a vendor request, \<open>usbFunctionRead\<close> and \<open>usbFunctionWrite\<close> carry the data stage of the
  four buffer requests.
\<close>

section \<open>Setup packets\<close>

record usbRequest =
  bmRequestType :: u8
  bRequest :: u8
  wValue :: u16
  wIndex :: u16
  wLength :: u16

text \<open>\<open>usbRequest_t *rq = (void *) data\<close>: the eight bytes of the packet, words low byte first.\<close>

definition usbRequest_of :: "u8 list \<Rightarrow> usbRequest" where
  "usbRequest_of data =
    \<lparr> bmRequestType = data ! 0,
      bRequest = data ! 1,
      wValue = le16 (data ! 2) (data ! 3),
      wIndex = le16 (data ! 4) (data ! 5),
      wLength = le16 (data ! 6) (data ! 7) \<rparr>"

definition usbRequest_bytes :: "usbRequest \<Rightarrow> u8 list" where
  "usbRequest_bytes rq =
     [bmRequestType rq, bRequest rq, lo8 (wValue rq), hi8 (wValue rq),
      lo8 (wIndex rq), hi8 (wIndex rq), lo8 (wLength rq), hi8 (wLength rq)]"

lemma usbRequest_of_bytes [simp]: "usbRequest_of (usbRequest_bytes rq) = rq"
  by (simp add: usbRequest_of_def usbRequest_bytes_def)

lemma length_usbRequest_bytes [simp]: "length (usbRequest_bytes rq) = 8"
  by (simp add: usbRequest_bytes_def)

section \<open>Data stage\<close>

text \<open>
  \<open>usbFunctionRead\<close> copies from the buffer of the pending command; the data it would store at
  \<open>data\<close> is returned as a list. The loop runs \<open>len - ret\<close> times at most.
\<close>

fun read_loop :: "u8 list \<Rightarrow> u16 \<Rightarrow> nat \<Rightarrow> u8 \<Rightarrow> (u8 list \<times> u8) option" where
  "read_loop src srcSize 0 off = Some ([], off)"
| "read_loop src srcSize (Suc n) off =
     (if ucast off = srcSize then Some ([], off)
      else do {
        v \<leftarrow> rd src (unat off);
        (vs, off') \<leftarrow> read_loop src srcSize n (off + 1);
        Some (v # vs, off')
      })"

definition usbFunctionRead :: "u8 \<Rightarrow> fw \<Rightarrow> (u8 list \<times> fw) option" where
  "usbFunctionRead len s =
     (let src = (if command s = PROTO_CMD_SAMPLE_VECTOR_READ
                   then Some (sampleVector s, of_nat PULSE_VECTOR_SIZE)
                 else if command s = PROTO_CMD_PULSE_VECTOR_READ
                   then Some (ioBuffer s, of_nat SAMPLE_BUFFER_SIZE)
                 else None)
      in case src of
           None \<Rightarrow> Some ([], s)
         | Some (buf, srcSize) \<Rightarrow> do {
             (vs, off) \<leftarrow> read_loop buf srcSize (unat len) (ioBufferOffset s);
             Some (vs, s\<lparr>ioBufferOffset := off\<rparr>)
           })"

text \<open>
  \<open>usbFunctionWrite\<close>: \<open>dst\<close> is \<open>None\<close> for the null pointer the function keeps when the pending
  command is not a write command, and then \<open>dstSize\<close> is 0. A store through it is outside every
  object. The number of bytes taken is returned with the new buffer and offset.
\<close>

fun write_loop ::
  "u8 list option \<Rightarrow> u16 \<Rightarrow> u8 list \<Rightarrow> u8 \<Rightarrow> nat \<Rightarrow> (u8 list option \<times> u8 \<times> nat) option" where
  "write_loop dst dstSize [] off ret = Some (dst, off, ret)"
| "write_loop dst dstSize (d # ds) off ret =
     (if ucast off = dstSize then Some (dst, off, ret)
      else do {
        buf \<leftarrow> dst;
        buf' \<leftarrow> wr buf (unat off) d;
        write_loop (Some buf') dstSize ds (off + 1) (Suc ret)
      })"

definition usbFunctionWrite :: "u8 list \<Rightarrow> fw \<Rightarrow> (u8 \<times> fw) option" where
  "usbFunctionWrite data s =
     (let (dst, dstSize) =
        (if command s = PROTO_CMD_SAMPLE_VECTOR_WRITE
           then (Some (sampleVector s), of_nat PULSE_VECTOR_SIZE)
         else if command s = PROTO_CMD_PULSE_VECTOR_WRITE
           then (Some (ioBuffer s), of_nat SAMPLE_BUFFER_SIZE)
         else (None, 0))
      in do {
        (dst', off, ret) \<leftarrow> write_loop dst dstSize data (ioBufferOffset s) 0;
        let s = s\<lparr>ioBufferOffset := off\<rparr>;
        let s = (case dst' of
                   None \<Rightarrow> s
                 | Some buf \<Rightarrow> if command s = PROTO_CMD_SAMPLE_VECTOR_WRITE
                     then s\<lparr>sampleVector := buf\<rparr> else s\<lparr>ioBuffer := buf\<rparr>);
        Some (of_nat ret, s)
      })"

section \<open>Requests\<close>

text \<open>\<open>response[ret++] = v\<close> for each of the values in turn.\<close>

fun respond :: "u8 list \<Rightarrow> u8 list \<Rightarrow> nat \<Rightarrow> (u8 list \<times> nat) option" where
  "respond [] resp ret = Some (resp, ret)"
| "respond (v # vs) resp ret = do {
     resp' \<leftarrow> wr resp ret v;
     respond vs resp' (Suc ret)
   }"

definition reply :: "u8 list \<Rightarrow> fw \<Rightarrow> (u8 \<times> fw) option" where
  "reply vs s = do {
     (resp, ret) \<leftarrow> respond vs (response s) 0;
     Some (of_nat ret, s\<lparr>response := resp\<rparr>)
   }"

definition cmd_coil_enable :: "usbRequest \<Rightarrow> fw \<Rightarrow> (u8 \<times> fw) option" where
  "cmd_coil_enable rq s =
     Some (0, if wValue rq \<noteq> 0 then s\<lparr>hw := coilStart (hw s)\<rparr> else s\<lparr>hw := coilStop (hw s)\<rparr>)"

definition cmd_transfer_start :: "usbRequest \<Rightarrow> fw \<Rightarrow> (u8 \<times> fw) option" where
  "cmd_transfer_start rq s =
     (let w = wIndex rq;
          c = ctx s;
          c = c\<lparr>prescalerValue := ucast (w AND 0xff)\<rparr>;
          c = c\<lparr>prescalerCompOnStart := (w AND PROTO_TRANSFER_FLAG_FIRST_ON_START \<noteq> 0)\<rparr>;
          c = c\<lparr>fallingEdge := (w AND PROTO_TRANSFER_FLAG_FALLING_EDGE \<noteq> 0)\<rparr>;
          c = c\<lparr>tx := (w AND PROTO_TRANSFER_FLAG_TX_MODE \<noteq> 0)\<rparr>;
          c = c\<lparr>edgeStart := (w AND PROTO_TRANSFER_FLAG_START_ON_EDGE \<noteq> 0)\<rparr>;
          c = c\<lparr>state := STATE_STARTING\<rparr>;
          c = c\<lparr>timeout := wValue rq\<rparr>;
          c = c\<lparr>timedOut := False\<rparr>;
          c = c\<lparr>transferId := transferId c + 1\<rparr>
      in reply [PROTO_RC_OK, transferId c] (s\<lparr>ctx := c\<rparr>))"

definition cmd_transfer_status :: "usbRequest \<Rightarrow> fw \<Rightarrow> (u8 \<times> fw) option" where
  "cmd_transfer_status rq s =
     (if wIndex rq \<noteq> ucast (transferId (ctx s))
      then reply [PROTO_RC_INVALID_VAL, PROTO_TRANSFER_STATUS_UNKNOWN, 0, 0] s
      else (let st = (if fw_state s = STATE_IDLE
                      then (if timedOut (ctx s) then PROTO_TRANSFER_STATUS_TIMEOUT
                            else PROTO_TRANSFER_STATUS_OK)
                      else PROTO_TRANSFER_STATUS_IN_PROGRESS)
            in reply [PROTO_RC_OK, st, hi8 (opOffset s), lo8 (opOffset s)] s))"

definition usbFunctionSetup :: "u8 list \<Rightarrow> fw \<Rightarrow> (u8 \<times> fw) option" where
  "usbFunctionSetup data s = do {
     let rq = usbRequest_of data;
     (ret, s) \<leftarrow>
       (if bRequest rq = PROTO_CMD_COIL_ENABLE then cmd_coil_enable rq s
        else if bRequest rq = PROTO_CMD_GET_VERSION then
          reply [PROTO_RC_OK, FIRMWARE_VERSION_MAJOR, FIRMWARE_VERSION_MINOR] s
        else if bRequest rq = PROTO_CMD_GET_BUFFER_SIZE then
          reply [PROTO_RC_OK, 4, 1,
                 of_nat (SAMPLE_BUFFER_SIZE div 2 ^ 8), of_nat (SAMPLE_BUFFER_SIZE mod 2 ^ 8),
                 of_nat (PULSE_VECTOR_SIZE div 2 ^ 8), of_nat (PULSE_VECTOR_SIZE mod 2 ^ 8)] s
        else if bRequest rq = PROTO_CMD_RESET then
          reply [PROTO_RC_OK] (s\<lparr>command := bRequest rq\<rparr>)
        else if bRequest rq = PROTO_CMD_TRANSFER_START then cmd_transfer_start rq s
        else if bRequest rq = PROTO_CMD_TRANSFER_STATUS then cmd_transfer_status rq s
        else if buffer_command (bRequest rq) then
          Some (0xff, s\<lparr>ioBufferOffset := 0, command := bRequest rq\<rparr>)
        else reply [PROTO_RC_INVALID_CMD] s);
     Some (ret, if ret \<noteq> 0
                then s\<lparr>usb := (usb s)\<lparr>usbMsgPtr := (Obj_response, 0)\<rparr>\<rparr> else s)
   }"

end
