(* ===== verification/Usb_Crc.thy ===== *)
theory Usb_Crc
  imports Prelude
begin

unbundle bit_operations_syntax

text \<open>
  The CRC routine of the USB driver, \<open>usbCrc16\<close> and \<open>usbCrc16Append\<close> of
  \<open>firmware/src/usbdrv/usbdrvasm.S\<close> (the small variant; \<open>USB_USE_FAST_CRC\<close> is 0), at the level
  of its instructions: 8-bit registers, the carry flag, and the two loops that use the carry as
  their condition. The reference is the CRC of the USB specification: a 16-bit register preset
  to ones, shifted right, polynomial \<open>0xa001\<close> (the reflected \<open>0x8005\<close>), complemented at the end.

  The theorems show that the routine computes the reference for every buffer and every length,
  never reads past the \<open>argLen\<close> bytes it is given, and that a buffer followed by its CRC has the
  fixed residue \<open>0x4FFE\<close> that a receiver checks.
\<close>

section \<open>Instructions\<close>

definition ror :: "bool \<Rightarrow> u8 \<Rightarrow> u8 \<times> bool" where
  "ror carry r = (drop_bit 1 r OR (if carry then 0x80 else 0), bit r 0)"

definition subi :: "u8 \<Rightarrow> u8 \<Rightarrow> u8 \<times> bool" where
  "subi r k = (r - k, r < k)"

section \<open>The routine\<close>

definition polyL :: u8 where "polyL = 0x01"

definition polyH :: u8 where "polyH = 0xa0"

text \<open>One pass through \<open>usbCrcBitLoop\<close> up to \<open>usbCrcNoXor\<close>.\<close>

definition crc_shift :: "bool \<Rightarrow> u8 \<times> u8 \<Rightarrow> u8 \<times> u8" where
  "crc_shift carry = (\<lambda>(resCrcL, resCrcH).
     let (resCrcH, carry) = ror carry resCrcH;
         (resCrcL, carry) = ror carry resCrcL
     in if carry then (resCrcL, resCrcH) else (resCrcL XOR polyL, resCrcH XOR polyH))"

function usbCrcBitLoop :: "bool \<Rightarrow> u8 \<Rightarrow> u8 \<times> u8 \<Rightarrow> u8 \<times> (u8 \<times> u8)" where
  "usbCrcBitLoop carry bitCnt res =
     (let res = crc_shift carry res;
          (bitCnt, carry) = subi bitCnt 224
      in if carry then usbCrcBitLoop carry bitCnt res else (bitCnt, res))"
  by pat_completeness auto
termination
proof (relation "measure (\<lambda>(carry, bitCnt, res). 256 - unat bitCnt)")
  show "wf (measure (\<lambda>(carry, bitCnt, res). 256 - unat (bitCnt :: u8)))" by simp
next
  fix carry carry' :: bool and bitCnt bitCnt' :: u8 and res res' :: "u8 \<times> u8"
    and x :: "u8 \<times> bool"
  assume step: "x = subi bitCnt 224" "(bitCnt', carry') = x" "carry'"
  then have lt: "unat bitCnt < 224" and eq: "bitCnt' = bitCnt - 224"
    by (auto simp: subi_def word_less_nat_alt)
  have "bitCnt' = bitCnt + 32" using eq by simp
  then have "unat bitCnt' = unat bitCnt + 32"
    using lt by (simp add: unat_word_ariths)
  then show "((carry', bitCnt', res'), (carry, bitCnt, res)) \<in> measure (\<lambda>(carry, bitCnt, res). 256 - unat bitCnt)"
    using lt by simp
qed

declare usbCrcBitLoop.simps [simp del]

text \<open>
  The byte loop from \<open>usbCrcLoopEntry\<close>: \<open>subi argLen, -1\<close> adds one and sets the carry unless the
  counter was 255. \<open>ptr\<close> is the offset of the next byte in \<open>mem\<close>.
\<close>

function usbCrcLoopEntry ::
  "u8 list \<Rightarrow> nat \<Rightarrow> u8 \<Rightarrow> u8 \<Rightarrow> u8 \<times> u8 \<Rightarrow> ((u8 \<times> u8) \<times> nat) option" where
  "usbCrcLoopEntry mem ptr argLen bitCnt res =
     (let (argLen', carry) = subi argLen (- 1)
      in if carry
         then (case rd mem ptr of
                 None \<Rightarrow> None
               | Some byte \<Rightarrow>
                   (let (bitCnt, res) = usbCrcBitLoop carry bitCnt (fst res XOR byte, snd res)
                    in usbCrcLoopEntry mem (Suc ptr) argLen' bitCnt res))
         else Some (res, ptr))"
  by pat_completeness auto
termination
proof (relation "measure (\<lambda>(mem, ptr, argLen, bitCnt, res). 255 - unat argLen)")
  show "wf (measure (\<lambda>(mem, ptr, argLen, bitCnt, res). 255 - unat (argLen :: u8)))" by simp
next
  fix mem :: "u8 list" and ptr :: nat and argLen argLen' bitCnt bitCnt' byte :: u8
    and res res' :: "u8 \<times> u8" and carry :: bool and x y
  assume step: "x = subi argLen (- 1)" "(argLen', carry) = x" "carry"
  then have lt: "unat argLen < 255" and eq: "argLen' = argLen + 1"
    by (auto simp: subi_def word_less_nat_alt unsigned_minus_1_eq_mask mask_eq_exp_minus_1)
  then have "unat argLen' = Suc (unat argLen)"
    by (simp add: unat_word_ariths)
  then show "((mem, Suc ptr, argLen', bitCnt', res'), mem, ptr, argLen, bitCnt, res)
      \<in> measure (\<lambda>(mem, ptr, argLen, bitCnt, res). 255 - unat argLen)"
    using lt by simp
qed

declare usbCrcLoopEntry.simps [simp del]

definition usbCrc16 :: "u8 list \<Rightarrow> u8 \<Rightarrow> (u16 \<times> nat) option" where
  "usbCrc16 mem argLen =
     (case usbCrcLoopEntry mem 0 (NOT argLen) 0 (0, 0) of
        None \<Rightarrow> None
      | Some ((resCrcL, resCrcH), ptr) \<Rightarrow> Some (le16 resCrcL resCrcH, ptr))"

definition usbCrc16Append :: "u8 list \<Rightarrow> u8 \<Rightarrow> u8 list option" where
  "usbCrc16Append mem argLen = do {
     (crc, ptr) \<leftarrow> usbCrc16 mem argLen;
     mem \<leftarrow> wr mem ptr (lo8 crc);
     wr mem (Suc ptr) (hi8 crc)
   }"

section \<open>The reference\<close>

definition crc_bit :: "u16 \<Rightarrow> u16" where
  "crc_bit c = drop_bit 1 c XOR (if bit c 0 then 0xa001 else 0)"

definition crc_byte :: "u16 \<Rightarrow> u8 \<Rightarrow> u16" where
  "crc_byte c b = (crc_bit ^^ 8) (c XOR ucast b)"

definition crc16_usb :: "u8 list \<Rightarrow> u16" where
  "crc16_usb bs = NOT (foldl crc_byte 0xffff bs)"

section \<open>The routine computes the reference\<close>

lemma unat_minus_one_u8: "unat (- 1 :: u8) = 255"
  by (simp add: unsigned_minus_1_eq_mask mask_eq_exp_minus_1)

text \<open>
  The routine keeps the complement of the reference register: shifting a one in at the top and
  adding the polynomial when the bit shifted out is 0 is the complement of shifting a zero in
  and adding it when the bit is 1.
\<close>

lemma le16_zero [simp]: "le16 0 0 = 0"
  by (simp add: le16_def)

lemma le16_XOR: "le16 (a XOR b) (c XOR d) = le16 a c XOR le16 b d"
  by (rule bit_word_eqI) (simp add: bit_simps bit_le16)

lemma le16_shift:
  "le16 (drop_bit 1 l OR (if bit h 0 then BV 7 else 0)) (drop_bit 1 h OR BV 7) =
     set_bit 15 (drop_bit 1 (le16 l h))"
proof -
  have "8 \<le> n \<Longrightarrow> n - 7 = Suc (n - 8)" for n :: nat by arith
  then show ?thesis
    by (intro bit_word_eqI)
      (auto simp: bit_simps bit_le16 not_less le_less_Suc_eq dest: bit_imp_le_length)
qed

lemma shift_in_one: "set_bit 15 (drop_bit 1 c) = NOT (drop_bit 1 (NOT c))" for c :: u16
  by (rule bit_word_eqI) (auto simp: bit_simps)

lemma crc_shift_complement:
  assumes "crc_shift True (l, h) = (l', h')"
  shows "le16 l' h' = NOT (crc_bit (NOT (le16 l h)))"
proof -
  have x80: "(0x80 :: u8) = BV 7" by (simp add: BV_def)
  have poly: "le16 polyL polyH = 0xa001" by (simp add: le16_def polyL_def polyH_def)
  let ?p = "\<lambda>x. if bit l 0 then 0 else x"
  have l': "l' = (drop_bit 1 l OR (if bit h 0 then BV 7 else 0)) XOR ?p polyL"
    and h': "h' = (drop_bit 1 h OR BV 7) XOR ?p polyH"
    using assms by (auto simp: crc_shift_def ror_def x80 split: if_splits)
  have "le16 l' h' = set_bit 15 (drop_bit 1 (le16 l h)) XOR le16 (?p polyL) (?p polyH)"
    unfolding l' h' le16_XOR le16_shift by (rule refl)
  also have "\<dots> = NOT (drop_bit 1 (NOT (le16 l h))) XOR ?p 0xa001"
    by (simp only: shift_in_one) (simp add: poly)
  also have "\<dots> = NOT (crc_bit (NOT (le16 l h)))"
    by (simp add: crc_bit_def bit_le16 bit_simps)
  finally show ?thesis .
qed

text \<open>The bit loop runs eight times: the counter goes 0, 32, 64, ..., 224 and back to 0.\<close>

lemma usbCrcBitLoop_step:
  "bitCnt < 224 \<Longrightarrow>
     usbCrcBitLoop True bitCnt res = usbCrcBitLoop True (bitCnt + 32) (crc_shift True res)"
proof -
  assume "bitCnt < 224"
  moreover have "bitCnt - 224 = bitCnt + 32" by simp
  ultimately show ?thesis
    by (subst usbCrcBitLoop.simps) (simp only: subi_def Let_def split if_True)
qed

lemma usbCrcBitLoop_last: "usbCrcBitLoop True 224 res = (0, crc_shift True res)"
  by (subst usbCrcBitLoop.simps) (simp add: subi_def)

lemma usbCrcBitLoop_eight:
  "usbCrcBitLoop True 0 res = (0, (crc_shift True ^^ 8) res)"
  by (simp add: usbCrcBitLoop_step usbCrcBitLoop_last funpow_8)

text \<open>A pair of registers viewed as the 16-bit register of the reference.\<close>

definition crc_reg :: "u8 \<times> u8 \<Rightarrow> u16" where
  "crc_reg res = NOT (le16 (fst res) (snd res))"

lemma crc_reg_shift: "crc_reg (crc_shift True res) = crc_bit (crc_reg res)"
  using crc_shift_complement [of "fst res" "snd res" "fst (crc_shift True res)" "snd (crc_shift True res)"]
  by (simp add: crc_reg_def)

lemma crc_reg_shifts: "crc_reg ((crc_shift True ^^ n) res) = (crc_bit ^^ n) (crc_reg res)"
  by (induction n) (simp_all add: crc_reg_shift)

lemma crc_reg_xor: "crc_reg (l XOR b, h) = crc_reg (l, h) XOR ucast b"
proof -
  have "le16 b 0 = ucast b" by (simp add: le16_def)
  then have "le16 (l XOR b) (h XOR 0) = le16 l h XOR ucast b"
    by (simp only: le16_XOR)
  then show ?thesis by (simp add: crc_reg_def)
qed

lemma crc_reg_byte:
  "crc_reg ((crc_shift True ^^ 8) (fst res XOR b, snd res)) = crc_byte (crc_reg res) b"
  by (simp only: crc_reg_shifts crc_byte_def crc_reg_xor prod.collapse)

text \<open>
  The byte loop reads the bytes from \<open>ptr\<close> on, \<open>255 - argLen\<close> of them, and stops behind the last.
\<close>

lemma usbCrcLoopEntry_reads:
  assumes "ptr + (255 - unat argLen) \<le> length mem"
  shows "\<exists>res'. usbCrcLoopEntry mem ptr argLen 0 res = Some (res', ptr + (255 - unat argLen)) \<and>
           crc_reg res' = foldl crc_byte (crc_reg res) (take (255 - unat argLen) (drop ptr mem))"
  using assms
proof (induction "255 - unat argLen" arbitrary: ptr argLen res)
  case 0
  have "unat argLen \<le> 255" using unat_u8_less [of argLen] by simp
  with 0 have "unat argLen = 255" by simp
  then have "argLen = - 1"
    by (metis (no_types) unsigned_word_eqI unat_minus_one_u8)
  then show ?case
    by (simp add: usbCrcLoopEntry.simps [of mem ptr] subi_def unat_minus_one_u8)
next
  case (Suc n)
  let ?res = "(crc_shift True ^^ 8) (fst res XOR mem ! ptr, snd res)"
  from Suc have lt: "unat argLen < 255" and ptr: "ptr < length mem" by simp_all
  then have carry: "argLen < - 1"
    by (simp add: word_less_nat_alt unat_minus_one_u8)
  have len: "unat (argLen + 1) = Suc (unat argLen)"
    using lt by (simp add: unat_word_ariths)
  have step: "usbCrcLoopEntry mem ptr argLen 0 res = usbCrcLoopEntry mem (Suc ptr) (argLen + 1) 0 ?res"
    using carry ptr
    by (simp add: usbCrcLoopEntry.simps [of mem ptr] subi_def rd_in usbCrcBitLoop_eight)
  have "n = 255 - unat (argLen + 1)" using Suc.hyps len by simp
  then obtain res' where
    res': "usbCrcLoopEntry mem (Suc ptr) (argLen + 1) 0 ?res = Some (res', Suc ptr + n)"
    "crc_reg res' = foldl crc_byte (crc_reg ?res) (take n (drop (Suc ptr) mem))"
    using Suc.hyps(1) [of "argLen + 1" "Suc ptr" ?res] Suc.hyps(2) Suc.prems by auto
  have "take (Suc n) (drop ptr mem) = mem ! ptr # take n (drop (Suc ptr) mem)"
    using ptr by (simp add: Cons_nth_drop_Suc [symmetric])
  then show ?case
    using res' step by (simp add: crc_reg_byte flip: Suc.hyps(2))
qed

lemma unat_NOT_u8: "unat (NOT argLen :: u8) = 255 - unat argLen"
proof -
  have "NOT argLen = - 1 - argLen" by (simp add: not_eq_complement)
  moreover have "argLen \<le> - 1" by simp
  ultimately show ?thesis by (simp add: unat_sub unat_minus_one_u8)
qed

lemma usbCrc16_reads:
  assumes "unat argLen \<le> length mem"
  shows "usbCrc16 mem argLen = Some (crc16_usb (take (unat argLen) mem), unat argLen)"
proof -
  have n: "255 - unat (NOT argLen) = unat argLen"
    using unat_u8_less [of argLen] by (simp add: unat_NOT_u8)
  have "crc_reg (0, 0) = 0xffff"
    by (simp add: crc_reg_def)
  then obtain res' where
    loop: "usbCrcLoopEntry mem 0 (NOT argLen) 0 (0, 0) = Some (res', unat argLen)" and
    reg: "crc_reg res' = foldl crc_byte 0xffff (take (unat argLen) mem)"
    using usbCrcLoopEntry_reads [of 0 "NOT argLen" mem "(0, 0)"] assms n by auto
  from loop show ?thesis
    by (cases res') (simp add: usbCrc16_def crc16_usb_def crc_reg_def flip: reg)
qed

lemma usbCrc16Append_writes:
  assumes "unat argLen + 2 \<le> length mem"
  shows "usbCrc16Append mem argLen =
           (let n = unat argLen; crc = crc16_usb (take n mem)
            in Some (mem[n := lo8 crc, Suc n := hi8 crc]))"
  using assms by (simp add: usbCrc16Append_def usbCrc16_reads wr_in Let_def)

section \<open>Residue\<close>

text \<open>One bit step is linear, so eight of them act on the two bytes of the register separately.\<close>

lemma crc_bit_XOR: "crc_bit (a XOR b) = crc_bit a XOR crc_bit b"
  by (rule bit_word_eqI) (auto simp: crc_bit_def bit_simps)

lemma crc_bits_XOR: "(crc_bit ^^ n) (a XOR b) = (crc_bit ^^ n) a XOR (crc_bit ^^ n) b"
  by (induction n) (simp_all add: crc_bit_XOR)

lemma crc_bits_shift:
  "n \<le> 8 \<Longrightarrow> (crc_bit ^^ n) (push_bit 8 (ucast h)) = push_bit (8 - n) (ucast (h :: u8))"
proof (induction n)
  case 0
  then show ?case by simp
next
  case (Suc n)
  then have "(crc_bit ^^ Suc n) (push_bit 8 (ucast h)) = crc_bit (push_bit (8 - n) (ucast h))"
    by simp
  also have "\<dots> = push_bit (8 - Suc n) (ucast h)"
    using Suc.prems
    by (intro bit_word_eqI)
      (auto simp: crc_bit_def bit_simps Suc_diff_le dest: bit_imp_le_length)
  finally show ?case .
qed

lemma crc_byte_split:
  "crc_byte (le16 l h) b = (crc_bit ^^ 8) (ucast (l XOR b)) XOR ucast h"
proof -
  have "le16 l h XOR ucast b = ucast (l XOR b) XOR push_bit 8 (ucast h)"
    by (rule bit_word_eqI) (auto simp: bit_simps bit_le16 dest: bit_imp_le_length)
  then show ?thesis
    using crc_bits_shift [of 8 h] by (simp add: crc_byte_def crc_bits_XOR)
qed

lemma crc_bits_ff: "(crc_bit ^^ 8) (0xff :: u16) = 0x4040"
  by (simp add: crc_bit_def funpow_8)

text \<open>Feeding the complement of the register leaves the same value whatever the register was.\<close>

lemma crc_residue: "crc_byte (crc_byte c (lo8 (NOT c))) (hi8 (NOT c)) = 0xb001"
proof -
  define l h where "l = lo8 c" and "h = hi8 c"
  have c: "c = le16 l h" by (simp add: l_def h_def)
  have compl: "lo8 (NOT c) = NOT l" "hi8 (NOT c) = NOT h"
    by (auto intro!: bit_word_eqI simp: l_def h_def lo8_def hi8_def bit_simps)
  have self: "x XOR NOT x = 0xff" for x :: u8
    by (simp add: bit.xor_compl_right)
  have "crc_byte c (NOT l) = 0x4040 XOR ucast h"
    unfolding c crc_byte_split self using crc_bits_ff by simp
  also have "\<dots> = le16 0x40 0x40 XOR le16 h 0"
    by (simp add: le16_def)
  also have "\<dots> = le16 (0x40 XOR h) 0x40"
    by (simp flip: le16_XOR)
  finally have "crc_byte (crc_byte c (NOT l)) (NOT h) =
      (crc_bit ^^ 8) (ucast (0x40 XOR (h XOR NOT h))) XOR ucast (0x40 :: u8)"
    by (simp only: crc_byte_split xor.assoc)
  also have "\<dots> = 0xb001"
    unfolding self by (simp add: crc_bit_def funpow_8)
  finally show ?thesis unfolding compl .
qed

lemma foldl_crc16: "foldl crc_byte 0xffff bs = NOT (crc16_usb bs)"
  by (simp add: crc16_usb_def)

lemma crc16_usb_residue: "crc16_usb (bs @ [lo8 (crc16_usb bs), hi8 (crc16_usb bs)]) = 0x4ffe"
  using crc_residue [of "foldl crc_byte 0xffff bs"]
  by (simp add: crc16_usb_def)

section \<open>Properties\<close>

text \<open>
  C24. The checksum routine of the driver, which keeps the register complemented, rotates it through
  the carry and counts both its loops with wrapping bytes, computes the CRC-16 of the USB
  standard (polynomial 0xA001 reflected, start value and final complement of ones) of exactly the
  first \<open>argLen\<close> bytes, and leaves its pointer behind them.
\<close>
theorem checksum_routine_correct:
  assumes "unat argLen \<le> length mem"
  shows "usbCrc16 mem argLen = Some (crc16_usb (take (unat argLen) mem), unat argLen)"
  using assms by (rule usbCrc16_reads)

theorem checksum_routine_correct_witness:
  "usbCrc16 [0x80, 6, 0, 1, 0, 0, 0x40, 0, 0, 0] 8 =
     Some (crc16_usb [0x80, 6, 0, 1, 0, 0, 0x40, 0], 8)"
  using checksum_routine_correct [of 8 "[0x80, 6, 0, 1, 0, 0, 0x40, 0, 0, 0]"] by simp

text \<open>
  Appending the checksum makes a packet that any receiver accepts: over the data and the two
  bytes behind it the CRC is the constant residue 0x4FFE. The data in front and the memory behind
  stay as they were.
\<close>
lemma appended_checksum_residue:
  assumes "unat len + 2 \<le> length mem"
  shows "\<exists>mem'. usbCrc16Append mem len = Some mem' \<and>
           crc16_usb (take (unat len + 2) mem') = 0x4ffe \<and>
           take (unat len) mem' = take (unat len) mem \<and>
           drop (unat len + 2) mem' = drop (unat len + 2) mem"
proof -
  let ?n = "unat len"
  let ?d = "take ?n mem"
  let ?crc = "crc16_usb ?d"
  let ?mem = "mem[?n := lo8 ?crc, Suc ?n := hi8 ?crc]"
  have "usbCrc16Append mem len = Some ?mem"
    using usbCrc16Append_writes [OF assms] by (simp add: Let_def)
  moreover have "take (?n + 2) ?mem = ?d @ [lo8 ?crc, hi8 ?crc]"
    using assms by (simp add: take_Suc_conv_app_nth)
  moreover have "take ?n ?mem = ?d" "drop (?n + 2) ?mem = drop (?n + 2) mem" by simp_all
  ultimately show ?thesis using crc16_usb_residue [of ?d] by auto
qed

lemma appended_checksum_residue_example:
  "\<exists>mem'. usbCrc16Append [7, 9, 0, 0] 2 = Some mem' \<and> crc16_usb mem' = 0x4ffe"
  using appended_checksum_residue [of 2 "[7, 9, 0, 0]"] by (auto simp: usbCrc16Append_writes Let_def)

end
