(* ===== verification/Usb_Driver.thy ===== *)
theory Usb_Driver
  imports Fw_Requests Usb_Crc
begin

unbundle bit_operations_syntax

text \<open>
  The C part of the USB driver, \<open>firmware/src/usbdrv/usbdrv.c\<close>, as \<open>firmware/src/usbconfig.h\<close>
  configures it: one control endpoint, no interrupt endpoint, no \<open>HALT\<close>, user-supplied read and
  write functions, static descriptors in flash. The driver calls \<open>usbFunctionSetup\<close>,
  \<open>usbFunctionRead\<close> and \<open>usbFunctionWrite\<close> of \<open>Fw_Requests\<close>, so its functions act on the whole
  firmware state.
\<close>

section \<open>Constants of usbdrv.h\<close>

abbreviation (input) USBPID_SETUP :: u8 where "USBPID_SETUP \<equiv> 0x2d"

abbreviation (input) USBPID_OUT :: u8 where "USBPID_OUT \<equiv> 0xe1"

abbreviation (input) USBPID_IN :: u8 where "USBPID_IN \<equiv> 0x69"

abbreviation (input) USBPID_DATA0 :: u8 where "USBPID_DATA0 \<equiv> 0xc3"

abbreviation (input) USBPID_DATA1 :: u8 where "USBPID_DATA1 \<equiv> 0x4b"

abbreviation (input) USBPID_ACK :: u8 where "USBPID_ACK \<equiv> 0xd2"

abbreviation (input) USBPID_NAK :: u8 where "USBPID_NAK \<equiv> 0x5a"

abbreviation (input) USBPID_STALL :: u8 where "USBPID_STALL \<equiv> 0x1e"

abbreviation (input) USB_NO_MSG :: u8 where "USB_NO_MSG \<equiv> 0xff"

abbreviation (input) USB_BUFSIZE :: nat where "USB_BUFSIZE \<equiv> 11"

abbreviation (input) USBRQ_RCPT_MASK :: u8 where "USBRQ_RCPT_MASK \<equiv> 0x1f"

abbreviation (input) USBRQ_TYPE_MASK :: u8 where "USBRQ_TYPE_MASK \<equiv> 0x60"

abbreviation (input) USBRQ_TYPE_STANDARD :: u8 where "USBRQ_TYPE_STANDARD \<equiv> 0"

abbreviation (input) USBRQ_TYPE_VENDOR :: u8 where "USBRQ_TYPE_VENDOR \<equiv> 0x40"

abbreviation (input) USBRQ_DIR_MASK :: u8 where "USBRQ_DIR_MASK \<equiv> 0x80"

abbreviation (input) USBRQ_DIR_HOST_TO_DEVICE :: u8 where "USBRQ_DIR_HOST_TO_DEVICE \<equiv> 0"

abbreviation (input) USBRQ_GET_STATUS :: u8 where "USBRQ_GET_STATUS \<equiv> 0"

abbreviation (input) USBRQ_SET_ADDRESS :: u8 where "USBRQ_SET_ADDRESS \<equiv> 5"

abbreviation (input) USBRQ_GET_DESCRIPTOR :: u8 where "USBRQ_GET_DESCRIPTOR \<equiv> 6"

abbreviation (input) USBRQ_GET_CONFIGURATION :: u8 where "USBRQ_GET_CONFIGURATION \<equiv> 8"

abbreviation (input) USBRQ_SET_CONFIGURATION :: u8 where "USBRQ_SET_CONFIGURATION \<equiv> 9"

abbreviation (input) USBRQ_GET_INTERFACE :: u8 where "USBRQ_GET_INTERFACE \<equiv> 10"

abbreviation (input) USBDESCR_DEVICE :: u8 where "USBDESCR_DEVICE \<equiv> 1"

abbreviation (input) USBDESCR_CONFIG :: u8 where "USBDESCR_CONFIG \<equiv> 2"

abbreviation (input) USBDESCR_STRING :: u8 where "USBDESCR_STRING \<equiv> 3"

abbreviation (input) USBDESCR_INTERFACE :: u8 where "USBDESCR_INTERFACE \<equiv> 4"

abbreviation (input) USB_FLG_MSGPTR_IS_ROM :: u8 where "USB_FLG_MSGPTR_IS_ROM \<equiv> 0x40"

abbreviation (input) USB_FLG_USE_USER_RW :: u8 where "USB_FLG_USE_USER_RW \<equiv> 0x80"

abbreviation (input) USB_PROP_IS_RAM :: u16 where "USB_PROP_IS_RAM \<equiv> 0x8000"

section \<open>Descriptors\<close>

text \<open>
  A descriptor of \<open>int\<close> entries is stored low byte first. \<open>USB_CFG_DEVICE_NAME_LEN\<close> is the 9 that
  \<open>usbconfig.h\<close> defines.
\<close>

abbreviation (input) USB_CFG_DEVICE_NAME_LEN :: nat where "USB_CFG_DEVICE_NAME_LEN \<equiv> 9"

definition USB_CFG_DEVICE_NAME :: "u16 list" where
  "USB_CFG_DEVICE_NAME = map (of_nat \<circ> of_char) ''rfid-tool''"

definition USB_STRING_DESCRIPTOR_HEADER :: "nat \<Rightarrow> u16" where
  "USB_STRING_DESCRIPTOR_HEADER stringLength = (2 * of_nat stringLength + 2) OR push_bit 8 3"

definition int_bytes :: "u16 list \<Rightarrow> u8 list" where
  "int_bytes ws = concat (map (\<lambda>w. [lo8 w, hi8 w]) ws)"

definition usbDescriptorString0 :: "u8 list" where
  "usbDescriptorString0 = [4, 3, 0x09, 0x04]"

definition usbDescriptorStringDevice :: "u8 list" where
  "usbDescriptorStringDevice =
     int_bytes (USB_STRING_DESCRIPTOR_HEADER USB_CFG_DEVICE_NAME_LEN # USB_CFG_DEVICE_NAME)"

definition USB_CFG_VENDOR_ID :: "u8 list" where "USB_CFG_VENDOR_ID = [0xc0, 0x16]"

definition USB_CFG_DEVICE_ID :: "u8 list" where "USB_CFG_DEVICE_ID = [0xdc, 0x05]"

definition USB_CFG_DEVICE_VERSION :: "u8 list" where
  "USB_CFG_DEVICE_VERSION = [FIRMWARE_VERSION_MAJOR, FIRMWARE_VERSION_MINOR]"

text \<open>
  The lengths the driver reports for each descriptor (\<open>sizeof\<close> the array; 0 for the vendor and
  serial number strings, which the configuration leaves out).
\<close>

definition USB_CFG_DESCR_PROPS_STRING_0 :: u16 where
  "USB_CFG_DESCR_PROPS_STRING_0 = of_nat (length usbDescriptorString0)"

definition USB_CFG_DESCR_PROPS_STRING_VENDOR :: u16 where
  "USB_CFG_DESCR_PROPS_STRING_VENDOR = 0"

definition USB_CFG_DESCR_PROPS_STRING_PRODUCT :: u16 where
  "USB_CFG_DESCR_PROPS_STRING_PRODUCT = of_nat (length usbDescriptorStringDevice)"

definition USB_CFG_DESCR_PROPS_STRING_SERIAL_NUMBER :: u16 where
  "USB_CFG_DESCR_PROPS_STRING_SERIAL_NUMBER = 0"

definition usbDescriptorDevice :: "u8 list" where
  "usbDescriptorDevice =
     [18, USBDESCR_DEVICE, 0x10, 0x01, 0xff, 0, 0, 8]
     @ USB_CFG_VENDOR_ID @ USB_CFG_DEVICE_ID @ USB_CFG_DEVICE_VERSION
     @ [if USB_CFG_DESCR_PROPS_STRING_VENDOR \<noteq> 0 then 1 else 0,
        if USB_CFG_DESCR_PROPS_STRING_PRODUCT \<noteq> 0 then 2 else 0,
        if USB_CFG_DESCR_PROPS_STRING_SERIAL_NUMBER \<noteq> 0 then 3 else 0,
        1]"

definition USB_CFG_DESCR_PROPS_DEVICE :: u16 where
  "USB_CFG_DESCR_PROPS_DEVICE = of_nat (length usbDescriptorDevice)"

definition usbDescriptorConfiguration :: "u8 list" where
  "usbDescriptorConfiguration =
     [9, USBDESCR_CONFIG, 18 + 7 * 0 + 7 * 0 + (0 AND 0xff), 0, 1, 1, 0, BV 7, of_nat (200 div 2),
      9, USBDESCR_INTERFACE, 0, 0, 0 + 0, 0, 0, 0, 0]"

definition USB_CFG_DESCR_PROPS_CONFIGURATION :: u16 where
  "USB_CFG_DESCR_PROPS_CONFIGURATION = of_nat (length usbDescriptorConfiguration)"

section \<open>Message objects\<close>

definition msg_bytes :: "msg_object \<Rightarrow> fw \<Rightarrow> u8 list" where
  "msg_bytes obj s =
     (case obj of
        Obj_NULL \<Rightarrow> []
      | Obj_response \<Rightarrow> response s
      | Obj_usbTxBuf \<Rightarrow> usbTxBuf (usb s)
      | Obj_usbConfiguration \<Rightarrow> [usbConfiguration (usb s)]
      | Obj_usbDescriptorDevice \<Rightarrow> usbDescriptorDevice
      | Obj_usbDescriptorConfiguration \<Rightarrow> usbDescriptorConfiguration
      | Obj_usbDescriptorString0 \<Rightarrow> usbDescriptorString0
      | Obj_usbDescriptorStringDevice \<Rightarrow> usbDescriptorStringDevice)"

fun in_flash :: "msg_object \<Rightarrow> bool" where
  "in_flash Obj_usbDescriptorDevice = True"
| "in_flash Obj_usbDescriptorConfiguration = True"
| "in_flash Obj_usbDescriptorString0 = True"
| "in_flash Obj_usbDescriptorStringDevice = True"
| "in_flash _ = False"

text \<open>
  \<open>*r\<close> in RAM or \<open>USB_READ_FLASH(r)\<close>: a read with the wrong access for the object, or outside it,
  is \<open>None\<close>.
\<close>

definition msg_read :: "bool \<Rightarrow> usbMsgPtr_t \<Rightarrow> fw \<Rightarrow> u8 option" where
  "msg_read rom r s = (if rom = in_flash (fst r) then rd (msg_bytes (fst r) s) (snd r) else None)"

abbreviation upd_usb :: "(usbdrv \<Rightarrow> usbdrv) \<Rightarrow> fw \<Rightarrow> fw" where
  "upd_usb f s \<equiv> s\<lparr>usb := f (usb s)\<rparr>"

section \<open>Standard requests\<close>

text \<open>
  The macro \<open>GET_DESCRIPTOR\<close>. None of the configured properties has the bit that makes a
  descriptor dynamic, so the call of \<open>usbFunctionDescriptor\<close>, which the firmware does not define,
  is never compiled in.
\<close>

definition GET_DESCRIPTOR :: "u16 \<Rightarrow> msg_object \<Rightarrow> u8 \<Rightarrow> fw \<Rightarrow> u8 \<times> u8 \<times> fw" where
  "GET_DESCRIPTOR cfgProp staticName flags s =
     (if cfgProp \<noteq> 0
      then (ucast (cfgProp AND 0x3fff),
            if cfgProp AND USB_PROP_IS_RAM \<noteq> 0 then 0 else flags,
            upd_usb (usbMsgPtr_update (\<lambda>_. (staticName, 0))) s)
      else (0, flags, s))"

definition usbDriverDescriptor :: "usbRequest \<Rightarrow> fw \<Rightarrow> u8 \<times> fw" where
  "usbDriverDescriptor rq s =
     (let flags = USB_FLG_MSGPTR_IS_ROM;
          kind = hi8 (wValue rq);
          index = lo8 (wValue rq);
          (len, flags, s) =
            (if kind = USBDESCR_DEVICE then
               GET_DESCRIPTOR USB_CFG_DESCR_PROPS_DEVICE Obj_usbDescriptorDevice flags s
             else if kind = USBDESCR_CONFIG then
               GET_DESCRIPTOR USB_CFG_DESCR_PROPS_CONFIGURATION Obj_usbDescriptorConfiguration flags s
             else if kind = USBDESCR_STRING then
               (if index = 0 then
                  GET_DESCRIPTOR USB_CFG_DESCR_PROPS_STRING_0 Obj_usbDescriptorString0 flags s
                else if index = 1 then
                  GET_DESCRIPTOR USB_CFG_DESCR_PROPS_STRING_VENDOR Obj_NULL flags s
                else if index = 2 then
                  GET_DESCRIPTOR USB_CFG_DESCR_PROPS_STRING_PRODUCT Obj_usbDescriptorStringDevice flags s
                else if index = 3 then
                  GET_DESCRIPTOR USB_CFG_DESCR_PROPS_STRING_SERIAL_NUMBER Obj_NULL flags s
                else (0, flags, s))
             else (0, flags, s))
      in (len, upd_usb (usbMsgFlags_update (\<lambda>_. flags)) s))"

definition usbDriverSetup :: "usbRequest \<Rightarrow> fw \<Rightarrow> (u8 \<times> fw) option" where
  "usbDriverSetup rq s = do {
     let value = lo8 (wValue rq);
     let dataPtr = (Obj_usbTxBuf, 9);
     buf \<leftarrow> wr (usbTxBuf (usb s)) 9 0;
     let s = upd_usb (usbTxBuf_update (\<lambda>_. buf)) s;
     let r = bRequest rq;
     if r = USBRQ_GET_DESCRIPTOR then Some (usbDriverDescriptor rq s)
     else do {
       (len, dataPtr, s) \<leftarrow>
         (if r = USBRQ_GET_STATUS then do {
            buf \<leftarrow> wr (usbTxBuf (usb s)) 10 0;
            Some (2, dataPtr, upd_usb (usbTxBuf_update (\<lambda>_. buf)) s)
          }
          else if r = USBRQ_SET_ADDRESS then
            Some (0, dataPtr, upd_usb (usbNewDeviceAddr_update (\<lambda>_. value)) s)
          else if r = USBRQ_GET_CONFIGURATION then Some (1, (Obj_usbConfiguration, 0), s)
          else if r = USBRQ_SET_CONFIGURATION then
            Some (0, dataPtr, upd_usb (usbConfiguration_update (\<lambda>_. value)) s)
          else if r = USBRQ_GET_INTERFACE then Some (1, dataPtr, s)
          else Some (0, dataPtr, s));
       Some (len, upd_usb (usbMsgPtr_update (\<lambda>_. dataPtr)) s)
     }
   }"

section \<open>Received packets\<close>

text \<open>
  \<open>usbProcessRx(data, len)\<close>: \<open>data\<close> holds the \<open>len\<close> bytes of the packet. The functions that see
  the setup packet are called only when it has eight.
\<close>

definition limit_reply :: "usbRequest \<Rightarrow> u8 \<Rightarrow> u8" where
  "limit_reply rq replyLen =
     (if hi8 (wLength rq) = 0 \<and> lo8 (wLength rq) < replyLen then lo8 (wLength rq) else replyLen)"

definition process_setup :: "u8 list \<Rightarrow> fw \<Rightarrow> fw option" where
  "process_setup data s = do {
     let rq = usbRequest_of data;
     buf \<leftarrow> wr (usbTxBuf (usb s)) 0 USBPID_DATA0;
     let s = upd_usb (\<lambda>u. u\<lparr>usbTxBuf := buf, usbTxLen := USBPID_NAK, usbMsgFlags := 0\<rparr>) s;
     let type = bmRequestType rq AND USBRQ_TYPE_MASK;
     (replyLen, s) \<leftarrow> (if type \<noteq> USBRQ_TYPE_STANDARD then usbFunctionSetup data s
                       else usbDriverSetup rq s);
     let (replyLen, s) =
       (if replyLen = USB_NO_MSG
        then (if bmRequestType rq AND USBRQ_DIR_MASK \<noteq> USBRQ_DIR_HOST_TO_DEVICE
                then lo8 (wLength rq) else replyLen,
              upd_usb (usbMsgFlags_update (\<lambda>_. USB_FLG_USE_USER_RW)) s)
        else (limit_reply rq replyLen, s));
     Some (upd_usb (usbMsgLen_update (\<lambda>_. replyLen)) s)
   }"

definition usbProcessRx :: "u8 list \<Rightarrow> fw \<Rightarrow> fw option" where
  "usbProcessRx data s =
     (if usbRxToken (usb s) = USBPID_SETUP
      then (if length data \<noteq> 8 then Some s else process_setup data s)
      else if usbMsgFlags (usb s) AND USB_FLG_USE_USER_RW \<noteq> 0
      then do {
        (rval, s) \<leftarrow> usbFunctionWrite data s;
        if rval = 0xff then Some (upd_usb (usbTxLen_update (\<lambda>_. USBPID_STALL)) s)
        else if rval \<noteq> 0 then Some (upd_usb (usbMsgLen_update (\<lambda>_. 0)) s)
        else Some s
      }
      else Some s)"

section \<open>Transmitted packets\<close>

text \<open>The copy loop of \<open>usbDeviceRead\<close>, one byte at a time, from \<open>usbMsgPtr\<close> to \<open>usbTxBuf\<close>.\<close>

fun copy_loop :: "bool \<Rightarrow> nat \<Rightarrow> nat \<Rightarrow> fw \<Rightarrow> fw option" where
  "copy_loop rom 0 dst s = Some s"
| "copy_loop rom (Suc i) dst s = do {
     let r = usbMsgPtr (usb s);
     c \<leftarrow> msg_read rom r s;
     buf \<leftarrow> wr (usbTxBuf (usb s)) dst c;
     copy_loop rom i (Suc dst)
       (upd_usb (\<lambda>u. u\<lparr>usbTxBuf := buf, usbMsgPtr := (fst r, Suc (snd r))\<rparr>) s)
   }"

definition usbDeviceRead :: "u8 \<Rightarrow> fw \<Rightarrow> (u8 \<times> fw) option" where
  "usbDeviceRead len s =
     (if 0 < len
      then (if usbMsgFlags (usb s) AND USB_FLG_USE_USER_RW \<noteq> 0
            then do {
              (vs, s) \<leftarrow> usbFunctionRead len s;
              buf \<leftarrow> wr_list (usbTxBuf (usb s)) 1 vs;
              Some (of_nat (length vs), upd_usb (usbTxBuf_update (\<lambda>_. buf)) s)
            }
            else do {
              s \<leftarrow> copy_loop (usbMsgFlags (usb s) AND USB_FLG_MSGPTR_IS_ROM \<noteq> 0) (unat len) 1 s;
              Some (len, s)
            })
      else Some (len, s))"

definition usbBuildTxBlock :: "fw \<Rightarrow> fw option" where
  "usbBuildTxBlock s = do {
     let wantLen = usbMsgLen (usb s);
     let wantLen = (if 8 < wantLen then 8 else wantLen);
     let s = upd_usb (\<lambda>u. u\<lparr>usbMsgLen := usbMsgLen u - wantLen\<rparr>) s;
     pid \<leftarrow> rd (usbTxBuf (usb s)) 0;
     buf \<leftarrow> wr (usbTxBuf (usb s)) 0 (pid XOR (USBPID_DATA0 XOR USBPID_DATA1));
     let s = upd_usb (usbTxBuf_update (\<lambda>_. buf)) s;
     (len, s) \<leftarrow> usbDeviceRead wantLen s;
     (len, s) \<leftarrow>
       (if len \<le> 8
        then do {
          tail \<leftarrow> usbCrc16Append (drop 1 (usbTxBuf (usb s))) len;
          let s = upd_usb (\<lambda>u. u\<lparr>usbTxBuf := take 1 (usbTxBuf u) @ tail\<rparr>) s;
          let len = len + 4;
          Some (len, if len < 12 then upd_usb (usbMsgLen_update (\<lambda>_. USB_NO_MSG)) s else s)
        }
        else Some (USBPID_STALL, upd_usb (usbMsgLen_update (\<lambda>_. USB_NO_MSG)) s));
     Some (upd_usb (usbTxLen_update (\<lambda>_. len)) s)
   }"

section \<open>Polling\<close>

text \<open>
  The body \<open>main\<close> runs in each turn of its loop: \<open>usbPoll\<close> without the reset logic and without
  double buffering. \<open>len = usbRxLen - 3\<close> is a signed byte.
\<close>

definition poll_rx :: "nat \<Rightarrow> fw \<Rightarrow> fw option" where
  "poll_rx base s =
     (let len = usbRxLen (usb s) - 3
      in if 0 \<le> sint len
         then (if base + unat len \<le> length (usbRxBuf (usb s))
               then do {
                 s \<leftarrow> usbProcessRx (take (unat len) (drop base (usbRxBuf (usb s)))) s;
                 Some (upd_usb (usbRxLen_update (\<lambda>_. 0)) s)
               }
               else None)
         else Some s)"

definition poll_tx :: "fw \<Rightarrow> fw option" where
  "poll_tx s =
     (if usbTxLen (usb s) AND 0x10 \<noteq> 0
      then (if usbMsgLen (usb s) \<noteq> USB_NO_MSG then usbBuildTxBlock s else Some s)
      else Some s)"

text \<open>
  \<open>usbPoll\<close> itself, which the firmware keeps but does not call. \<open>line i\<close> is whether \<open>D+\<close> or
  \<open>D-\<close> is high at the \<open>i\<close>-th of the twenty looks at the port.
\<close>

definition usbPoll :: "(nat \<Rightarrow> bool) \<Rightarrow> fw \<Rightarrow> fw option" where
  "usbPoll line s = do {
     s \<leftarrow> poll_rx (USB_BUFSIZE + 1 - unat (usbInputBufOffset (usb s))) s;
     s \<leftarrow> poll_tx s;
     if list_ex line [0..<20] then Some s
     else Some (upd_usb (\<lambda>u. u\<lparr>usbNewDeviceAddr := 0, usbDeviceAddr := 0\<rparr>) s)
   }"

text \<open>\<open>USB_INTR_CFG_SET\<close> is \<open>1 << USB_CFG_DPLUS_BIT\<close> and \<open>USB_INTR_ENABLE_BIT\<close> is 0.\<close>

definition usbInit :: "fw \<Rightarrow> fw" where
  "usbInit s =
     (let s = upd_usb (\<lambda>u. u\<lparr>usbTxLen := USBPID_NAK, usbMsgLen := USB_NO_MSG\<rparr>) s;
          s = s\<lparr>hw := (hw s)\<lparr>PCMSK := PCMSK (hw s) OR BV 4\<rparr>\<rparr>
      in s\<lparr>hw := (hw s)\<lparr>GIMSK := GIMSK (hw s) OR BV 0\<rparr>\<rparr>)"

definition usbDeviceConnect :: "avr \<Rightarrow> avr" where
  "usbDeviceConnect h = h\<lparr>DDRB := DDRB h AND NOT (BV 3)\<rparr>"

definition usbDeviceDisconnect :: "avr \<Rightarrow> avr" where
  "usbDeviceDisconnect h = h\<lparr>DDRB := DDRB h OR BV 3\<rparr>"

end
