(* ===== verification/Usb_Transceiver.thy ===== *)
theory Usb_Transceiver
  imports Usb_Driver
begin

unbundle bit_operations_syntax

text \<open>
  The interrupt routine of the USB driver at the level of packets: what
  \<open>firmware/src/usbdrv/asmcommon.inc\<close> does with a packet once its bytes are in \<open>usbRxBuf\<close>, and
  what \<open>usbdrvasm165.inc\<close> sends back. The sampling of bits (sync, bit stuffing, SE0) is below
  this level: a packet is the list of its bytes, the PID first.
\<close>

datatype usb_answer =
    No_Answer
  | Handshake u8
  | Data_Packet "u8 list"

text \<open>\<open>handleData\<close>: \<open>cnt\<close> is the number of bytes of the packet.\<close>

definition handleData :: "u8 \<Rightarrow> usbdrv \<Rightarrow> usbdrv \<times> usb_answer" where
  "handleData cnt u =
     (let shift = usbCurrentTok u
      in if shift = 0 then (u, No_Answer)
         else if usbRxLen u \<noteq> 0 then (u, Handshake USBPID_NAK)
         else if cnt < 4 then (u, Handshake USBPID_ACK)
         else (u\<lparr>usbRxLen := cnt, usbRxToken := shift\<rparr>, Handshake USBPID_ACK))"

text \<open>
  \<open>handleIn\<close>: a handshake token in \<open>usbTxLen\<close> is sent as it is; otherwise the packet in
  \<open>usbTxBuf\<close> goes out (\<open>usbTxLen\<close> counts the sync byte too) and the new device address, shifted
  left as the receiver compares it, takes effect.
\<close>

definition handleIn :: "usbdrv \<Rightarrow> usbdrv \<times> usb_answer" where
  "handleIn u =
     (if 1 \<le> sint (usbRxLen u) then (u, Handshake USBPID_NAK)
      else if usbTxLen u AND 0x10 \<noteq> 0 then (u, Handshake (usbTxLen u))
      else (u\<lparr>usbTxLen := USBPID_NAK, usbDeviceAddr := push_bit 1 (usbNewDeviceAddr u)\<rparr>,
            Data_Packet (take (unat (usbTxLen u) - 1) (usbTxBuf u))))"

text \<open>
  From \<open>se0\<close> on. The bytes went into \<open>usbRxBuf\<close> (\<open>usbInputBufOffset\<close> stays 0 in this firmware); a
  twelfth byte is an overflow, after which the packet is ignored.
\<close>

definition usb_rx_packet :: "u8 list \<Rightarrow> usbdrv \<Rightarrow> usbdrv \<times> usb_answer" where
  "usb_rx_packet pkt u =
     (let stored = take USB_BUFSIZE pkt;
          u = u\<lparr>usbRxBuf := stored @ drop (length stored) (usbRxBuf u)\<rparr>
      in if USB_BUFSIZE < length pkt then (u\<lparr>usbCurrentTok := 0\<rparr>, No_Answer)
         else (let cnt = of_nat (length pkt);
                   token = usbRxBuf u ! 0
               in if token = USBPID_DATA0 \<or> token = USBPID_DATA1 then handleData cnt u
                  else if push_bit 1 (usbRxBuf u ! 1) \<noteq> usbDeviceAddr u
                    then (u\<lparr>usbCurrentTok := 0\<rparr>, No_Answer)
                  else if token = USBPID_IN then handleIn u
                  else if token = USBPID_SETUP \<or> token = USBPID_OUT
                    then (u\<lparr>usbCurrentTok := token\<rparr>, No_Answer)
                  else (u\<lparr>usbCurrentTok := 0\<rparr>, No_Answer)))"

text \<open>
  One call of the routine serves the packets that follow each other while the pin-change flag is
  set again (\<open>doReturn\<close> jumps back to \<open>waitForJ\<close>).
\<close>

fun USB_INTR_VECTOR :: "u8 list list \<Rightarrow> usbdrv \<Rightarrow> usbdrv \<times> usb_answer list" where
  "USB_INTR_VECTOR [] u = (u, [])"
| "USB_INTR_VECTOR (pkt # pkts) u =
     (let (u, a) = usb_rx_packet pkt u;
          (u, as) = USB_INTR_VECTOR pkts u
      in (u, a # as))"

end
