(* ===== verification/Usb_Safety.thy ===== *)
theory Usb_Safety
  imports Usb_Transceiver
begin

unbundle bit_operations_syntax

text \<open>
  The invariant of the USB driver: the lengths and pointers it keeps stay inside the objects they
  refer to, whatever packets arrive. Each function of \<open>usbdrv.c\<close> and each request of \<open>main.c\<close>
  preserves it and makes no access outside an array, as long as the host sends no data packet
  for a request that is not a write (\<open>write_expected\<close>).
\<close>

section \<open>The invariant\<close>

text \<open>The offset of the data stage lies in the buffer of the pending command.\<close>

definition io_ok :: "fw \<Rightarrow> bool" where
  "io_ok s \<longleftrightarrow>
     (command s \<in> {PROTO_CMD_SAMPLE_VECTOR_READ, PROTO_CMD_SAMPLE_VECTOR_WRITE} \<longrightarrow>
        unat (ioBufferOffset s) \<le> PULSE_VECTOR_SIZE) \<and>
     (command s \<in> {PROTO_CMD_PULSE_VECTOR_READ, PROTO_CMD_PULSE_VECTOR_WRITE} \<longrightarrow>
        unat (ioBufferOffset s) \<le> SAMPLE_BUFFER_SIZE)"

text \<open>
  What is left of the message is readable at \<open>usbMsgPtr\<close>; a message in \<open>usbTxBuf\<close> itself lies
  behind the bytes the copy writes.
\<close>

definition msg_ok :: "fw \<Rightarrow> bool" where
  "msg_ok s \<longleftrightarrow>
     usbMsgLen (usb s) = 0 \<or> usbMsgLen (usb s) = USB_NO_MSG \<or>
     usbMsgFlags (usb s) AND USB_FLG_USE_USER_RW \<noteq> 0 \<or>
     (usbMsgFlags (usb s) AND USB_FLG_MSGPTR_IS_ROM \<noteq> 0) = in_flash (fst (usbMsgPtr (usb s))) \<and>
     (fst (usbMsgPtr (usb s)) = Obj_usbTxBuf \<longrightarrow> 9 \<le> snd (usbMsgPtr (usb s))) \<and>
     snd (usbMsgPtr (usb s)) + unat (usbMsgLen (usb s)) \<le> length (msg_bytes (fst (usbMsgPtr (usb s))) s)"

text \<open>\<open>usbTxLen\<close> is a handshake token or the length of a packet that fits \<open>usbTxBuf\<close>.\<close>

definition tx_ok :: "usbdrv \<Rightarrow> bool" where
  "tx_ok u \<longleftrightarrow> usbTxLen u AND 0x10 \<noteq> 0 \<or> unat (usbTxLen u) \<le> USB_BUFSIZE + 1"

definition usb_ok :: "fw \<Rightarrow> bool" where
  "usb_ok s \<longleftrightarrow>
     arrays_ok s \<and> io_ok s \<and> msg_ok s \<and> tx_ok (usb s) \<and> unat (usbRxLen (usb s)) \<le> USB_BUFSIZE"

text \<open>
  A data packet that waits in \<open>usbRxBuf\<close> while the data stage goes through the user functions
  belongs to a write request.
\<close>

definition write_expected :: "fw \<Rightarrow> bool" where
  "write_expected s \<longleftrightarrow>
     0 \<le> sint (usbRxLen (usb s) - 3) \<and> usbRxToken (usb s) \<noteq> USBPID_SETUP \<and>
     usbMsgFlags (usb s) AND USB_FLG_USE_USER_RW \<noteq> 0 \<longrightarrow>
     command s \<in> {PROTO_CMD_SAMPLE_VECTOR_WRITE, PROTO_CMD_PULSE_VECTOR_WRITE}"

section \<open>Requests\<close>

lemma respond_in:
  "ret + length vs \<le> length resp \<Longrightarrow>
     respond vs resp ret = Some (take ret resp @ vs @ drop (ret + length vs) resp, ret + length vs)"
proof (induction vs arbitrary: resp ret)
  case Nil
  then show ?case by simp
next
  case (Cons v vs)
  then have "take (Suc ret) (resp[ret := v]) = take ret resp @ [v]"
    by (simp add: take_Suc_conv_app_nth)
  with Cons show ?case by (simp add: wr_in drop_update_cancel)
qed

lemma reply_eq:
  "length vs \<le> length (response s) \<Longrightarrow>
     reply vs s = Some (of_nat (length vs), s\<lparr>response := vs @ drop (length vs) (response s)\<rparr>)"
  by (simp add: reply_def respond_in)

text \<open>What a vendor request changes and what it answers, apart from the reply buffer.\<close>

definition started_ctx :: "usbRequest \<Rightarrow> common_ctx \<Rightarrow> common_ctx" where
  "started_ctx rq c =
    c\<lparr> state := STATE_STARTING,
      timeout := wValue rq,
      timedOut := False,
      fallingEdge := bit (wIndex rq) 13,
      prescalerCompOnStart := bit (wIndex rq) 15,
      edgeStart := bit (wIndex rq) 14,
      tx := bit (wIndex rq) 12,
      prescalerValue := lo8 (wIndex rq),
      transferId := transferId c + 1 \<rparr>"

definition setup_effect :: "usbRequest \<Rightarrow> fw \<Rightarrow> fw" where
  "setup_effect rq s =
     (if bRequest rq = PROTO_CMD_COIL_ENABLE
        then s\<lparr>hw := (if wValue rq \<noteq> 0 then coilStart (hw s) else coilStop (hw s))\<rparr>
      else if bRequest rq = PROTO_CMD_RESET then s\<lparr>command := PROTO_CMD_RESET\<rparr>
      else if bRequest rq = PROTO_CMD_TRANSFER_START then s\<lparr>ctx := started_ctx rq (ctx s)\<rparr>
      else if buffer_command (bRequest rq) then s\<lparr>ioBufferOffset := 0, command := bRequest rq\<rparr>
      else s)"

definition transfer_status :: "fw \<Rightarrow> u8" where
  "transfer_status s =
     (if fw_state s = STATE_IDLE
      then (if timedOut (ctx s) then PROTO_TRANSFER_STATUS_TIMEOUT else PROTO_TRANSFER_STATUS_OK)
      else PROTO_TRANSFER_STATUS_IN_PROGRESS)"

definition setup_reply :: "usbRequest \<Rightarrow> fw \<Rightarrow> u8 list" where
  "setup_reply rq s =
     (if bRequest rq = PROTO_CMD_COIL_ENABLE then []
      else if bRequest rq = PROTO_CMD_GET_VERSION then [PROTO_RC_OK, 0, 1]
      else if bRequest rq = PROTO_CMD_GET_BUFFER_SIZE then [PROTO_RC_OK, 4, 1, 0, 192, 0, 7]
      else if bRequest rq = PROTO_CMD_RESET then [PROTO_RC_OK]
      else if bRequest rq = PROTO_CMD_TRANSFER_START
        then [PROTO_RC_OK, transferId (ctx s) + 1]
      else if bRequest rq = PROTO_CMD_TRANSFER_STATUS
        then (if wIndex rq = ucast (transferId (ctx s))
              then [PROTO_RC_OK, transfer_status s, hi8 (opOffset s), lo8 (opOffset s)]
              else [PROTO_RC_INVALID_VAL, PROTO_TRANSFER_STATUS_UNKNOWN, 0, 0])
      else [PROTO_RC_INVALID_CMD])"

definition setup_result :: "usbRequest \<Rightarrow> fw \<Rightarrow> u8 \<times> fw" where
  "setup_result rq s =
     (let vs = setup_reply rq s;
          s' = setup_effect rq s
      in if buffer_command (bRequest rq)
         then (USB_NO_MSG, upd_usb (usbMsgPtr_update (\<lambda>_. (Obj_response, 0))) s')
         else if vs = [] then (0, s')
         else (of_nat (length vs),
               upd_usb (usbMsgPtr_update (\<lambda>_. (Obj_response, 0)))
                 (s'\<lparr>response := vs @ drop (length vs) (response s)\<rparr>)))"

lemma flag_bit: "(w AND m \<noteq> 0) = bit w k" if "m = push_bit k 1" for w :: u16
  unfolding that
proof -
  have "w AND push_bit k 1 = (if bit w k then push_bit k 1 else 0)"
    by (rule bit_word_eqI) (auto simp: bit_simps)
  moreover have "push_bit k 1 \<noteq> (0 :: u16)" if "bit w k"
  proof
    assume "push_bit k 1 = (0 :: u16)"
    then have "\<not> bit (push_bit k (1 :: u16)) k" by (simp only: bit_0_eq) simp
    moreover have "k < 16" using that by (auto dest: bit_imp_le_length)
    ultimately show False by (simp add: bit_simps)
  qed
  ultimately show "(w AND push_bit k 1 \<noteq> 0) = bit w k" by simp
qed

lemma cmd_transfer_start_eq:
  "cmd_transfer_start rq s =
     reply [PROTO_RC_OK, transferId (ctx s) + 1] (s\<lparr>ctx := started_ctx rq (ctx s)\<rparr>)"
proof -
  have "ucast (wIndex rq AND 0xff) = lo8 (wIndex rq)"
  proof -
    have "(0xff :: u16) = mask 8" by (simp add: mask_eq_exp_minus_1)
    then have "wIndex rq AND 0xff = take_bit 8 (wIndex rq)" by (simp only: take_bit_eq_mask)
    then show ?thesis by (simp only:) (rule bit_word_eqI, auto simp: lo8_def bit_simps)
  qed
  moreover have "(wIndex rq AND 0x8000 \<noteq> 0) = bit (wIndex rq) 15"
    "(wIndex rq AND 0x4000 \<noteq> 0) = bit (wIndex rq) 14"
    "(wIndex rq AND 0x2000 \<noteq> 0) = bit (wIndex rq) 13"
    "(wIndex rq AND 0x1000 \<noteq> 0) = bit (wIndex rq) 12"
    by (simp_all add: flag_bit [where k = 15] flag_bit [where k = 14] flag_bit [where k = 13]
        flag_bit [where k = 12] push_bit_eq_mult)
  ultimately show ?thesis
    by (cases "ctx s") (simp add: cmd_transfer_start_def started_ctx_def Let_def)
qed

lemma usbFunctionSetup_eq:
  assumes "length (response s) = 7"
  shows "usbFunctionSetup data s = Some (setup_result (usbRequest_of data) s)"
proof -
  let ?rq = "usbRequest_of data"
  let ?c = "bRequest ?rq"
  note defs = usbFunctionSetup_def setup_result_def setup_reply_def setup_effect_def Let_def
  consider "buffer_command ?c" | "\<not> buffer_command ?c" "?c \<in> {1, 2, 3, 8, 9, 10}"
    | "\<not> buffer_command ?c" "?c \<notin> {1, 2, 3, 8, 9, 10}" by blast
  then show ?thesis
  proof cases
    case 1
    then show ?thesis by (auto simp: defs buffer_command_def)
  next
    case 2
    then consider "?c = 1" | "?c = 2" | "?c = 3" | "?c = 8" | "?c = 9" | "?c = 10" by blast
    then show ?thesis
    proof cases
      case 6
      with assms show ?thesis
        by (simp add: defs cmd_transfer_status_def transfer_status_def reply_eq buffer_command_def)
    qed (use assms in \<open>simp_all add: defs cmd_transfer_start_eq cmd_coil_enable_def reply_eq
        buffer_command_def\<close>)
  next
    case 3
    with assms show ?thesis by (simp add: defs reply_eq)
  qed
qed

section \<open>Setup packets\<close>

lemma arrays_ok_usb:
  "arrays_ok (s\<lparr>usb := u\<rparr>) \<longleftrightarrow>
     length (response s) = 7 \<and> length (sampleVector s) = 7 \<and> length (ioBuffer s) = 192 \<and>
     length (usbRxBuf u) = 22 \<and> length (usbTxBuf u) = 11"
  by (simp add: arrays_ok_def)

lemma msg_bytes_cong:
  "length (response s) = length (response s') \<Longrightarrow>
   length (usbTxBuf (usb s)) = length (usbTxBuf (usb s')) \<Longrightarrow>
     length (msg_bytes obj s) = length (msg_bytes obj s')"
  by (simp add: msg_bytes_def split: msg_object.split)

text \<open>
  What the driver needs of the function that answers a setup packet: the reply it promises is
  readable, and nothing else that the invariant speaks of is lost.
\<close>

definition setup_ok :: "fw \<Rightarrow> u8 \<times> fw \<Rightarrow> bool" where
  "setup_ok s r \<longleftrightarrow>
     (let (ret, s') = r
      in arrays_ok s' \<and> io_ok s' \<and> usbRxLen (usb s') = usbRxLen (usb s) \<and>
         usbTxLen (usb s') = usbTxLen (usb s) \<and>
         (ret = 0 \<or> ret = USB_NO_MSG \<or>
          (usbMsgFlags (usb s') AND USB_FLG_MSGPTR_IS_ROM \<noteq> 0) = in_flash (fst (usbMsgPtr (usb s'))) \<and>
          (fst (usbMsgPtr (usb s')) = Obj_usbTxBuf \<longrightarrow> 9 \<le> snd (usbMsgPtr (usb s'))) \<and>
          snd (usbMsgPtr (usb s')) + unat ret \<le> length (msg_bytes (fst (usbMsgPtr (usb s'))) s')))"

lemma setup_effect_same [simp]:
  "usb (setup_effect rq s) = usb s"
  "response (setup_effect rq s) = response s"
  "sampleVector (setup_effect rq s) = sampleVector s"
  "ioBuffer (setup_effect rq s) = ioBuffer s"
  "opLength (setup_effect rq s) = opLength s"
  "opOffset (setup_effect rq s) = opOffset s"
  "adcLastSignal (setup_effect rq s) = adcLastSignal s"
  "adcLowVal (setup_effect rq s) = adcLowVal s"
  "adcHiVal (setup_effect rq s) = adcHiVal s"
  by (simp_all add: setup_effect_def)

lemma io_ok_setup_effect: "io_ok s \<Longrightarrow> io_ok (setup_effect rq s)"
  by (simp add: setup_effect_def io_ok_def buffer_command_def)

lemma length_setup_reply: "length (setup_reply rq s) \<le> 7"
  by (simp add: setup_reply_def)

lemma setup_result_ok:
  assumes "arrays_ok s" "io_ok s" "usbMsgFlags (usb s) = 0"
  shows "setup_ok s (setup_result rq s)"
proof -
  let ?vs = "setup_reply rq s"
  have n: "unat (of_nat (length ?vs) :: u8) = length ?vs"
    using length_setup_reply [of rq s] by (simp add: unat_of_nat)
  have io: "io_ok (setup_effect rq s)"
    using assms(2) by (rule io_ok_setup_effect)
  note simps = setup_ok_def setup_result_def arrays_ok_def io_ok_def msg_bytes_def Let_def
  consider "buffer_command (bRequest rq)" | "\<not> buffer_command (bRequest rq)" "?vs = []"
    | "\<not> buffer_command (bRequest rq)" "?vs \<noteq> []" by blast
  then show ?thesis
  proof cases
    case 3
    then show ?thesis
      using assms io n length_setup_reply [of rq s] by (simp add: simps)
  qed (use assms io in \<open>simp_all add: simps\<close>)
qed

text \<open>The standard requests: every descriptor has the length the driver reports for it.\<close>

lemma descriptor_lengths:
  "length usbDescriptorDevice = 18"
  "length usbDescriptorConfiguration = 18"
  "length usbDescriptorString0 = 4"
  "length usbDescriptorStringDevice = 20"
  by (simp_all add: usbDescriptorDevice_def usbDescriptorConfiguration_def usbDescriptorString0_def
      usbDescriptorStringDevice_def USB_CFG_VENDOR_ID_def USB_CFG_DEVICE_ID_def
      USB_CFG_DEVICE_VERSION_def int_bytes_def USB_CFG_DEVICE_NAME_def)

lemmas descriptor_props =
  USB_CFG_DESCR_PROPS_DEVICE_def USB_CFG_DESCR_PROPS_CONFIGURATION_def
  USB_CFG_DESCR_PROPS_STRING_0_def USB_CFG_DESCR_PROPS_STRING_VENDOR_def
  USB_CFG_DESCR_PROPS_STRING_PRODUCT_def USB_CFG_DESCR_PROPS_STRING_SERIAL_NUMBER_def
  descriptor_lengths

definition descriptor_of :: "u8 \<Rightarrow> u8 \<Rightarrow> msg_object option" where
  "descriptor_of kind index =
     (if kind = USBDESCR_DEVICE then Some Obj_usbDescriptorDevice
      else if kind = USBDESCR_CONFIG then Some Obj_usbDescriptorConfiguration
      else if kind = USBDESCR_STRING \<and> index = 0 then Some Obj_usbDescriptorString0
      else if kind = USBDESCR_STRING \<and> index = 2 then Some Obj_usbDescriptorStringDevice
      else None)"

lemma usbDriverDescriptor_eq:
  "usbDriverDescriptor rq s =
     (case descriptor_of (hi8 (wValue rq)) (lo8 (wValue rq)) of
        None \<Rightarrow> (0, upd_usb (usbMsgFlags_update (\<lambda>_. USB_FLG_MSGPTR_IS_ROM)) s)
      | Some d \<Rightarrow>
          (of_nat (length (msg_bytes d s)),
           upd_usb (\<lambda>u. u\<lparr>usbMsgPtr := (d, 0), usbMsgFlags := USB_FLG_MSGPTR_IS_ROM\<rparr>) s))"
proof -
  let ?k = "hi8 (wValue rq)" and ?i = "lo8 (wValue rq)"
  note defs = usbDriverDescriptor_def GET_DESCRIPTOR_def descriptor_of_def descriptor_props
    msg_bytes_def Let_def
  consider "?k = 1" | "?k = 2" | "?k = 3" "?i \<in> {0, 1, 2, 3}" | "?k = 3" "?i \<notin> {0, 1, 2, 3}"
    | "?k \<notin> {1, 2, 3}" by blast
  then show ?thesis
  proof cases
    case 3
    then consider "?i = 0" | "?i = 1" | "?i = 2" | "?i = 3" by blast
    then show ?thesis using 3(1) by cases (simp_all add: defs)
  qed (simp_all add: defs)
qed

lemma in_flash_descriptor: "descriptor_of k i = Some d \<Longrightarrow> in_flash d"
  by (auto simp: descriptor_of_def split: if_splits)

lemma length_descriptor: "in_flash d \<Longrightarrow> length (msg_bytes d s) \<le> 20"
  by (cases d) (simp_all add: msg_bytes_def descriptor_lengths)

lemma usbDriverSetup_ok:
  assumes "arrays_ok s" "io_ok s" "usbMsgFlags (usb s) = 0"
  shows "\<exists>r. usbDriverSetup rq s = Some r \<and> setup_ok s r"
proof -
  let ?r = "bRequest rq"
  note simps = usbDriverSetup_def setup_ok_def arrays_ok_def io_ok_def wr_in Let_def
  consider "?r = 6" | "?r = 0" | "?r = 5" | "?r = 8" | "?r = 9" | "?r = 10"
    | "?r \<notin> {0, 5, 6, 8, 9, 10}" by blast
  then show ?thesis
  proof cases
    case 1
    let ?s = "upd_usb (usbTxBuf_update (\<lambda>_. (usbTxBuf (usb s))[9 := 0])) s"
    have "usbDriverSetup rq s = Some (usbDriverDescriptor rq ?s)"
      using assms 1 by (simp add: simps)
    moreover have "setup_ok s (usbDriverDescriptor rq ?s)"
    proof (cases "descriptor_of (hi8 (wValue rq)) (lo8 (wValue rq))")
      case None
      then show ?thesis using assms by (simp add: simps usbDriverDescriptor_eq)
    next
      case (Some d)
      then have "in_flash d" by (rule in_flash_descriptor)
      then have "unat (of_nat (length (msg_bytes d ?s)) :: u8) = length (msg_bytes d ?s)"
        using length_descriptor [of d ?s] by (simp add: unat_of_nat)
      then show ?thesis
        using assms Some \<open>in_flash d\<close>
        by (cases d) (simp_all add: simps usbDriverDescriptor_eq msg_bytes_def)
    qed
    ultimately show ?thesis by blast
  qed (use assms in \<open>simp_all add: simps msg_bytes_def\<close>)
qed

section \<open>Received packets\<close>

lemma limit_reply_le: "unat (limit_reply rq n) \<le> unat n"
  by (auto simp: limit_reply_def word_less_nat_alt)

text \<open>\<open>usbProcessRx\<close> on a setup packet, from the answer of either setup function.\<close>

definition setup_stage :: "usbRequest \<Rightarrow> u8 \<times> fw \<Rightarrow> fw" where
  "setup_stage rq r =
     (let (replyLen, s) = r
      in if replyLen = USB_NO_MSG
         then upd_usb (\<lambda>u. u\<lparr>
                usbMsgLen := (if bmRequestType rq AND USBRQ_DIR_MASK \<noteq> USBRQ_DIR_HOST_TO_DEVICE
                              then lo8 (wLength rq) else replyLen),
                usbMsgFlags := USB_FLG_USE_USER_RW\<rparr>) s
         else upd_usb (usbMsgLen_update (\<lambda>_. limit_reply rq replyLen)) s)"

lemma usb_ok_upd:
  assumes "usb_ok s" "usbTxBuf (f (usb s)) = usbTxBuf (usb s)" "usbRxBuf (f (usb s)) = usbRxBuf (usb s)"
    "usbTxLen (f (usb s)) = usbTxLen (usb s)" "usbRxLen (f (usb s)) = usbRxLen (usb s)"
    "msg_ok (upd_usb f s)"
  shows "usb_ok (upd_usb f s)"
  using assms by (simp add: usb_ok_def arrays_ok_def io_ok_def tx_ok_def)

lemma setup_stage_ok:
  assumes "setup_ok s r" "tx_ok (usb s)" "unat (usbRxLen (usb s)) \<le> USB_BUFSIZE"
  shows "usb_ok (setup_stage rq r)" and "usbRxLen (usb (setup_stage rq r)) = usbRxLen (usb s)"
proof -
  obtain n s' where r: "r = (n, s')" by (cases r)
  let ?s = "setup_stage rq r"
  have msg: "msg_bytes d (upd_usb (usbMsgLen_update f) s') = msg_bytes d s'" for d f
    by (simp add: msg_bytes_def split: msg_object.split)
  have s': "arrays_ok s'" "io_ok s'" "usbRxLen (usb s') = usbRxLen (usb s)"
      "usbTxLen (usb s') = usbTxLen (usb s)"
    using assms(1) by (simp_all add: r setup_ok_def)
  have "msg_ok ?s"
  proof -
    consider "n = USB_NO_MSG" | "n = 0" | "n \<noteq> USB_NO_MSG" "n \<noteq> 0" by blast
    then show ?thesis
    proof cases
      case 1
      then show ?thesis by (simp add: r setup_stage_def msg_ok_def)
    next
      case 2
      then have "limit_reply rq n = 0" using limit_reply_le [of rq n] by (simp add: unat_eq_0)
      with 2 show ?thesis by (simp add: r setup_stage_def msg_ok_def)
    next
      case 3
      then show ?thesis
        using assms(1) limit_reply_le [of rq n]
        by (simp add: r setup_stage_def msg_ok_def setup_ok_def msg)
    qed
  qed
  moreover have "usbTxBuf (usb ?s) = usbTxBuf (usb s')" "usbRxBuf (usb ?s) = usbRxBuf (usb s')"
    "response ?s = response s'" "sampleVector ?s = sampleVector s'" "ioBuffer ?s = ioBuffer s'"
    "command ?s = command s'" "ioBufferOffset ?s = ioBufferOffset s'"
    "usbTxLen (usb ?s) = usbTxLen (usb s')" and rx: "usbRxLen (usb ?s) = usbRxLen (usb s')"
    by (simp_all add: r setup_stage_def)
  ultimately show "usb_ok ?s" using s' assms(2,3)
    by (simp add: usb_ok_def arrays_ok_def io_ok_def tx_ok_def)
  show "usbRxLen (usb ?s) = usbRxLen (usb s)" using rx s' by simp
qed

text \<open>The state in which \<open>usbProcessRx\<close> calls the setup functions.\<close>

definition setup_entry :: "fw \<Rightarrow> fw" where
  "setup_entry s =
     upd_usb (\<lambda>u. u\<lparr>usbTxBuf := (usbTxBuf u)[0 := USBPID_DATA0], usbTxLen := USBPID_NAK,
                   usbMsgFlags := 0\<rparr>) s"

lemma process_setup_eq:
  assumes "arrays_ok s"
  shows "process_setup data s =
     (let rq = usbRequest_of data;
          s0 = setup_entry s
      in map_option (setup_stage rq)
           (if bmRequestType rq AND USBRQ_TYPE_MASK \<noteq> USBRQ_TYPE_STANDARD
            then Some (setup_result rq s0) else usbDriverSetup rq s0))"
proof -
  have "length (response (setup_entry s)) = 7" "0 < length (usbTxBuf (usb s))"
    using assms by (simp_all add: setup_entry_def arrays_ok_def)
  then show ?thesis
    by (auto simp: process_setup_def setup_stage_def wr_in usbFunctionSetup_eq Let_def
        setup_entry_def split_beta map_option_case split: option.split)
qed

lemma process_setup_ok:
  assumes "usb_ok s"
  shows "\<exists>s'. process_setup data s = Some s' \<and> usb_ok s' \<and> usbRxLen (usb s') = usbRxLen (usb s)"
proof -
  let ?s = "setup_entry s"
  let ?rq = "usbRequest_of data"
  have s: "arrays_ok ?s" "io_ok ?s" "usbMsgFlags (usb ?s) = 0" "tx_ok (usb ?s)"
    "unat (usbRxLen (usb ?s)) \<le> USB_BUFSIZE" "usbRxLen (usb ?s) = usbRxLen (usb s)"
    using assms by (simp_all add: setup_entry_def usb_ok_def arrays_ok_def io_ok_def tx_ok_def)
  obtain d where d: "usbDriverSetup ?rq ?s = Some d" "setup_ok ?s d"
    using usbDriverSetup_ok [OF s(1-3)] by blast
  have "arrays_ok s" using assms by (simp add: usb_ok_def)
  then obtain r where "process_setup data s = Some (setup_stage ?rq r)" "setup_ok ?s r"
    using process_setup_eq [of s data] d setup_result_ok [OF s(1-3), of ?rq]
    by (cases "bmRequestType ?rq AND USBRQ_TYPE_MASK \<noteq> USBRQ_TYPE_STANDARD") (simp_all add: Let_def)
  with setup_stage_ok [OF _ s(4,5), of r ?rq] s(6) show ?thesis by simp
qed

section \<open>The data stage\<close>

lemma read_loop_in:
  assumes "unat off \<le> srcSize" "srcSize \<le> length src" "srcSize \<le> 255"
  shows "read_loop src (of_nat srcSize) n off =
           (let k = min n (srcSize - unat off)
            in Some (take k (drop (unat off) src), off + of_nat k))"
  using assms
proof (induction n arbitrary: off)
  case 0
  then show ?case by simp
next
  case (Suc n)
  have eq: "(ucast off :: u16) = of_nat srcSize \<longleftrightarrow> unat off = srcSize"
    using Suc.prems unat_u8_less [of off]
    by (simp add: word_unat_eq_iff unat_of_nat unsigned_ucast_eq take_bit_nat_eq_self)
  show ?case
  proof (cases "unat off = srcSize")
    case True
    with eq show ?thesis by simp
  next
    case False
    then have less: "unat off < srcSize" using Suc.prems by simp
    then have inc: "unat (off + 1) = Suc (unat off)"
      using Suc.prems by (intro unat_inc_less [of _ 255]) simp_all
    have min: "min (Suc n) (srcSize - unat off) = Suc (min n (srcSize - Suc (unat off)))"
      using less by simp
    have "drop (unat off) src = src ! unat off # drop (Suc (unat off)) src"
      using less Suc.prems by (simp add: Cons_nth_drop_Suc)
    then show ?thesis
      using Suc.IH [of "off + 1"] Suc.prems less False eq inc
      unfolding min by (simp add: rd_in Let_def ac_simps)
  qed
qed

lemma write_loop_in:
  assumes "unat off \<le> dstSize" "length dst = dstSize" "dstSize \<le> 255"
  shows "write_loop (Some dst) (of_nat dstSize) data off ret =
           (let k = min (length data) (dstSize - unat off); i = unat off
            in Some (Some (take i dst @ take k data @ drop (i + k) dst), off + of_nat k, ret + k))"
  using assms
proof (induction data arbitrary: dst off ret)
  case Nil
  then show ?case by simp
next
  case (Cons d data)
  have eq: "(ucast off :: u16) = of_nat dstSize \<longleftrightarrow> unat off = dstSize"
    using Cons.prems unat_u8_less [of off]
    by (simp add: word_unat_eq_iff unat_of_nat unsigned_ucast_eq take_bit_nat_eq_self)
  show ?case
  proof (cases "unat off = dstSize")
    case True
    with eq show ?thesis by simp
  next
    case False
    then have less: "unat off < dstSize" using Cons.prems by simp
    then have inc: "unat (off + 1) = Suc (unat off)"
      using Cons.prems by (intro unat_inc_less [of _ 255]) simp_all
    have min: "min (length (d # data)) (dstSize - unat off) =
        Suc (min (length data) (dstSize - Suc (unat off)))"
      using less by simp
    have "take (Suc (unat off)) (dst[unat off := d]) = take (unat off) dst @ [d]"
      using less Cons.prems by (simp add: take_Suc_conv_app_nth)
    then show ?thesis
      using Cons.IH [of "off + 1" "dst[unat off := d]" "Suc ret"] Cons.prems less False eq inc
      unfolding min by (simp add: wr_in Let_def ac_simps)
  qed
qed

text \<open>The buffer a command refers to, and the whole data stage on it.\<close>

definition read_command :: "fw \<Rightarrow> bool" where
  "read_command s \<longleftrightarrow> command s \<in> {PROTO_CMD_SAMPLE_VECTOR_READ, PROTO_CMD_PULSE_VECTOR_READ}"

definition write_command :: "fw \<Rightarrow> bool" where
  "write_command s \<longleftrightarrow> command s \<in> {PROTO_CMD_SAMPLE_VECTOR_WRITE, PROTO_CMD_PULSE_VECTOR_WRITE}"

definition vector_command :: "fw \<Rightarrow> bool" where
  "vector_command s \<longleftrightarrow> command s \<in> {PROTO_CMD_SAMPLE_VECTOR_READ, PROTO_CMD_SAMPLE_VECTOR_WRITE}"

definition io_buffer :: "fw \<Rightarrow> u8 list" where
  "io_buffer s = (if vector_command s then sampleVector s else ioBuffer s)"

definition set_io_buffer :: "u8 list \<Rightarrow> fw \<Rightarrow> fw" where
  "set_io_buffer buf s = (if vector_command s then s\<lparr>sampleVector := buf\<rparr> else s\<lparr>ioBuffer := buf\<rparr>)"

lemma io_offset_le:
  assumes "arrays_ok s" "io_ok s" "read_command s \<or> write_command s"
  shows "unat (ioBufferOffset s) \<le> length (io_buffer s)" and "length (io_buffer s) \<le> 192"
  using assms
  by (auto simp: io_ok_def io_buffer_def read_command_def write_command_def vector_command_def
      arrays_ok_def)

lemma usbFunctionRead_eq:
  assumes "arrays_ok s" "io_ok s"
  shows "usbFunctionRead len s = Some
     (if read_command s
      then (let i = unat (ioBufferOffset s); k = min (unat len) (length (io_buffer s) - i)
            in (take k (drop i (io_buffer s)), s\<lparr>ioBufferOffset := ioBufferOffset s + of_nat k\<rparr>))
      else ([], s))"
proof (cases "read_command s")
  case True
  then consider "command s = 6" | "command s = 4" by (auto simp: read_command_def)
  then show ?thesis
    using assms True read_loop_in [of "ioBufferOffset s" 7 "sampleVector s" "unat len"]
      read_loop_in [of "ioBufferOffset s" 192 "ioBuffer s" "unat len"]
    by cases (simp_all add: usbFunctionRead_def io_buffer_def vector_command_def arrays_ok_def
        io_ok_def Let_def)
next
  case False
  then show ?thesis by (simp add: usbFunctionRead_def read_command_def)
qed

lemma usbFunctionWrite_eq:
  assumes "arrays_ok s" "io_ok s" "write_command s"
  shows "usbFunctionWrite data s = Some
     (let i = unat (ioBufferOffset s); buf = io_buffer s; k = min (length data) (length buf - i)
      in (of_nat k, set_io_buffer (take i buf @ take k data @ drop (i + k) buf)
                      (s\<lparr>ioBufferOffset := ioBufferOffset s + of_nat k\<rparr>)))"
proof -
  consider "command s = 7" | "command s = 5" using assms(3) by (auto simp: write_command_def)
  then show ?thesis
    using assms write_loop_in [of "ioBufferOffset s" 7 "sampleVector s" data 0]
      write_loop_in [of "ioBufferOffset s" 192 "ioBuffer s" data 0]
    by cases (simp_all add: usbFunctionWrite_def io_buffer_def set_io_buffer_def vector_command_def
        arrays_ok_def io_ok_def Let_def)
qed

lemma copy_loop_in:
  assumes "rom = in_flash (fst (usbMsgPtr (usb s)))"
    and "snd (usbMsgPtr (usb s)) + n \<le> length (msg_bytes (fst (usbMsgPtr (usb s))) s)"
    and "dst + n \<le> length (usbTxBuf (usb s))"
    and "fst (usbMsgPtr (usb s)) = Obj_usbTxBuf \<Longrightarrow> dst + n \<le> snd (usbMsgPtr (usb s))"
  shows "copy_loop rom n dst s = Some
     (let (d, i) = usbMsgPtr (usb s); buf = usbTxBuf (usb s)
      in upd_usb (\<lambda>u. u\<lparr>usbTxBuf := take dst buf @ take n (drop i (msg_bytes d s)) @ drop (dst + n) buf,
                        usbMsgPtr := (d, i + n)\<rparr>) s)"
  using assms
proof (induction n arbitrary: dst s)
  case 0
  then show ?case by (simp add: split_beta Let_def)
next
  case (Suc n)
  obtain d i where p: "usbMsgPtr (usb s) = (d, i)" by (cases "usbMsgPtr (usb s)")
  let ?c = "msg_bytes d s ! i"
  let ?buf = "(usbTxBuf (usb s))[dst := ?c]"
  let ?s = "upd_usb (\<lambda>u. u\<lparr>usbTxBuf := ?buf, usbMsgPtr := (d, Suc i)\<rparr>) s"
  have len: "length (msg_bytes d ?s) = length (msg_bytes d s)"
    by (simp add: msg_bytes_def split: msg_object.split)
  have src: "drop (Suc i) (msg_bytes d ?s) = drop (Suc i) (msg_bytes d s)"
    using Suc.prems(4) by (cases d) (simp_all add: msg_bytes_def p drop_update_cancel)
  have "drop i (msg_bytes d s) = ?c # drop (Suc i) (msg_bytes d s)"
    using Suc.prems(2) by (simp add: p Cons_nth_drop_Suc)
  moreover have "take (Suc dst) ?buf = take dst (usbTxBuf (usb s)) @ [?c]"
    using Suc.prems(3) by (simp add: take_Suc_conv_app_nth)
  moreover have "copy_loop rom n (Suc dst) ?s = Some (let (d, i) = usbMsgPtr (usb ?s); buf = usbTxBuf (usb ?s)
      in upd_usb (\<lambda>u. u\<lparr>usbTxBuf := take (Suc dst) buf @ take n (drop i (msg_bytes d ?s)) @ drop (Suc dst + n) buf,
                        usbMsgPtr := (d, i + n)\<rparr>) ?s)"
    using Suc.prems len by (intro Suc.IH) (simp_all add: p)
  ultimately show ?case
    using Suc.prems src by (simp add: p msg_read_def rd_in wr_in Let_def)
qed

section \<open>Transmitted packets\<close>

text \<open>
  The payload of a packet of at most \<open>n\<close> bytes and the state once it is taken from its source.
\<close>

definition readable :: "nat \<Rightarrow> fw \<Rightarrow> bool" where
  "readable n s \<longleftrightarrow>
     (let (d, i) = usbMsgPtr (usb s)
      in n = 0 \<or> usbMsgFlags (usb s) AND USB_FLG_USE_USER_RW \<noteq> 0 \<or>
         (usbMsgFlags (usb s) AND USB_FLG_MSGPTR_IS_ROM \<noteq> 0) = in_flash d \<and>
         (d = Obj_usbTxBuf \<longrightarrow> 9 \<le> i) \<and> i + n \<le> length (msg_bytes d s))"

definition block_payload :: "nat \<Rightarrow> fw \<Rightarrow> u8 list" where
  "block_payload n s =
     (let (d, i) = usbMsgPtr (usb s)
      in if n = 0 then []
         else if usbMsgFlags (usb s) AND USB_FLG_USE_USER_RW \<noteq> 0
         then (if read_command s then take n (drop (unat (ioBufferOffset s)) (io_buffer s)) else [])
         else take n (drop i (msg_bytes d s)))"

definition block_taken :: "nat \<Rightarrow> fw \<Rightarrow> fw" where
  "block_taken n s =
     (let k = length (block_payload n s);
          (d, i) = usbMsgPtr (usb s)
      in if usbMsgFlags (usb s) AND USB_FLG_USE_USER_RW \<noteq> 0
         then (if read_command s then s\<lparr>ioBufferOffset := ioBufferOffset s + of_nat k\<rparr> else s)
         else upd_usb (usbMsgPtr_update (\<lambda>_. (d, i + k))) s)"

definition tx_packet :: "u8 \<Rightarrow> u8 list \<Rightarrow> u8 list" where
  "tx_packet pid p = pid # p @ [lo8 (crc16_usb p), hi8 (crc16_usb p)]"

lemma length_block_payload: "length (block_payload n s) \<le> n"
  by (simp add: block_payload_def split_beta Let_def min_le_iff_disj)

lemma usbDeviceRead_eq:
  assumes "arrays_ok s" "io_ok s" "readable (unat len) s" "unat len \<le> 8"
  shows "\<exists>tail. usbDeviceRead len s = Some (of_nat (length (block_payload (unat len) s)),
           upd_usb (usbTxBuf_update (\<lambda>buf. take 1 buf @ block_payload (unat len) s @ tail))
             (block_taken (unat len) s)) \<and>
         length tail = 10 - length (block_payload (unat len) s)"
proof -
  let ?n = "unat len"
  let ?p = "block_payload ?n s"
  let ?rw = "usbMsgFlags (usb s) AND USB_FLG_USE_USER_RW \<noteq> 0"
  obtain d i where p: "usbMsgPtr (usb s) = (d, i)" by (cases "usbMsgPtr (usb s)")
  have buf: "length (usbTxBuf (usb s)) = 11" using assms(1) by (simp add: arrays_ok_def)
  consider "len = 0" | "len \<noteq> 0" "?rw" | "len \<noteq> 0" "\<not> ?rw" by blast
  then show ?thesis
  proof cases
    case 1
    then have "?p = []" by (simp add: block_payload_def p)
    moreover have "block_taken ?n s = s"
      using p \<open>?p = []\<close> by (auto simp: block_taken_def Let_def)
    ultimately show ?thesis
      using 1 buf by (intro exI [of _ "drop 1 (usbTxBuf (usb s))"]) (simp add: usbDeviceRead_def)
  next
    case 2
    let ?tail = "drop (1 + length ?p) (usbTxBuf (usb s))"
    have "0 < ?n" using 2 by (simp add: unat_gt_0)
    then have r: "usbFunctionRead len s = Some (?p, block_taken ?n s)"
      using 2 assms usbFunctionRead_eq [OF assms(1,2), of len]
      by (auto simp: block_payload_def block_taken_def Let_def p min_def)
    have "wr_list (usbTxBuf (usb s)) 1 ?p = Some (take 1 (usbTxBuf (usb s)) @ ?p @ ?tail)"
      using buf length_block_payload [of ?n s] assms(4) by (subst wr_list_in) simp_all
    moreover have "usb (block_taken ?n s) = usb s" using 2 by (simp add: block_taken_def Let_def p)
    ultimately show ?thesis
      using 2 r buf by (intro exI [of _ ?tail]) (simp add: usbDeviceRead_def word_gt_0)
  next
    case 3
    let ?tail = "drop (1 + ?n) (usbTxBuf (usb s))"
    have "0 < ?n" using 3 by (simp add: unat_gt_0)
    with assms(3) 3 have m: "(usbMsgFlags (usb s) AND USB_FLG_MSGPTR_IS_ROM \<noteq> 0) = in_flash d"
      "d = Obj_usbTxBuf \<longrightarrow> 9 \<le> i" "i + ?n \<le> length (msg_bytes d s)"
      by (auto simp: readable_def p)
    then have n: "length (take ?n (drop i (msg_bytes d s))) = ?n" by simp
    have pay: "?p = take ?n (drop i (msg_bytes d s))"
      using 3 \<open>0 < ?n\<close> by (simp add: block_payload_def p)
    have "copy_loop (in_flash d) ?n 1 s = Some (upd_usb (\<lambda>u. u\<lparr>usbTxBuf :=
        take 1 (usbTxBuf (usb s)) @ take ?n (drop i (msg_bytes d s)) @ drop (1 + ?n) (usbTxBuf (usb s)),
        usbMsgPtr := (d, i + ?n)\<rparr>) s)"
      by (subst copy_loop_in) (use m assms(4) buf in \<open>auto simp: p Let_def\<close>)
    then show ?thesis
      using 3 m buf n pay
      by (intro exI [of _ ?tail]) (simp add: usbDeviceRead_def word_gt_0 block_taken_def Let_def p)
  qed
qed

text \<open>The next packet of the pending message.\<close>

abbreviation block_length :: "fw \<Rightarrow> nat" where
  "block_length s \<equiv> min 8 (unat (usbMsgLen (usb s)))"

abbreviation tx_payload :: "fw \<Rightarrow> u8 list" where
  "tx_payload s \<equiv> block_payload (block_length s) s"

lemma msg_ok_readable:
  "msg_ok s \<Longrightarrow> usbMsgLen (usb s) \<noteq> USB_NO_MSG \<Longrightarrow> readable (block_length s) s"
  by (auto simp: msg_ok_def readable_def split_beta Let_def)

text \<open>
  \<open>usbBuildTxBlock\<close> puts the whole packet into \<open>usbTxBuf\<close>: the toggled data PID, the payload and
  its checksum; \<open>usbTxLen\<close> counts the sync byte too. A short payload is the last one.
\<close>

definition built_block :: "u8 list \<Rightarrow> fw \<Rightarrow> fw" where
  "built_block tail s =
     (let n = length (tx_payload s)
      in upd_usb (\<lambda>u. u\<lparr>
           usbTxBuf := tx_packet (usbTxBuf (usb s) ! 0 XOR 0x88) (tx_payload s) @ tail,
           usbTxLen := of_nat (n + 4),
           usbMsgLen := (if n < 8 then USB_NO_MSG else usbMsgLen (usb s) - 8)\<rparr>)
         (block_taken (block_length s) s))"

text \<open>The updates \<open>usbBuildTxBlock\<close> makes first leave the message and its source alone.\<close>

definition claim_block :: "u8 \<Rightarrow> usbdrv \<Rightarrow> usbdrv" where
  "claim_block w u =
     u\<lparr>usbMsgLen := usbMsgLen u - w, usbTxBuf := (usbTxBuf u)[0 := usbTxBuf u ! 0 XOR 0x88]\<rparr>"

lemma claim_block_simps [simp]:
  "usbMsgLen (claim_block w u) = usbMsgLen u - w"
  "usbTxBuf (claim_block w u) = (usbTxBuf u)[0 := usbTxBuf u ! 0 XOR 0x88]"
  "usbRxBuf (claim_block w u) = usbRxBuf u"
  "usbMsgPtr (claim_block w u) = usbMsgPtr u"
  "usbMsgFlags (claim_block w u) = usbMsgFlags u"
  by (simp_all add: claim_block_def)

lemma claim_block_bytes:
  "d \<noteq> Obj_usbTxBuf \<or> 0 < i \<Longrightarrow> drop i (msg_bytes d (upd_usb (claim_block w) s)) = drop i (msg_bytes d s)"
  by (cases d) (simp_all add: msg_bytes_def claim_block_def)

lemma length_claim_block [simp]:
  "length (msg_bytes d (upd_usb (claim_block w) s)) = length (msg_bytes d s)"
  by (cases d) (simp_all add: msg_bytes_def claim_block_def)

lemma claim_block_readable: "readable n (upd_usb (claim_block w) s) \<longleftrightarrow> readable n s"
  unfolding readable_def by (simp add: claim_block_def [of w "usb s"])
    (simp flip: claim_block_def add: split_beta)

lemma claim_block_payload:
  assumes "readable n s"
  shows "block_payload n (upd_usb (claim_block w) s) = block_payload n s"
proof -
  obtain d i where p: "usbMsgPtr (usb s) = (d, i)" by (cases "usbMsgPtr (usb s)")
  have "usbMsgPtr (usb (upd_usb (claim_block w) s)) = (d, i)"
    "usbMsgFlags (usb (upd_usb (claim_block w) s)) = usbMsgFlags (usb s)"
    by (simp_all add: claim_block_def p)
  moreover have "read_command (upd_usb (claim_block w) s) = read_command s"
    "io_buffer (upd_usb (claim_block w) s) = io_buffer s"
    by (simp_all add: read_command_def io_buffer_def vector_command_def)
  moreover have "d \<noteq> Obj_usbTxBuf \<or> 0 < i" if "n \<noteq> 0" "usbMsgFlags (usb s) AND USB_FLG_USE_USER_RW = 0"
    using assms that by (auto simp: readable_def p)
  ultimately show ?thesis
    using claim_block_bytes [of d i w s] by (auto simp: block_payload_def p)
qed

lemma claim_block_taken:
  assumes "readable n s"
  shows "block_taken n (upd_usb (claim_block w) s) = upd_usb (claim_block w) (block_taken n s)"
proof -
  note pay = claim_block_payload [OF assms, of w]
  show ?thesis
    unfolding block_taken_def pay
    by (simp add: split_beta Let_def read_command_def claim_block_def)
qed

text \<open>The checksum written behind the payload.\<close>

lemma append_checksum:
  assumes "length p \<le> 8" "length tail = 10 - length p"
  shows "usbCrc16Append (p @ tail) (of_nat (length p)) =
    Some (p @ [lo8 (crc16_usb p), hi8 (crc16_usb p)] @ drop 2 tail)"
proof -
  have "unat (of_nat (length p) :: u8) = length p" using assms(1) by (simp add: unat_of_nat)
  moreover obtain t0 t1 ts where "tail = t0 # t1 # ts"
    using assms by (cases tail; cases "tl tail") auto
  ultimately show ?thesis
    using assms by (subst usbCrc16Append_writes) (simp_all add: Let_def list_update_append)
qed

text \<open>The function with its reads and writes of \<open>usbTxBuf\<close> in bounds.\<close>

lemma usbBuildTxBlock_reads:
  fixes s
  defines "w \<equiv> if 8 < usbMsgLen (usb s) then 8 else usbMsgLen (usb s)"
  assumes buf: "length (usbTxBuf (usb s)) = 11"
  shows "usbBuildTxBlock s = do {
      (len, s') \<leftarrow> usbDeviceRead w (upd_usb (claim_block w) s);
      (len, s') \<leftarrow> (if len \<le> 8
        then do {
          tail \<leftarrow> usbCrc16Append (drop 1 (usbTxBuf (usb s'))) len;
          let s' = upd_usb (\<lambda>u. u\<lparr>usbTxBuf := take 1 (usbTxBuf u) @ tail\<rparr>) s';
          Some (len + 4, if len + 4 < 12 then upd_usb (usbMsgLen_update (\<lambda>_. USB_NO_MSG)) s' else s')
        }
        else Some (USBPID_STALL, upd_usb (usbMsgLen_update (\<lambda>_. USB_NO_MSG)) s'));
      Some (upd_usb (usbTxLen_update (\<lambda>_. len)) s')
    }"
  unfolding usbBuildTxBlock_def claim_block_def w_def
  using buf by (simp only: Let_def) (simp add: rd_in wr_in)

lemma usbBuildTxBlock_eq:
  assumes "arrays_ok s" "io_ok s" "msg_ok s" "usbMsgLen (usb s) \<noteq> USB_NO_MSG"
  shows "\<exists>tail. usbBuildTxBlock s = Some (built_block tail s) \<and>
           length tail + length (tx_payload s) = 8"
proof -
  let ?w = "if 8 < usbMsgLen (usb s) then 8 else usbMsgLen (usb s)"
  let ?p = "tx_payload s"
  let ?s0 = "upd_usb (claim_block ?w) s"
  have w: "unat ?w = block_length s" by (auto simp: word_less_nat_alt min_def)
  have buf: "length (usbTxBuf (usb s)) = 11" using assms(1) by (simp add: arrays_ok_def)
  have rd: "readable (block_length s) s" using assms(3,4) by (rule msg_ok_readable)
  have n: "length ?p \<le> 8" using length_block_payload [of "block_length s" s] by simp
  have "arrays_ok ?s0" "io_ok ?s0" "readable (unat ?w) ?s0" "unat ?w \<le> 8"
    using assms rd w by (simp_all add: arrays_ok_def io_ok_def claim_block_readable)
  from usbDeviceRead_eq [OF this] obtain tail where
    r: "usbDeviceRead ?w ?s0 = Some (of_nat (length ?p),
      upd_usb (usbTxBuf_update (\<lambda>buf. take 1 buf @ ?p @ tail)) (block_taken (block_length s) ?s0))"
    and tail: "length tail = 10 - length ?p"
    using w claim_block_payload [OF rd] by auto
  let ?B = "usbTxBuf (usb s)"
  let ?pid = "?B ! 0 XOR 0x88"
  let ?s1 = "upd_usb (usbTxBuf_update (\<lambda>buf. take 1 buf @ ?p @ tail)) (block_taken (block_length s) ?s0)"
  have taken: "usbTxBuf (usb (block_taken n s')) = usbTxBuf (usb s')" for n s'
    by (simp add: block_taken_def split_beta Let_def)
  have b1: "usbTxBuf (usb ?s1) = ?pid # ?p @ tail"
    using buf by (cases ?B) (simp_all add: taken)
  have un: "unat (of_nat (length ?p) :: u8) = length ?p" using n by (simp add: unat_of_nat)
  note crc = append_checksum [OF n tail]
  have le: "of_nat (length ?p) \<le> (8 :: u8)" and lt: "of_nat (length ?p) + 4 < (12 :: u8) \<longleftrightarrow> length ?p < 8"
    using n un by (simp_all add: word_le_nat_alt word_less_nat_alt unat_word_ariths)
  let ?s2 = "upd_usb (\<lambda>u. u\<lparr>usbTxBuf := take 1 (usbTxBuf u) @ ?p @ [lo8 (crc16_usb ?p), hi8 (crc16_usb ?p)]
      @ drop 2 tail\<rparr>) ?s1"
  have "usbBuildTxBlock s = Some (upd_usb (usbTxLen_update (\<lambda>_. of_nat (length ?p) + 4))
      (if length ?p < 8 then upd_usb (usbMsgLen_update (\<lambda>_. USB_NO_MSG)) ?s2 else ?s2))"
    using b1 crc le lt unfolding usbBuildTxBlock_reads [OF buf] by (simp add: r Let_def)
  also have "\<dots> = Some (built_block (drop 2 tail) s)"
  proof -
    have len: "usbMsgLen (usb (block_taken n s')) = usbMsgLen (usb s')" for n s'
      by (simp add: block_taken_def split_beta Let_def)
    have "?w = 8" if "\<not> length ?p < 8"
    proof -
      have "unat ?w = 8" using that n w length_block_payload [of "block_length s" s] by simp
      then show ?thesis by (simp add: word_unat_eq_iff)
    qed
    moreover have "take 1 (?B[0 := ?pid]) = [?pid]" using buf by (cases ?B) simp_all
    ultimately show ?thesis
      unfolding built_block_def claim_block_taken [OF rd] Let_def option.inject
      by (intro fw.equality usbdrv.equality)
        (simp_all add: tx_packet_def claim_block_def taken len add.commute)
  qed
  finally have "usbBuildTxBlock s = Some (built_block (drop 2 tail) s)" .
  moreover have "length (drop 2 tail) + length ?p = 8" using tail n by simp
  ultimately show ?thesis by blast
qed

section \<open>What serving the USB driver leaves alone\<close>

text \<open>
  The driver touches the transfer in one place only: the request that starts one. It also turns
  the coil's generator on or off (\<open>TCCR1\<close>).
\<close>

definition keeps_transfer :: "fw \<Rightarrow> fw \<Rightarrow> bool" where
  "keeps_transfer s s' \<longleftrightarrow>
     (hw s')\<lparr>TCCR1 := {}\<rparr> = (hw s)\<lparr>TCCR1 := {}\<rparr> \<and>
     opLength s' = opLength s \<and> opOffset s' = opOffset s \<and> adcLastSignal s' = adcLastSignal s \<and>
     adcLowVal s' = adcLowVal s \<and> adcHiVal s' = adcHiVal s"

text \<open>The thresholds of the comparator, which nothing changes.\<close>

definition thresholds :: "fw \<Rightarrow> u8 \<times> u8" where
  "thresholds s = (adcLowVal s, adcHiVal s)"

lemma thresholds_usb [simp]: "thresholds (s\<lparr>usb := u\<rparr>) = thresholds s"
  by (simp add: thresholds_def)

lemma keeps_thresholds: "keeps_transfer s s' \<Longrightarrow> thresholds s' = thresholds s"
  by (simp add: keeps_transfer_def thresholds_def)

definition starts_transfer :: "u8 list \<Rightarrow> usbdrv \<Rightarrow> bool" where
  "starts_transfer data u \<longleftrightarrow>
     usbRxToken u = USBPID_SETUP \<and> length data = 8 \<and>
     bmRequestType (usbRequest_of data) AND USBRQ_TYPE_MASK \<noteq> USBRQ_TYPE_STANDARD \<and>
     bRequest (usbRequest_of data) = PROTO_CMD_TRANSFER_START"

lemma keeps_transfer_refl [intro, simp]: "keeps_transfer s s"
  by (simp add: keeps_transfer_def)

lemma keeps_transfer_trans: "keeps_transfer s t \<Longrightarrow> keeps_transfer t r \<Longrightarrow> keeps_transfer s r"
  by (simp add: keeps_transfer_def)

lemma keeps_transfer_usb [intro, simp]: "keeps_transfer s (s\<lparr>usb := u\<rparr>)"
  by (simp add: keeps_transfer_def)

lemma keeps_transfer_upd: "keeps_transfer s t \<Longrightarrow> keeps_transfer s (t\<lparr>usb := u\<rparr>)"
  by (erule keeps_transfer_trans) simp

lemma usbDriverSetup_only_usb:
  "usbDriverSetup rq s = Some (n, s') \<Longrightarrow> s' = s\<lparr>usb := usb s'\<rparr>"
  by (auto simp: usbDriverSetup_def usbDriverDescriptor_eq Let_def bind_eq_Some_conv wr_def
      split: if_splits option.splits)

lemma setup_result_keeps:
  "keeps_transfer s (snd (setup_result rq s))"
  "ctx (snd (setup_result rq s)) =
     (if bRequest rq = PROTO_CMD_TRANSFER_START then started_ctx rq (ctx s) else ctx s)"
proof -
  have "keeps_transfer s (setup_effect rq s)"
    by (simp add: keeps_transfer_def setup_effect_def coilStart_def coilStop_def)
  then show "keeps_transfer s (snd (setup_result rq s))"
    by (simp add: setup_result_def Let_def keeps_transfer_def)
  have "ctx (setup_effect rq s) =
      (if bRequest rq = PROTO_CMD_TRANSFER_START then started_ctx rq (ctx s) else ctx s)"
    by (simp add: setup_effect_def)
  then show "ctx (snd (setup_result rq s)) =
     (if bRequest rq = PROTO_CMD_TRANSFER_START then started_ctx rq (ctx s) else ctx s)"
    by (simp add: setup_result_def Let_def)
qed

lemma process_setup_keeps:
  assumes "arrays_ok s" "process_setup data s = Some s'"
  shows "keeps_transfer s s' \<and>
    ctx s' = (if bmRequestType (usbRequest_of data) AND USBRQ_TYPE_MASK \<noteq> USBRQ_TYPE_STANDARD \<and>
                 bRequest (usbRequest_of data) = PROTO_CMD_TRANSFER_START
              then started_ctx (usbRequest_of data) (ctx s) else ctx s)"
proof -
  let ?rq = "usbRequest_of data"
  have stage: "keeps_transfer (snd r) (setup_stage ?rq r)" "ctx (setup_stage ?rq r) = ctx (snd r)" for r
    by (simp_all add: setup_stage_def split_beta Let_def)
  have entry: "keeps_transfer s (setup_entry s)" "ctx (setup_entry s) = ctx s"
    by (simp_all add: setup_entry_def)
  show ?thesis
  proof (cases "bmRequestType ?rq AND USBRQ_TYPE_MASK = USBRQ_TYPE_STANDARD")
    case True
    with assms obtain n t where t: "usbDriverSetup ?rq (setup_entry s) = Some (n, t)"
      "s' = setup_stage ?rq (n, t)"
      by (auto simp: process_setup_eq Let_def)
    from usbDriverSetup_only_usb [OF t(1)] have "keeps_transfer (setup_entry s) t" "ctx t = ctx (setup_entry s)"
      by (metis keeps_transfer_usb, metis fw.select_convs(2) fw.surjective fw.update_convs(3))
    with True t(2) stage [of "(n, t)"] entry show ?thesis
      by (auto intro: keeps_transfer_trans)
  next
    case False
    with assms have "s' = setup_stage ?rq (setup_result ?rq (setup_entry s))"
      by (simp add: process_setup_eq Let_def)
    with False stage [of "setup_result ?rq (setup_entry s)"] setup_result_keeps [where s = "setup_entry s" and rq = ?rq] entry
    show ?thesis by (auto intro: keeps_transfer_trans)
  qed
qed

section \<open>The driver preserves the invariant\<close>

lemma usb_okD:
  assumes "usb_ok s"
  shows "arrays_ok s" "io_ok s" "msg_ok s" "tx_ok (usb s)" "unat (usbRxLen (usb s)) \<le> USB_BUFSIZE"
  using assms by (simp_all add: usb_ok_def)

lemma function_write_ok:
  assumes "usb_ok s" "write_command s" "length data \<le> 8"
  shows "\<exists>n s'. usbFunctionWrite data s = Some (of_nat n, s') \<and> n \<le> 8 \<and> arrays_ok s' \<and> io_ok s' \<and>
           usb s' = usb s \<and> ctx s' = ctx s \<and> keeps_transfer s s' \<and> command s' = command s"
proof -
  let ?i = "unat (ioBufferOffset s)"
  let ?buf = "io_buffer s"
  let ?k = "min (length data) (length ?buf - ?i)"
  note usb_okD [OF assms(1)]
  note i = io_offset_le [OF this(1,2)]
  have le: "?i \<le> length ?buf" "length ?buf \<le> 192" using i assms(2) by simp_all
  have off: "unat (ioBufferOffset s + of_nat ?k) = ?i + ?k"
    using le by (subst unat_add_lem [THEN iffD1]) (auto simp: unat_of_nat)
  obtain s' where s': "usbFunctionWrite data s = Some (of_nat ?k, s')"
    "s' = set_io_buffer (take ?i ?buf @ take ?k data @ drop (?i + ?k) ?buf)
            (s\<lparr>ioBufferOffset := ioBufferOffset s + of_nat ?k\<rparr>)"
    using usbFunctionWrite_eq [OF \<open>arrays_ok s\<close> \<open>io_ok s\<close> assms(2)] by (simp add: Let_def)
  have len: "length (take ?i ?buf @ take ?k data @ drop (?i + ?k) ?buf) = length ?buf"
    using le by simp
  have "command s' = command s" by (simp add: s' set_io_buffer_def)
  have "io_ok s'"
    using off le assms(2) \<open>arrays_ok s\<close>
    by (auto simp: s' io_ok_def set_io_buffer_def io_buffer_def write_command_def vector_command_def
        arrays_ok_def)
  moreover have "arrays_ok s'"
    using \<open>arrays_ok s\<close> len
    by (auto simp: s' arrays_ok_def set_io_buffer_def io_buffer_def vector_command_def)
  moreover have "usb s' = usb s" "ctx s' = ctx s" "keeps_transfer s s'"
    by (simp_all add: s' set_io_buffer_def keeps_transfer_def)
  ultimately show ?thesis using s'(1) assms(3) \<open>command s' = command s\<close> by (intro exI [of _ ?k]) auto
qed

lemma usbProcessRx_ok:
  assumes "usb_ok s" "length data \<le> 8"
    and "usbRxToken (usb s) \<noteq> USBPID_SETUP \<Longrightarrow> usbMsgFlags (usb s) AND USB_FLG_USE_USER_RW \<noteq> 0 \<Longrightarrow>
           write_command s"
  shows "\<exists>s'. usbProcessRx data s = Some s' \<and> usb_ok s' \<and> usbRxLen (usb s') = usbRxLen (usb s) \<and>
           keeps_transfer s s' \<and>
           ctx s' = (if starts_transfer data (usb s)
                     then started_ctx (usbRequest_of data) (ctx s) else ctx s)"
proof -
  note ok = usb_okD [OF assms(1)]
  consider "usbRxToken (usb s) = USBPID_SETUP" "length data = 8"
    | "usbRxToken (usb s) = USBPID_SETUP" "length data \<noteq> 8"
    | "usbRxToken (usb s) \<noteq> USBPID_SETUP" "usbMsgFlags (usb s) AND USB_FLG_USE_USER_RW = 0"
    | "usbRxToken (usb s) \<noteq> USBPID_SETUP" "usbMsgFlags (usb s) AND USB_FLG_USE_USER_RW \<noteq> 0"
    by blast
  then show ?thesis
  proof cases
    case 1
    with process_setup_ok [OF assms(1), of data] process_setup_keeps [OF ok(1), of data] show ?thesis
      by (auto simp: usbProcessRx_def starts_transfer_def)
  next
    case 4
    with assms(3) have "write_command s" by blast
    from function_write_ok [OF assms(1) this assms(2)] obtain n t where
      t: "usbFunctionWrite data s = Some (of_nat n, t)" "n \<le> 8" "arrays_ok t" "io_ok t"
        "usb t = usb s" "ctx t = ctx s" "keeps_transfer s t" by blast
    have "(of_nat n :: u8) \<noteq> 0xff"
      using t(2) by (simp add: word_unat_eq_iff unat_of_nat)
    moreover have "msg_ok t" using 4(2) t(5) by (simp add: msg_ok_def)
    moreover have "usb_ok (upd_usb (usbMsgLen_update (\<lambda>_. 0)) t)"
      using t(3-5) ok by (simp add: usb_ok_def arrays_ok_def io_ok_def msg_ok_def tx_ok_def)
    moreover have "keeps_transfer s (upd_usb f t)" for f
      by (rule keeps_transfer_trans [OF t(7)]) simp
    ultimately show ?thesis
      using 4 t ok by (auto simp: usbProcessRx_def starts_transfer_def usb_ok_def)
  qed (use assms(1) in \<open>simp_all add: usbProcessRx_def starts_transfer_def\<close>)
qed

text \<open>\<open>int8_t len = usbRxLen - 3\<close> for the lengths the receiver can store.\<close>

lemma rx_len:
  assumes "unat (x :: u8) \<le> 11"
  shows "0 \<le> sint (x - 3) \<longleftrightarrow> 3 \<le> unat x" and "3 \<le> unat x \<Longrightarrow> unat (x - 3) = unat x - 3"
proof -
  have "unat x \<in> {0, 1, 2, 3, 4, 5, 6, 7, 8, 9, 10, 11}"
    using assms by (simp only: insert_iff empty_iff) presburger
  then have "x \<in> {0, 1, 2, 3, 4, 5, 6, 7, 8, 9, 10, 11}" by (auto simp: word_unat_eq_iff)
  then show "0 \<le> sint (x - 3) \<longleftrightarrow> 3 \<le> unat x" by auto
  show "3 \<le> unat x \<Longrightarrow> unat (x - 3) = unat x - 3"
    by (simp add: unat_sub word_le_nat_alt)
qed

definition packet_data :: "usbdrv \<Rightarrow> u8 list option" where
  "packet_data u =
     (if 3 \<le> unat (usbRxLen u) then Some (take (unat (usbRxLen u) - 3) (drop 1 (usbRxBuf u))) else None)"

definition started_by :: "usbdrv \<Rightarrow> usbRequest option" where
  "started_by u =
     (case packet_data u of
        Some data \<Rightarrow> if starts_transfer data u then Some (usbRequest_of data) else None
      | None \<Rightarrow> None)"

lemma poll_rx_eq:
  assumes "usb_ok s"
  shows "poll_rx (Suc 0) s =
     (case packet_data (usb s) of
        None \<Rightarrow> Some s
      | Some data \<Rightarrow> map_option (upd_usb (usbRxLen_update (\<lambda>_. 0))) (usbProcessRx data s))"
proof -
  note ok = usb_okD [OF assms]
  from ok(1) have "length (usbRxBuf (usb s)) = 22" by (simp add: arrays_ok_def)
  then show ?thesis
    using rx_len [OF ok(5)] ok(5)
    by (auto simp: poll_rx_def packet_data_def Let_def map_option_case split: option.split)
qed

lemma poll_rx_ok:
  assumes "usb_ok s" "write_expected s"
  shows "\<exists>s'. poll_rx 1 s = Some s' \<and> usb_ok s' \<and> keeps_transfer s s' \<and>
           ctx s' = (case started_by (usb s) of Some rq \<Rightarrow> started_ctx rq (ctx s) | None \<Rightarrow> ctx s)"
proof (cases "packet_data (usb s)")
  case None
  then show ?thesis using assms by (simp add: poll_rx_eq started_by_def)
next
  case (Some data)
  note ok = usb_okD [OF assms(1)]
  have data: "length data \<le> 8" "0 \<le> sint (usbRxLen (usb s) - 3)"
    using Some ok(5) rx_len(1) [OF ok(5)] by (auto simp: packet_data_def split: if_splits)
  then have "usbRxToken (usb s) \<noteq> USBPID_SETUP \<Longrightarrow>
      usbMsgFlags (usb s) AND USB_FLG_USE_USER_RW \<noteq> 0 \<Longrightarrow> write_command s"
    using assms(2) by (simp add: write_expected_def write_command_def)
  from usbProcessRx_ok [OF assms(1) data(1) this] obtain t where
    t: "usbProcessRx data s = Some t" "usb_ok t" "keeps_transfer s t"
      "ctx t = (if starts_transfer data (usb s) then started_ctx (usbRequest_of data) (ctx s) else ctx s)"
    by blast
  have "msg_bytes d (upd_usb (usbRxLen_update (\<lambda>_. 0)) t) = msg_bytes d t" for d
    by (cases d) (simp_all add: msg_bytes_def)
  then have "msg_ok (upd_usb (usbRxLen_update (\<lambda>_. 0)) t)"
    using usb_okD(3) [OF t(2)] by (simp add: msg_ok_def)
  then have "usb_ok (upd_usb (usbRxLen_update (\<lambda>_. 0)) t)"
    using usb_okD [OF t(2)] by (simp add: usb_ok_def arrays_ok_def io_ok_def tx_ok_def)
  moreover have "keeps_transfer s (upd_usb f t)" for f
    by (rule keeps_transfer_trans [OF t(3)]) simp
  ultimately show ?thesis
    using Some assms t by (simp add: poll_rx_eq started_by_def)
qed

lemma block_taken_keeps:
  "keeps_transfer s (block_taken n s)" "ctx (block_taken n s) = ctx s"
  "response (block_taken n s) = response s" "sampleVector (block_taken n s) = sampleVector s"
  "ioBuffer (block_taken n s) = ioBuffer s" "command (block_taken n s) = command s"
  "usbRxBuf (usb (block_taken n s)) = usbRxBuf (usb s)"
  "usbTxBuf (usb (block_taken n s)) = usbTxBuf (usb s)"
  "usbRxLen (usb (block_taken n s)) = usbRxLen (usb s)"
  "usbMsgFlags (usb (block_taken n s)) = usbMsgFlags (usb s)"
  by (simp_all add: block_taken_def keeps_transfer_def split_beta Let_def)

lemma io_ok_block_taken:
  assumes "arrays_ok s" "io_ok s"
  shows "io_ok (block_taken n s)"
proof (cases "usbMsgFlags (usb s) AND USB_FLG_USE_USER_RW \<noteq> 0 \<and> read_command s")
  case True
  let ?i = "unat (ioBufferOffset s)"
  let ?k = "length (block_payload n s)"
  have le: "?i \<le> length (io_buffer s)" "length (io_buffer s) \<le> 192"
    using io_offset_le [OF assms] True by auto
  then have "?i + ?k \<le> length (io_buffer s)"
    using True by (auto simp: block_payload_def split_beta Let_def)
  moreover from this le have "unat (ioBufferOffset s + of_nat ?k) = ?i + ?k"
    by (subst unat_add_lem [THEN iffD1]) (auto simp: unat_of_nat)
  ultimately show ?thesis
    using True assms
    by (auto simp: block_taken_def io_ok_def io_buffer_def read_command_def vector_command_def
        arrays_ok_def split_beta Let_def)
next
  case False
  then show ?thesis using assms(2) by (auto simp: block_taken_def io_ok_def split_beta Let_def)
qed

lemma token_of_length:
  assumes "n \<le> 8"
  shows "(of_nat (n + 4) :: u8) AND 0x10 = 0" and "unat (of_nat (n + 4) :: u8) = n + 4"
proof -
  have "n \<in> {0, 1, 2, 3, 4, 5, 6, 7, 8}" using assms by (simp only: insert_iff empty_iff) presburger
  then show "(of_nat (n + 4) :: u8) AND 0x10 = 0" by auto
  show "unat (of_nat (n + 4) :: u8) = n + 4" using assms by (simp only: unat_of_nat) simp
qed

lemma built_block_ok:
  assumes "usb_ok s" "usbMsgLen (usb s) \<noteq> USB_NO_MSG" "length tail + length (tx_payload s) = 8"
  shows "usb_ok (built_block tail s)"
proof -
  note ok = usb_okD [OF assms(1)]
  let ?n = "length (tx_payload s)"
  let ?s = "built_block tail s"
  obtain d i where p: "usbMsgPtr (usb s) = (d, i)" by (cases "usbMsgPtr (usb s)")
  have n: "?n \<le> 8" using assms(3) by simp
  have "arrays_ok ?s"
    using ok(1) assms(3)
    by (simp add: built_block_def arrays_ok_def tx_packet_def block_taken_keeps Let_def)
  moreover have "io_ok ?s"
    using io_ok_block_taken [OF ok(1,2), of "block_length s"]
    by (simp add: built_block_def io_ok_def Let_def)
  moreover have "tx_ok (usb ?s)"
    using token_of_length [OF n] n by (simp add: built_block_def tx_ok_def Let_def del: of_nat_add)
  moreover have "unat (usbRxLen (usb ?s)) \<le> USB_BUFSIZE"
    using ok(5) by (simp add: built_block_def block_taken_keeps Let_def)
  moreover have "msg_ok ?s"
  proof (cases "?n < 8 \<or> usbMsgFlags (usb s) AND USB_FLG_USE_USER_RW \<noteq> 0")
    case True
    then show ?thesis by (auto simp: built_block_def msg_ok_def block_taken_keeps Let_def)
  next
    case False
    with n have eq: "?n = 8" by simp
    then have "block_length s = 8"
      using length_block_payload [of "block_length s" s] by simp
    then have len: "8 \<le> unat (usbMsgLen (usb s))" by simp
    then have sub: "unat (usbMsgLen (usb s) - 8) = unat (usbMsgLen (usb s)) - 8"
      by (subst unat_sub) (simp_all add: word_le_nat_alt)
    have "usbMsgLen (usb s) \<noteq> 0" using len by auto
    with ok(3) False assms(2) have m:
      "(usbMsgFlags (usb s) AND USB_FLG_MSGPTR_IS_ROM \<noteq> 0) = in_flash d"
      "d = Obj_usbTxBuf \<longrightarrow> 9 \<le> i" "i + unat (usbMsgLen (usb s)) \<le> length (msg_bytes d s)"
      by (auto simp: msg_ok_def p)
    have "length (msg_bytes d ?s) = length (msg_bytes d s)"
      using ok(1) \<open>arrays_ok ?s\<close> by (cases d) (simp_all add: msg_bytes_def arrays_ok_def)
    moreover have "usbMsgPtr (usb ?s) = (d, i + 8)" "usbMsgFlags (usb ?s) = usbMsgFlags (usb s)"
      "usbMsgLen (usb ?s) = usbMsgLen (usb s) - 8"
      using False eq by (simp_all add: built_block_def block_taken_def p Let_def)
    ultimately show ?thesis using m sub len by (auto simp: msg_ok_def)
  qed
  ultimately show ?thesis by (simp add: usb_ok_def)
qed

lemma poll_tx_ok:
  assumes "usb_ok s"
  shows "\<exists>s'. poll_tx s = Some s' \<and> usb_ok s' \<and> keeps_transfer s s' \<and> ctx s' = ctx s"
proof (cases "usbTxLen (usb s) AND 0x10 \<noteq> 0 \<and> usbMsgLen (usb s) \<noteq> USB_NO_MSG")
  case True
  with usb_okD [OF assms] usbBuildTxBlock_eq [of s] obtain tail where
    t: "usbBuildTxBlock s = Some (built_block tail s)" "length tail + length (tx_payload s) = 8"
    by blast
  moreover have "keeps_transfer s (built_block tail s)" "ctx (built_block tail s) = ctx s"
    by (simp_all add: built_block_def Let_def block_taken_keeps keeps_transfer_upd)
  ultimately show ?thesis
    using True built_block_ok [OF assms] by (simp add: poll_tx_def)
next
  case False
  then show ?thesis using assms by (auto simp: poll_tx_def)
qed

section \<open>The receive routine preserves the invariant\<close>

lemma usb_ok_change:
  assumes "usb_ok s"
    and "length (usbRxBuf u) = 22" "usbTxBuf u = usbTxBuf (usb s)"
    and "usbMsgPtr u = usbMsgPtr (usb s)" "usbMsgLen u = usbMsgLen (usb s)"
      "usbMsgFlags u = usbMsgFlags (usb s)"
    and "tx_ok u" "unat (usbRxLen u) \<le> USB_BUFSIZE"
  shows "usb_ok (s\<lparr>usb := u\<rparr>)"
proof -
  have "length (msg_bytes d (s\<lparr>usb := u\<rparr>)) = length (msg_bytes d s)" for d
    using assms(3) by (cases d) (simp_all add: msg_bytes_def)
  with assms show ?thesis
    by (simp add: usb_ok_def arrays_ok_def io_ok_def msg_ok_def)
qed

definition rx_ok :: "usbdrv \<Rightarrow> usbdrv \<Rightarrow> bool" where
  "rx_ok u u' \<longleftrightarrow>
     length (usbRxBuf u') = length (usbRxBuf u) \<and> usbTxBuf u' = usbTxBuf u \<and>
     usbMsgPtr u' = usbMsgPtr u \<and> usbMsgLen u' = usbMsgLen u \<and> usbMsgFlags u' = usbMsgFlags u \<and>
     (tx_ok u \<longrightarrow> tx_ok u') \<and>
     (unat (usbRxLen u) \<le> USB_BUFSIZE \<longrightarrow> unat (usbRxLen u') \<le> USB_BUFSIZE)"

lemma rx_ok_trans: "rx_ok u v \<Longrightarrow> rx_ok v w \<Longrightarrow> rx_ok u w"
  by (simp add: rx_ok_def)

lemma handleData_ok: "unat cnt \<le> USB_BUFSIZE \<Longrightarrow> rx_ok u (fst (handleData cnt u))"
  by (simp add: handleData_def rx_ok_def tx_ok_def Let_def)

lemma handleIn_ok: "rx_ok u (fst (handleIn u))"
  by (simp add: handleIn_def rx_ok_def tx_ok_def)

lemma usb_rx_packet_ok:
  assumes "22 \<le> length (usbRxBuf u)"
  shows "rx_ok u (fst (usb_rx_packet pkt u))"
proof -
  define w where "w = u\<lparr>usbRxBuf := take 11 pkt @ drop (length (take 11 pkt)) (usbRxBuf u)\<rparr>"
  have u: "rx_ok u w" using assms by (simp add: rx_ok_def tx_ok_def w_def)
  have tok: "rx_ok u (w\<lparr>usbCurrentTok := t\<rparr>)" for t
    using assms by (simp add: rx_ok_def tx_ok_def w_def)
  have data: "rx_ok u (fst (handleData (of_nat (length pkt)) w))" if "length pkt \<le> 11"
    using that by (intro rx_ok_trans [OF u] handleData_ok) (simp add: unat_of_nat)
  have inn: "rx_ok u (fst (handleIn w))"
    by (rule rx_ok_trans [OF u handleIn_ok])
  show ?thesis
    unfolding usb_rx_packet_def Let_def w_def [symmetric]
    using tok data inn by simp
qed

lemma USB_INTR_VECTOR_ok:
  assumes "22 \<le> length (usbRxBuf u)"
  shows "rx_ok u (fst (USB_INTR_VECTOR pkts u))"
  using assms
proof (induction pkts arbitrary: u)
  case Nil
  then show ?case by (simp add: rx_ok_def)
next
  case (Cons pkt pkts)
  let ?u = "fst (usb_rx_packet pkt u)"
  have "rx_ok u ?u" using Cons.prems by (rule usb_rx_packet_ok)
  moreover from this Cons.prems have "22 \<le> length (usbRxBuf ?u)" by (simp add: rx_ok_def)
  ultimately show ?case
    using Cons.IH [of ?u] by (auto simp: split_beta Let_def intro: rx_ok_trans)
qed

lemma usb_ok_rx: "usb_ok s \<Longrightarrow> rx_ok (usb s) u \<Longrightarrow> usb_ok (s\<lparr>usb := u\<rparr>)"
  by (rule usb_ok_change) (simp_all add: rx_ok_def usb_ok_def arrays_ok_def)

text \<open>A data packet the routine sends lies inside \<open>usbTxBuf\<close>.\<close>

lemma handleIn_in_buffer:
  assumes "handleIn u = (u', Data_Packet p)" "tx_ok u" "length (usbTxBuf u) = 11"
  shows "p = take (length p) (usbTxBuf u)" and "length p \<le> 11"
  using assms by (auto simp: handleIn_def tx_ok_def split: if_splits)

lemma usb_ok_init: "usb_ok (fw_init h)"
  using arrays_ok_init [of h]
  by (simp add: usb_ok_def io_ok_def msg_ok_def tx_ok_def) (simp add: fw_init_def usbdrv_init_def)

end
