(* ===== verification/Buffers.thy ===== *)
theory Buffers
  imports Prelude
begin

unbundle bit_operations_syntax

text \<open>
  Abstract views of a byte buffer that the firmware and the host tool share: as a sequence of
  samples, one per bit, lowest bit first, and as a sequence of pulse entries, one per nibble,
  low nibble first.
\<close>

definition bits_of_bytes :: "u8 list \<Rightarrow> bool list" where
  "bits_of_bytes buf = concat (map (\<lambda>b. map (bit b) [0..<8]) buf)"

definition nibbles_of_bytes :: "u8 list \<Rightarrow> u8 list" where
  "nibbles_of_bytes buf = concat (map (\<lambda>b. [b AND 0x0f, drop_bit 4 b]) buf)"

section \<open>Samples\<close>

lemma bits_of_bytes_Nil [simp]: "bits_of_bytes [] = []"
  by (simp add: bits_of_bytes_def)

lemma bits_of_bytes_Cons: "bits_of_bytes (b # bs) = map (bit b) [0..<8] @ bits_of_bytes bs"
  by (simp add: bits_of_bytes_def)

lemma bits_of_bytes_append: "bits_of_bytes (xs @ ys) = bits_of_bytes xs @ bits_of_bytes ys"
  by (simp add: bits_of_bytes_def)

lemma length_bits_of_bytes [simp]: "length (bits_of_bytes buf) = 8 * length buf"
  by (induction buf) (simp_all add: bits_of_bytes_Cons)

lemma nth_bits_of_bytes:
  "k < 8 * length buf \<Longrightarrow> bits_of_bytes buf ! k = bit (buf ! (k div 8)) (k mod 8)"
proof (induction buf arbitrary: k)
  case Nil
  then show ?case by simp
next
  case (Cons b buf)
  show ?case
  proof (cases "k < 8")
    case True
    then show ?thesis by (simp add: bits_of_bytes_Cons nth_append)
  next
    case False
    then have "k div 8 = Suc ((k - 8) div 8)" and "k mod 8 = (k - 8) mod 8"
      by (simp_all add: le_div_geq le_mod_geq)
    with False Cons show ?thesis
      by (simp add: bits_of_bytes_Cons nth_append)
  qed
qed

text \<open>Setting or clearing one bit of the buffer updates one sample.\<close>

definition with_bit :: "u8 \<Rightarrow> nat \<Rightarrow> bool \<Rightarrow> u8" where
  "with_bit b j v = (if v then b OR BV j else b AND NOT (BV j))"

lemma bit_with_bit: "j < 8 \<Longrightarrow> bit (with_bit b j v) i \<longleftrightarrow> (if i = j then v else bit b i)"
  by (auto simp: with_bit_def bit_simps dest: bit_imp_le_length)

lemma bits_of_bytes_update:
  assumes "k < 8 * length buf"
  shows "bits_of_bytes (buf[k div 8 := with_bit (buf ! (k div 8)) (k mod 8) v]) = (bits_of_bytes buf)[k := v]"
proof (rule nth_equalityI)
  show "length (bits_of_bytes (buf[k div 8 := with_bit (buf ! (k div 8)) (k mod 8) v])) =
      length ((bits_of_bytes buf)[k := v])"
    by simp
next
  fix i
  assume "i < length (bits_of_bytes (buf[k div 8 := with_bit (buf ! (k div 8)) (k mod 8) v]))"
  then have i: "i < 8 * length buf" by simp
  have "i = k" if "i div 8 = k div 8" "i mod 8 = k mod 8"
    using that by (metis div_mult_mod_eq)
  then show "bits_of_bytes (buf[k div 8 := with_bit (buf ! (k div 8)) (k mod 8) v]) ! i =
      (bits_of_bytes buf)[k := v] ! i"
    using i assms by (auto simp: nth_bits_of_bytes nth_list_update bit_with_bit)
qed

section \<open>Pulse entries\<close>

lemma length_nibbles_of_bytes [simp]: "length (nibbles_of_bytes buf) = 2 * length buf"
  by (induction buf) (simp_all add: nibbles_of_bytes_def)

lemma nth_nibbles_of_bytes:
  "k < 2 * length buf \<Longrightarrow>
     nibbles_of_bytes buf ! k =
       (if odd k then drop_bit 4 (buf ! (k div 2)) else buf ! (k div 2) AND 0x0f)"
proof (induction buf arbitrary: k)
  case Nil
  then show ?case by simp
next
  case (Cons b buf)
  have *: "nibbles_of_bytes (b # buf) = [b AND 0x0f, drop_bit 4 b] @ nibbles_of_bytes buf"
    by (simp add: nibbles_of_bytes_def)
  show ?case
  proof (cases "k < 2")
    case True
    then have "k = 0 \<or> k = 1" by arith
    then show ?thesis by (auto simp: *)
  next
    case False
    then obtain m where "k = Suc (Suc m)"
      by (metis add_2_eq_Suc le_Suc_ex not_less)
    with Cons show ?thesis by (simp add: *)
  qed
qed

end
