(* ===== verification/Fw_Isr.thy ===== *)
theory Fw_Isr
  imports Fw_Hardware Buffers
begin

unbundle bit_operations_syntax

text \<open>
  The two interrupt handlers of \<open>firmware/src/main.c\<close>: \<open>TIMER0_COMPA_vect\<close> plays the pulses in
  \<open>ioBuffer\<close> (transmit), \<open>ADC_vect\<close> waits for the start condition and fills \<open>ioBuffer\<close> with
  samples (receive). Each returns \<open>None\<close> where the C code would read or write outside an array.
\<close>

section \<open>Transmitter\<close>

definition stopTx :: "fw \<Rightarrow> fw" where
  "stopTx s =
     (let s = s\<lparr>hw := prescallerStop (hw s)\<rparr>;
          s = s\<lparr>hw := PIO_SET_INPUT PIO_COIL_PIN (hw s)\<rparr>
      in set_state STATE_FINISHED s)"

definition TIMER0_COMPA_vect :: "fw \<Rightarrow> fw option" where
  "TIMER0_COMPA_vect s =
     (if opOffset s = opLength s then Some (stopTx s)
      else do {
        pulseIdx \<leftarrow> rd (ioBuffer s) (unat (drop_bit 1 (opOffset s)));
        let pulseIdx = (if opOffset s AND 1 \<noteq> 0 then drop_bit 4 pulseIdx else pulseIdx AND 0x0f);
        if pulseIdx AND 0x07 = 0x07 then Some (stopTx s)
        else do {
          width \<leftarrow> rd (sampleVector s) (unat (pulseIdx AND 0x07));
          let s = s\<lparr>hw := (hw s)\<lparr>OCR0A := width - 1\<rparr>\<rparr>;
          let s = (if pulseIdx AND 0x08 \<noteq> 0
                   then s\<lparr>hw := PIO_SET_INPUT PIO_COIL_PIN (hw s)\<rparr>
                   else s\<lparr>hw := PIO_SET_OUTPUT PIO_COIL_PIN (hw s)\<rparr>);
          Some (s\<lparr>opOffset := opOffset s + 1\<rparr>)
        }
      })"

section \<open>Sampler\<close>

text \<open>
  The comparator of the handler: at or above \<open>adcHiVal\<close> the signal reads 0, at or below
  \<open>adcLowVal\<close> it reads 1, in between it keeps its last value.
\<close>

definition adc_classify :: "fw \<Rightarrow> fw" where
  "adc_classify s =
     (if adcHiVal s \<le> ADCH (hw s) then s\<lparr>adcLastSignal := 0\<rparr>
      else if ADCH (hw s) \<le> adcLowVal s then s\<lparr>adcLastSignal := 1\<rparr>
      else s)"

text \<open>
  The branch for \<open>STATE_WAIT_CONDITION\<close> (\<open>oldSignal\<close> is the handler's local copy of the signal
  before this sample).
\<close>

definition adc_wait_condition :: "u8 \<Rightarrow> fw \<Rightarrow> fw" where
  "adc_wait_condition oldSignal s =
     (let started = (if tx (ctx s) then STATE_TX else STATE_RX);
          s = (if fallingEdge (ctx s)
               then (if oldSignal \<noteq> 0 \<and> adcLastSignal s = 0 then set_state started s else s)
               else (if oldSignal = 0 \<and> adcLastSignal s \<noteq> 0 then set_state started s else s))
      in if fw_state s = STATE_WAIT_CONDITION
         then (if timeout (ctx s) \<noteq> 0
               then s\<lparr>ctx := (ctx s)\<lparr>timeout := timeout (ctx s) - 1\<rparr>\<rparr>
               else (let s = set_state STATE_FINISHED s;
                         s = s\<lparr>ctx := (ctx s)\<lparr>timedOut := True\<rparr>\<rparr>
                     in s\<lparr>hw := prescallerStop (hw s)\<rparr>))
         else (let s = s\<lparr>hw := prescallerStop (hw s)\<rparr>
               in if fw_state s = STATE_TX
                  then (let s = s\<lparr>hw := adcStop (hw s)\<rparr>
                        in s\<lparr>hw := prescallerStart True (prescalerValue (ctx s))
                                     (prescalerCompOnStart (ctx s)) (hw s)\<rparr>)
                  else s\<lparr>hw := prescallerStart False (prescalerValue (ctx s))
                                 (prescalerCompOnStart (ctx s)) (hw s)\<rparr>))"

text \<open>The branch that stores a sample as one bit of \<open>ioBuffer\<close>.\<close>

definition adc_store :: "fw \<Rightarrow> fw option" where
  "adc_store s = do {
     let i = unat (opOffset s div 8);
     byte \<leftarrow> rd (ioBuffer s) i;
     let mask = BV (unat (opOffset s mod 8));
     let byte = (if adcLastSignal s \<noteq> 0 then byte OR mask else byte AND NOT mask);
     buf \<leftarrow> wr (ioBuffer s) i byte;
     let s = s\<lparr>ioBuffer := buf\<rparr>;
     let s = s\<lparr>opOffset := opOffset s + 1\<rparr>;
     if opOffset s = opLength s
     then Some (set_state STATE_FINISHED (s\<lparr>hw := prescallerStop (hw s)\<rparr>))
     else Some s
   }"

text \<open>
  \<open>uint8_t oldSignal = adcLastSignal\<close> stores the \<open>int8_t\<close> value in an unsigned byte, and
  \<open>oldSignal == -1\<close> compares the byte, promoted to \<open>int\<close>, with \<open>-1\<close>.
\<close>

definition ADC_vect :: "fw \<Rightarrow> fw option" where
  "ADC_vect s =
     (let oldSignal = adcLastSignal s;
          s = s\<lparr>hw := TIFR_or {OCF0A} (hw s)\<rparr>;
          s = adc_classify s
      in if uint oldSignal = - 1 then Some s
         else if fw_state s = STATE_WAIT_CONDITION then Some (adc_wait_condition oldSignal s)
         else adc_store s)"

text \<open>The value \<open>-1\<close> of an \<open>int8_t\<close> is the byte 255; the unsigned copy never equals \<open>-1\<close>.\<close>

lemma unsigned_copy_ne_minus_one [simp]: "uint (x :: u8) \<noteq> - 1"
  using uint_ge_0 [of x] by linarith

lemma ADC_vect_cases:
  "ADC_vect s =
     (let s' = adc_classify (s\<lparr>hw := TIFR_or {OCF0A} (hw s)\<rparr>)
      in if fw_state s = STATE_WAIT_CONDITION then Some (adc_wait_condition (adcLastSignal s) s')
         else adc_store s')"
  by (simp add: ADC_vect_def adc_classify_def Let_def)

end
