(* ===== verification/Fw_Calibrate.thy ===== *)
theory Fw_Calibrate
  imports Fw_State
begin

unbundle bit_operations_syntax

text \<open>
  \<open>_calibrateOscillator\<close> of \<open>firmware/src/main.c\<close>: a binary search for the oscillator setting
  whose USB frame length is nearest the target, then a look at its neighbours.

  \<open>usbMeasureFrameLength\<close> times the bus, so its answer is a parameter: \<open>frameLen n v\<close> is what the
  \<open>n\<close>-th call returns while \<open>OSCCAL\<close> holds \<open>v\<close>. The result of the search is \<open>None\<close> when the
  neighbourhood loop never ends.
\<close>

abbreviation (input) F_CPU :: int where "F_CPU \<equiv> 16500000"

text \<open>\<open>(unsigned)(1499 * (double)F_CPU / 10.5e6 + 0.5)\<close>\<close>

definition targetValue :: int where
  "targetValue = (2 * 1499 * F_CPU + 10500000) div (2 * 10500000)"

lemma targetValue_eq: "targetValue = 2356"
  by (simp add: targetValue_def)

text \<open>The \<open>do\<close> loop; it returns the trial value, the last measurement and the number of calls.\<close>

function cal_search :: "(nat \<Rightarrow> u8 \<Rightarrow> u16) \<Rightarrow> nat \<Rightarrow> u8 \<Rightarrow> u8 \<Rightarrow> u8 \<times> int \<times> nat" where
  "cal_search frameLen n step trialValue =
     (let x = sint (frameLen n (trialValue + step));
          trialValue = (if x < targetValue then trialValue + step else trialValue);
          step = drop_bit 1 step
      in if 0 < step then cal_search frameLen (Suc n) step trialValue
         else (trialValue, x, Suc n))"
  by pat_completeness auto
termination
proof (relation "measure (\<lambda>(m, n, step, trialValue). unat step)")
  show "wf (measure (\<lambda>(m, n, step, trialValue). unat (step :: u8)))" by simp
next
  fix m :: "nat \<Rightarrow> u8 \<Rightarrow> u16" and n :: nat and step step' trialValue trialValue' :: u8 and x :: int
  assume "step' = drop_bit 1 step" "0 < step'"
  then have "0 < unat step" and "unat step' = unat step div 2"
    by (auto simp: drop_bit_Suc unat_div word_gt_0 intro!: unat_gt_0 [THEN iffD2])
  then show "((m, Suc n, step', trialValue'), m, n, step, trialValue)
      \<in> measure (\<lambda>(m, n, step, trialValue). unat step)"
    by simp
qed

declare cal_search.simps [simp del]

text \<open>
  \<open>for (OSCCAL = trialValue - 1; OSCCAL <= trialValue + 1; OSCCAL++)\<close>: the register is a byte,
  the bound an \<open>int\<close>. An \<open>int\<close> of the compiler has 16 bits, in which the difference and its
  negation are taken.
\<close>

partial_function (option) cal_neighbours ::
  "(nat \<Rightarrow> u8 \<Rightarrow> u16) \<Rightarrow> nat \<Rightarrow> u8 \<Rightarrow> u8 \<Rightarrow> int \<Rightarrow> u8 \<Rightarrow> u8 option" where
  "cal_neighbours frameLen n trialValue osccal optimumDev optimumValue =
     (if uint osccal \<le> uint trialValue + 1
      then (let x = frameLen n osccal - of_int targetValue;
                x = sint (if sint x < 0 then - x else x)
            in if x < optimumDev
               then cal_neighbours frameLen (Suc n) trialValue (osccal + 1) x osccal
               else cal_neighbours frameLen (Suc n) trialValue (osccal + 1) optimumDev optimumValue)
      else Some optimumValue)"

definition calibrateOscillator :: "(nat \<Rightarrow> u8 \<Rightarrow> u16) \<Rightarrow> fw \<Rightarrow> fw option" where
  "calibrateOscillator frameLen s =
     (let (trialValue, x, n) = cal_search frameLen 0 128 0
      in do {
        optimumValue \<leftarrow> cal_neighbours frameLen n trialValue (trialValue - 1) x trialValue;
        Some (s\<lparr>hw := (hw s)\<lparr>OSCCAL := optimumValue\<rparr>\<rparr>)
      })"

section \<open>The neighbourhood loop\<close>

text \<open>The loop compares the register, a byte, with \<open>trialValue + 1\<close>, an \<open>int\<close>.\<close>

lemma cal_neighbours_hangs:
  assumes "254 \<le> unat trialValue"
  shows "cal_neighbours frameLen n trialValue osccal optimumDev optimumValue = None"
proof -
  let ?P = "\<lambda>(frameLen :: nat \<Rightarrow> u8 \<Rightarrow> u16) (n :: nat) t (osccal :: u8) (d :: int) (v :: u8) (y :: u8).
    \<not> 254 \<le> unat (t :: u8)"
  have "\<not> 254 \<le> unat trialValue"
    if "cal_neighbours frameLen n trialValue osccal optimumDev optimumValue = Some y" for y
  proof (rule cal_neighbours.raw_induct [of ?P, OF _ that])
    fix f :: "(nat \<Rightarrow> u8 \<Rightarrow> u16) \<Rightarrow> nat \<Rightarrow> u8 \<Rightarrow> u8 \<Rightarrow> int \<Rightarrow> u8 \<Rightarrow> u8 option"
      and frameLen n t osccal d v y
    assume IH: "\<And>frameLen n t osccal d v y. f frameLen n t osccal d v = Some y \<Longrightarrow> \<not> 254 \<le> unat t"
      and body: "(if uint osccal \<le> uint t + 1
        then (let x = frameLen n osccal - of_int targetValue;
                  x = sint (if sint x < 0 then - x else x)
              in if x < d then f frameLen (Suc n) t (osccal + 1) x osccal
                 else f frameLen (Suc n) t (osccal + 1) d v)
        else Some v) = Some y"
    show "\<not> 254 \<le> unat t"
    proof
      assume "254 \<le> unat t"
      then have "int (unat osccal) \<le> int (unat t) + 1" using unat_u8_less [of osccal] by linarith
      then have "uint osccal \<le> uint t + 1" by simp
      with body have "\<exists>d v. f frameLen (Suc n) t (osccal + 1) d v = Some y"
        by (simp add: Let_def split: if_splits) blast+
      with IH \<open>254 \<le> unat t\<close> show False by blast
    qed
  qed
  with assms have "cal_neighbours frameLen n trialValue osccal optimumDev optimumValue \<noteq> Some y" for y
    by blast
  then show ?thesis by (cases "cal_neighbours frameLen n trialValue osccal optimumDev optimumValue") auto
qed

text \<open>Three settings are measured when the loop ends.\<close>

definition deviation :: "(u8 \<Rightarrow> u16) \<Rightarrow> u8 \<Rightarrow> int" where
  "deviation g v =
     (let x = g v - of_int targetValue in sint (if sint x < 0 then - x else x))"

definition better :: "(u8 \<Rightarrow> u16) \<Rightarrow> u8 \<Rightarrow> int \<times> u8 \<Rightarrow> int \<times> u8" where
  "better g v best = (if deviation g v < fst best then (deviation g v, v) else best)"

lemma cal_neighbours_step:
  "cal_neighbours (\<lambda>n. g) n t v d w =
     (if uint v \<le> uint t + 1
      then cal_neighbours (\<lambda>n. g) (Suc n) t (v + 1) (fst (better g v (d, w))) (snd (better g v (d, w)))
      else Some w)"
  by (subst cal_neighbours.simps) (simp add: better_def deviation_def Let_def)

lemma cal_neighbours_three:
  assumes "1 \<le> unat t" "unat t \<le> 253"
  shows "cal_neighbours (\<lambda>n. g) n t (t - 1) d w =
           Some (snd (better g (t + 1) (better g t (better g (t - 1) (d, w)))))"
proof -
  have u: "uint v = int (unat v)" for v :: u8 by simp
  have "unat (t - 1) = unat t - 1" using assms by (subst unat_sub) (simp_all add: word_le_nat_alt)
  moreover have "unat (t + 1) = unat t + 1" by (subst unat_inc_less [of _ 254]) (use assms in simp_all)
  moreover from this have "unat (t + 1 + 1) = unat t + 2"
    by (subst unat_inc_less [of _ 255]) (use assms in simp_all)
  ultimately have "uint (t - 1) \<le> uint t + 1" "uint t \<le> uint t + 1" "uint (t + 1) \<le> uint t + 1"
    "\<not> uint (t + 1 + 1) \<le> uint t + 1"
    unfolding u using assms by linarith+
  then show ?thesis
    by (simp add: cal_neighbours_step [of g _ _ "t - 1"] cal_neighbours_step [of g _ _ t]
        cal_neighbours_step [of g _ _ "t + 1"] cal_neighbours_step [of g _ _ "2 + t"])
qed

section \<open>The binary search\<close>

text \<open>
  \<open>g\<close> is the frame length as a function of the setting; nothing is assumed of it. The search ends
  at a crossing: a setting that reads too low, or the lowest one, whose successor does not, or
  does not exist.
\<close>

abbreviation low :: "(u8 \<Rightarrow> u16) \<Rightarrow> u8 \<Rightarrow> bool" where
  "low g v \<equiv> sint (g v) < targetValue"

lemma cal_search_crosses:
  assumes "step = 2 ^ k" "k < 8" "t = 0 \<or> low g t"
    and "unat t + 2 ^ Suc k = 256 \<or> unat t + 2 ^ Suc k < 256 \<and> \<not> low g (t + 2 ^ Suc k)"
  shows "\<exists>t' x m. cal_search (\<lambda>n. g) n step t = (t', x, m) \<and>
     (t' = 0 \<or> low g t') \<and> (unat t' = 255 \<or> \<not> low g (t' + 1)) \<and>
     (x = sint (g t') \<and> t' \<noteq> 0 \<or> x = sint (g (t' + 1)) \<and> unat t' < 255)"
  using assms
proof (induction k arbitrary: n step t)
  case 0
  then have t1: "unat (t + 1) = Suc (unat t)"
    by (subst unat_inc_less [of _ 255]) auto
  then have "t + 1 \<noteq> 0" by auto
  show ?case
  proof (cases "low g (t + 1)")
    case True
    moreover have "unat (t + 1) = 255 \<or> \<not> low g (t + 1 + 1)" using 0(4) t1 by (auto simp: add.assoc)
    ultimately show ?thesis
      using 0(1) \<open>t + 1 \<noteq> 0\<close> by (subst cal_search.simps) (auto simp: Let_def)
  next
    case False
    moreover have "unat t < 255" using 0(4) by auto
    ultimately show ?thesis
      using 0(1,3) by (subst cal_search.simps) (auto simp: Let_def)
  qed
next
  case (Suc k)
  have step: "unat step = 2 ^ Suc k" "drop_bit 1 step = 2 ^ k" "0 < (2 :: u8) ^ k"
  proof -
    have "k < 7" using Suc.prems by simp
    then have "k \<in> {0, 1, 2, 3, 4, 5, 6}" by auto
    then show "unat step = 2 ^ Suc k" "drop_bit 1 step = 2 ^ k" "0 < (2 :: u8) ^ k"
      using Suc.prems(1) by (auto simp: drop_bit_eq_div)
  qed
  have "0 < (2 :: nat) ^ Suc k" by simp
  then have room: "unat t + 2 ^ Suc k < 256" using Suc.prems(4) unfolding power_Suc [of _ "Suc k"] by linarith
  then have ts: "unat (t + step) = unat t + 2 ^ Suc k"
    using step by (subst unat_add_lem [THEN iffD1]) simp_all
  have twice: "t + step + 2 ^ Suc k = t + 2 ^ Suc (Suc k)" using Suc.prems(1) by simp
  let ?t = "if low g (t + step) then t + step else t"
  have "?t = 0 \<or> low g ?t" using Suc.prems(3) by simp
  moreover have "unat ?t + 2 ^ Suc k = 256 \<or> unat ?t + 2 ^ Suc k < 256 \<and> \<not> low g (?t + 2 ^ Suc k)"
    using Suc.prems(1,4) ts room twice by (auto simp: add.commute)
  ultimately show ?case
    using Suc.IH [of "2 ^ k" ?t "Suc n"] Suc.prems(2) step by (subst cal_search.simps) (simp add: Let_def)
qed

lemma calibrate_search:
  "\<exists>t x m. calibrateOscillator (\<lambda>n. g) s =
       map_option (\<lambda>w. s\<lparr>hw := (hw s)\<lparr>OSCCAL := w\<rparr>\<rparr>) (cal_neighbours (\<lambda>n. g) m t (t - 1) x t) \<and>
     (t = 0 \<or> low g t) \<and> (unat t = 255 \<or> \<not> low g (t + 1)) \<and>
     (x = sint (g t) \<and> t \<noteq> 0 \<or> x = sint (g (t + 1)) \<and> unat t < 255)"
proof -
  obtain t x m where "cal_search (\<lambda>n. g) 0 128 0 = (t, x, m)"
    "t = 0 \<or> low g t" "unat t = 255 \<or> \<not> low g (t + 1)"
    "x = sint (g t) \<and> t \<noteq> 0 \<or> x = sint (g (t + 1)) \<and> unat t < 255"
    using cal_search_crosses [of 128 7 0 g 0] by auto
  then show ?thesis
    by (intro exI [of _ t] exI [of _ x] exI [of _ m])
      (simp add: calibrateOscillator_def map_option_case bind_def split: option.split)
qed

text \<open>The deviation does not wrap for frame lengths above half the target.\<close>

lemma deviation_exact:
  assumes "targetValue < 2 * sint (g v)"
  shows "deviation g v = \<bar>sint (g v) - targetValue\<bar>"
proof -
  have "sint (g v) < 2 ^ 15" using sint_less [of "g v"] by simp
  moreover have "0 \<le> sint (g v)" using assms by (simp add: targetValue_eq)
  moreover have s: "sint (of_int n :: u16) = n" if "- (2 ^ 15) \<le> n" "n < 2 ^ 15" for n
    using that by (subst sint_sbintrunc') (simp add: signed_take_bit_int_eq_self)
  moreover have "g v - of_int targetValue = of_int (sint (g v) - targetValue)" by simp
  moreover have "- (of_int n :: u16) = of_int (- n)" for n by simp
  ultimately have "sint (g v - of_int targetValue) = sint (g v) - targetValue"
    "sint (- (g v - of_int targetValue)) = targetValue - sint (g v)"
    using s [of "sint (g v) - targetValue"] s [of "- (sint (g v) - targetValue)"] by (simp_all add: targetValue_eq)
  then show ?thesis unfolding deviation_def Let_def by (simp split: if_split)
qed

section \<open>Properties\<close>

text \<open>
  C37. What the calibration finds, for every frame length \<open>g\<close> as a function of the setting, rising
  or not (the oscillator's range has two overlapping halves): the search stops at a setting \<open>t\<close>
  that measures too short, or at 0, while the next one does not, or \<open>t\<close> is 255. When \<open>t\<close> is 254 or
  255 the neighbourhood loop, which compares an 8-bit register with a limit of up to 256, never
  ends: it does not have to be that 255 is needed. Otherwise the calibration returns and changes
  \<open>OSCCAL\<close> only. When \<open>t\<close> is not 0 and no frame measures less than half the target, the new
  setting is the best of \<open>t\<close> and its two neighbours.
\<close>
theorem calibration_result:
  "\<exists>t. (t = 0 \<or> sint (g t) < targetValue) \<and> (unat t = 255 \<or> targetValue \<le> sint (g (t + 1))) \<and>
     (if 254 \<le> unat t then calibrateOscillator (\<lambda>n. g) s = None
      else \<exists>v. calibrateOscillator (\<lambda>n. g) s = Some (s\<lparr>hw := (hw s)\<lparr>OSCCAL := v\<rparr>\<rparr>) \<and>
        (t \<noteq> 0 \<and> (\<forall>u. targetValue < 2 * sint (g u)) \<longrightarrow>
           v \<in> {t - 1, t, t + 1} \<and>
           (\<forall>w \<in> {t - 1, t, t + 1}. \<bar>sint (g v) - targetValue\<bar> \<le> \<bar>sint (g w) - targetValue\<bar>)))"
proof -
  obtain t x m where c: "calibrateOscillator (\<lambda>n. g) s =
      map_option (\<lambda>w. s\<lparr>hw := (hw s)\<lparr>OSCCAL := w\<rparr>\<rparr>) (cal_neighbours (\<lambda>n. g) m t (t - 1) x t)"
    and t: "t = 0 \<or> low g t" "unat t = 255 \<or> \<not> low g (t + 1)"
    and x: "x = sint (g t) \<and> t \<noteq> 0 \<or> x = sint (g (t + 1)) \<and> unat t < 255"
    using calibrate_search [of g s] by blast
  consider "254 \<le> unat t" | "1 \<le> unat t" "unat t \<le> 253" | "t = 0"
    using unat_gt_0 [of t] by linarith
  then show ?thesis
  proof cases
    case 1
    then show ?thesis using c t by (intro exI [of _ t]) (auto simp: cal_neighbours_hangs not_less)
  next
    case 2
    let ?r = "snd (better g (t + 1) (better g t (better g (t - 1) (x, t))))"
    have "calibrateOscillator (\<lambda>n. g) s = Some (s\<lparr>hw := (hw s)\<lparr>OSCCAL := ?r\<rparr>\<rparr>)"
      using c cal_neighbours_three [OF 2] by simp
    moreover have "?r \<in> {t - 1, t, t + 1}" by (simp add: better_def)
    moreover have "\<forall>w \<in> {t - 1, t, t + 1}. \<bar>sint (g ?r) - targetValue\<bar> \<le> \<bar>sint (g w) - targetValue\<bar>"
      if half: "\<forall>u. targetValue < 2 * sint (g u)"
    proof -
      have dev: "\<bar>sint (g u) - targetValue\<bar> = deviation g u" for u
        using deviation_exact [of g u] half by simp
      have "sint (g t) < targetValue" "targetValue \<le> sint (g (t + 1))" using t 2 by auto
      then have "deviation g t < x \<or> deviation g (t + 1) < x"
        using x half by (auto simp: dev [symmetric] targetValue_eq abs_if)
      then show ?thesis unfolding dev by (auto simp: better_def)
    qed
    ultimately show ?thesis using t 2 by (intro exI [of _ t]) (auto simp: not_less)
  next
    case 3
    have "uint (- 1 :: u8) = 255"
      by (simp add: unsigned_minus_1_eq_mask mask_eq_exp_minus_1)
    then have "cal_neighbours (\<lambda>n. g) m t (t - 1) x t = Some t"
      using 3 by (subst cal_neighbours.simps) simp
    then show ?thesis using c t(2) 3 by (intro exI [of _ t]) (auto simp: not_less)
  qed
qed

text \<open>Frame lengths from 2228 to 2483 with the target, 2356, at the setting 128.\<close>

theorem calibration_result_witness:
  "calibrateOscillator (\<lambda>n v. of_nat (2228 + unat v)) (fw_init avr_reset) =
     Some ((fw_init avr_reset)\<lparr>hw := avr_reset\<lparr>OSCCAL := 128\<rparr>\<rparr>)"
proof -
  let ?g = "\<lambda>v :: u8. of_nat (2228 + unat v) :: u16"
  have g: "sint (?g v) = 2228 + int (unat v)" for v
  proof -
    have "?g v = of_int (2228 + int (unat v))" by (simp only: of_int_add of_int_of_nat_eq of_nat_add) simp
    then show ?thesis
      using uint_bounded [of v]
      by (simp only:) (subst sint_sbintrunc', simp add: signed_take_bit_int_eq_self)
  qed
  have half: "\<forall>u. targetValue < 2 * sint (?g u)" unfolding g targetValue_eq
    using uint_ge_0 by (auto simp: add_pos_nonneg)
  obtain t where t: "t = 0 \<or> sint (?g t) < targetValue" "unat t = 255 \<or> targetValue \<le> sint (?g (t + 1))"
    and r: "if 254 \<le> unat t then calibrateOscillator (\<lambda>n. ?g) (fw_init avr_reset) = None
      else \<exists>v. calibrateOscillator (\<lambda>n. ?g) (fw_init avr_reset) =
          Some ((fw_init avr_reset)\<lparr>hw := (hw (fw_init avr_reset))\<lparr>OSCCAL := v\<rparr>\<rparr>) \<and>
        (t \<noteq> 0 \<and> (\<forall>u. targetValue < 2 * sint (?g u)) \<longrightarrow>
           v \<in> {t - 1, t, t + 1} \<and>
           (\<forall>w \<in> {t - 1, t, t + 1}. \<bar>sint (?g v) - targetValue\<bar> \<le> \<bar>sint (?g w) - targetValue\<bar>))"
    using calibration_result [of ?g "fw_init avr_reset"] by blast
  have "int (unat t) < 128" using t(1) unfolding g targetValue_eq by auto
  then have "unat t < 128" by linarith
  moreover from this have t1: "unat (t + 1) = Suc (unat t)" by (subst unat_inc_less [of _ 128]) simp_all
  ultimately have t127: "unat t = 127" using t(2) unfolding g unfolding targetValue_eq t1 by linarith
  then have tt: "t = 127" by (simp add: word_unat_eq_iff)
  obtain v where v: "calibrateOscillator (\<lambda>n. ?g) (fw_init avr_reset) =
          Some ((fw_init avr_reset)\<lparr>hw := (hw (fw_init avr_reset))\<lparr>OSCCAL := v\<rparr>\<rparr>)"
    "\<forall>w \<in> {t - 1, t, t + 1}. \<bar>sint (?g v) - targetValue\<bar> \<le> \<bar>sint (?g w) - targetValue\<bar>"
    using r half t127 by (auto simp: tt)
  have "\<bar>2228 + int (unat v) - 2356\<bar> \<le> \<bar>2228 + int (unat (t + 1)) - 2356\<bar>"
    using v(2) unfolding g targetValue_eq by blast
  then have "unat v = 128" unfolding t1 t127 by linarith
  then have "v = 128" by (simp add: word_unat_eq_iff)
  moreover have "hw (fw_init avr_reset) = avr_reset" by (simp add: fw_init_def)
  ultimately show ?thesis using v(1) by simp
qed

text \<open>A device whose frames always measure too short hangs.\<close>

lemma calibration_hangs_example: "calibrateOscillator (\<lambda>n v. 0) s = None"
proof -
  obtain t x m where c: "calibrateOscillator (\<lambda>n v. 0) s =
      map_option (\<lambda>w. s\<lparr>hw := (hw s)\<lparr>OSCCAL := w\<rparr>\<rparr>) (cal_neighbours (\<lambda>n v. 0) m t (t - 1) x t)"
    and t: "unat t = 255 \<or> \<not> low (\<lambda>v. 0) (t + 1)" using calibrate_search [of "\<lambda>v. 0" s] by blast
  then have "unat t = 255" by (simp add: targetValue_eq)
  then show ?thesis using c by (simp add: cal_neighbours_hangs)
qed

end
