(* ===== verification/Fw_Main.thy ===== *)
theory Fw_Main
  imports Fw_Isr Usb_Transceiver Fw_Calibrate
begin

unbundle bit_operations_syntax

text \<open>
  \<open>main\<close> of \<open>firmware/src/main.c\<close>: the initialisation and one turn of its endless loop. A turn
  polls the USB line for a packet (5500 times at most), runs the state machine of the transfer
  when no packet came, and then serves the USB driver.

  What the turn finds on the pins and on the bus is its environment \<open>main_env\<close>: whether a USB
  line is high and whether the pin-change flag is set at the \<open>i\<close>-th poll, the packets the
  receive routine takes, and the frame lengths a calibration would measure.
\<close>

section \<open>Initialisation\<close>

text \<open>\<open>v\<close> is the converter's answer to the first conversion, which \<open>_adcInit\<close> throws away.\<close>

definition fw_setup :: "u8 \<Rightarrow> fw \<Rightarrow> fw" where
  "fw_setup v s =
     (let s = s\<lparr>hw := (hw s)\<lparr>PLLCSR := PLLCSR (hw s) - {PCKE}\<rparr>\<rparr>;
          s = s\<lparr>hw := usbDeviceDisconnect (hw s)\<rparr>;
          s = s\<lparr>hw := usbDeviceConnect (hw s)\<rparr>;
          s = usbInit s;
          s = s\<lparr>hw := PIO_SET_INPUT PIO_COIL_PIN (hw s)\<rparr>;
          s = s\<lparr>hw := PIO_SET_LOW PIO_COIL_PIN (hw s)\<rparr>;
          s = s\<lparr>hw := coilInit (hw s)\<rparr>;
          s = s\<lparr>hw := prescallerInit (hw s)\<rparr>
      in s\<lparr>hw := adcInit v (hw s)\<rparr>)"

definition main_start :: "u8 \<Rightarrow> fw \<Rightarrow> fw" where
  "main_start v s =
     (let s = s\<lparr>hw := (hw s)\<lparr>irqs_enabled := False\<rparr>\<rparr>;
          s = fw_setup v s
      in s\<lparr>hw := coilStart (hw s)\<rparr>)"

section \<open>Waiting for a packet\<close>

record main_env =
  line_high :: "nat \<Rightarrow> bool"
  pin_change :: "nat \<Rightarrow> bool"
  packets :: "u8 list list"
  frame_length :: "nat \<Rightarrow> u8 \<Rightarrow> u16"

text \<open>
  The inner \<open>do\<close> loop. \<open>fastctr\<close> counts down from 5500, \<open>i\<close> counts the turns up. It ends with the
  value of \<open>fastctr\<close> (0 exactly when no packet came), the state and the answers sent; \<open>None\<close>
  when a calibration does not return.
\<close>

definition fastctr_init :: nat where
  "fastctr_init = nat (F_CPU div 3000)"

fun fast_loop ::
  "main_env \<Rightarrow> nat \<Rightarrow> nat \<Rightarrow> u8 \<Rightarrow> fw \<Rightarrow> (nat \<times> fw \<times> usb_answer list) option" where
  "fast_loop env 0 i resetctr s = Some (0, s, [])"
| "fast_loop env (Suc fastctr) i resetctr s = do {
     let resetctr = (if line_high env i then 100 else resetctr);
     let resetctr = resetctr - 1;
     s \<leftarrow> (if resetctr = 0
           then calibrateOscillator (frame_length env)
                  (upd_usb (\<lambda>u. u\<lparr>usbNewDeviceAddr := 0, usbDeviceAddr := 0\<rparr>) s)
           else Some s);
     if pin_change env i
     then (let (u, as) = USB_INTR_VECTOR (packets env) (usb s);
               s = s\<lparr>usb := u\<rparr>;
               s = s\<lparr>hw := write_GIFR {PCIF} (hw s)\<rparr>
           in Some (Suc fastctr, s, as))
     else fast_loop env fastctr (Suc i) resetctr s
   }"

section \<open>State changes of the transfer\<close>

definition start_transfer :: "fw \<Rightarrow> fw" where
  "start_transfer s =
     (let s = s\<lparr>opOffset := 0\<rparr>;
          s = s\<lparr>opLength := of_nat SAMPLE_BUFFER_SIZE\<rparr>;
          s = (if tx (ctx s) then s\<lparr>opLength := opLength s * 2\<rparr>
               else s\<lparr>opLength := opLength s * 8\<rparr>);
          s = s\<lparr>adcLastSignal := - 1\<rparr>;
          s = (if edgeStart (ctx s) then set_state STATE_WAIT_CONDITION s
               else if tx (ctx s) then set_state STATE_TX s
               else set_state STATE_RX s);
          s = s\<lparr>hw := (hw s)\<lparr>irqs_enabled := True\<rparr>\<rparr>;
          s = s\<lparr>hw := adcStart (hw s)\<rparr>
      in if fw_state s = STATE_WAIT_CONDITION
         then s\<lparr>hw := prescallerStart False PRESCALER_MINIMAL_VALUE False (hw s)\<rparr>
         else s\<lparr>hw := prescallerStart (tx (ctx s)) (prescalerValue (ctx s)) True (hw s)\<rparr>)"

definition finish_transfer :: "fw \<Rightarrow> fw" where
  "finish_transfer s =
     (let s = s\<lparr>hw := (hw s)\<lparr>irqs_enabled := False\<rparr>\<rparr>;
          s = s\<lparr>hw := prescallerStop (hw s)\<rparr>;
          s = s\<lparr>hw := adcStop (hw s)\<rparr>
      in set_state STATE_IDLE s)"

definition transfer_step :: "fw \<Rightarrow> fw" where
  "transfer_step s =
     (case fw_state s of
        STATE_STARTING \<Rightarrow> start_transfer s
      | STATE_FINISHED \<Rightarrow> finish_transfer s
      | _ \<Rightarrow> s)"

section \<open>One turn of the loop\<close>

datatype main_result =
    Running fw "usb_answer list"
  | Jump_To_Bootloader fw
  | Hangs
  | Memory_Fault

definition serve_usb :: "fw \<Rightarrow> fw option" where
  "serve_usb s = do {
     s \<leftarrow> poll_rx 1 s;
     poll_tx s
   }"

text \<open>
  The last block of the turn waits for the bus to become idle when a packet collided with the
  polling and clears the flag; \<open>collided\<close> is the value of the flag there.
\<close>

definition main_turn :: "main_env \<Rightarrow> bool \<Rightarrow> fw \<Rightarrow> main_result" where
  "main_turn env collided s =
     (case fast_loop env fastctr_init 0 100 s of
        None \<Rightarrow> Hangs
      | Some (fastctr, s, as) \<Rightarrow>
          if fastctr = 0 \<and> command s = PROTO_CMD_RESET
          then Jump_To_Bootloader (s\<lparr>hw := (hw s)\<lparr>CLKPR := 0\<rparr>\<rparr>)
          else (case serve_usb (if fastctr = 0 then transfer_step s else s) of
                  None \<Rightarrow> Memory_Fault
                | Some s \<Rightarrow>
                    Running (if collided then s\<lparr>hw := write_GIFR {PCIF} (hw s)\<rparr> else s) as))"

end
