(* ===== verification/Fw_Sampler.thy ===== *)
theory Fw_Sampler
  imports Fw_Isr
begin

unbundle bit_operations_syntax

text \<open>
  What the sampler does over a whole acquisition. A sequence of conversion results is given to
  \<open>ADC_vect\<close> one by one; the abstract view is a comparator with hysteresis (\<open>levels\<close>) whose
  outputs become the bits of \<open>ioBuffer\<close>, and an edge detector with a time limit before that.
\<close>

section \<open>The comparator\<close>

definition comparator :: "u8 \<Rightarrow> u8 \<Rightarrow> u8 \<Rightarrow> u8 \<Rightarrow> u8" where
  "comparator hi lo prev v = (if hi \<le> v then 0 else if v \<le> lo then 1 else prev)"

fun levels :: "u8 \<Rightarrow> u8 \<Rightarrow> u8 \<Rightarrow> u8 list \<Rightarrow> u8 list" where
  "levels hi lo prev [] = []"
| "levels hi lo prev (v # vs) =
     (let l = comparator hi lo prev v in l # levels hi lo l vs)"

lemma length_levels [simp]: "length (levels hi lo prev vs) = length vs"
  by (induction vs arbitrary: prev) (simp_all add: Let_def)

section \<open>Runs of the interrupt handler\<close>

definition adc_sample :: "u8 \<Rightarrow> fw \<Rightarrow> fw option" where
  "adc_sample v s = ADC_vect (s\<lparr>hw := (hw s)\<lparr>ADCH := v\<rparr>\<rparr>)"

fun adc_run :: "u8 list \<Rightarrow> fw \<Rightarrow> fw option" where
  "adc_run [] s = Some s"
| "adc_run (v # vs) s = do { s \<leftarrow> adc_sample v s; adc_run vs s }"

text \<open>The state after the handler has taken the sample and before it acts on it.\<close>

definition sampled :: "u8 \<Rightarrow> fw \<Rightarrow> fw" where
  "sampled v s =
     s\<lparr>hw := TIFR_or {OCF0A} ((hw s)\<lparr>ADCH := v\<rparr>),
       adcLastSignal := comparator (adcHiVal s) (adcLowVal s) (adcLastSignal s) v\<rparr>"

lemma adc_sample_eq:
  "adc_sample v s =
     (if fw_state s = STATE_WAIT_CONDITION
      then Some (adc_wait_condition (adcLastSignal s) (sampled v s))
      else adc_store (sampled v s))"
proof -
  have "ADCH (TIFR_or m h) = ADCH h" for m h
    by (simp add: TIFR_or_def write_TIFR_def)
  then have "adc_classify (s\<lparr>hw := TIFR_or {OCF0A} ((hw s)\<lparr>ADCH := v\<rparr>)\<rparr>) = sampled v s"
    by (simp add: adc_classify_def sampled_def comparator_def)
  then show ?thesis by (simp add: adc_sample_def ADC_vect_cases)
qed

lemma sampled_simps [simp]:
  "ctx (sampled v s) = ctx s"
  "usb (sampled v s) = usb s"
  "command (sampled v s) = command s"
  "response (sampled v s) = response s"
  "sampleVector (sampled v s) = sampleVector s"
  "ioBuffer (sampled v s) = ioBuffer s"
  "ioBufferOffset (sampled v s) = ioBufferOffset s"
  "opLength (sampled v s) = opLength s"
  "opOffset (sampled v s) = opOffset s"
  "adcLowVal (sampled v s) = adcLowVal s"
  "adcHiVal (sampled v s) = adcHiVal s"
  "adcLastSignal (sampled v s) = comparator (adcHiVal s) (adcLowVal s) (adcLastSignal s) v"
  by (simp_all add: sampled_def)

section \<open>Storing samples\<close>

definition store_sample :: "fw \<Rightarrow> fw" where
  "store_sample s =
     (let off = unat (opOffset s);
          s = s\<lparr>ioBuffer := (ioBuffer s)[off div 8 :=
                  with_bit (ioBuffer s ! (off div 8)) (off mod 8) (adcLastSignal s \<noteq> 0)],
                opOffset := opOffset s + 1\<rparr>
      in if opOffset s = opLength s
         then set_state STATE_FINISHED (s\<lparr>hw := prescallerStop (hw s)\<rparr>) else s)"

lemma adc_store_eq:
  "adc_store s =
     (if unat (opOffset s) < 8 * length (ioBuffer s) then Some (store_sample s) else None)"
proof -
  have "unat (opOffset s div 8) = unat (opOffset s) div 8" "unat (opOffset s mod 8) = unat (opOffset s) mod 8"
    by (simp_all add: unat_div unat_mod)
  then show ?thesis
    by (auto simp: adc_store_def store_sample_def with_bit_def Let_def rd_def wr_def
        div_less_iff_less_mult mult.commute)
qed

text \<open>One sample of a reception with room for it.\<close>

lemma adc_sample_records:
  fixes s v
  defines "off \<equiv> unat (opOffset s)" and "l \<equiv> comparator (adcHiVal s) (adcLowVal s) (adcLastSignal s) v"
    and "t \<equiv> store_sample (sampled v s)"
  assumes "fw_state s = STATE_RX" "length (ioBuffer s) = SAMPLE_BUFFER_SIZE" "off < 8 * SAMPLE_BUFFER_SIZE"
  shows "adc_sample v s = Some t"
    and "bits_of_bytes (ioBuffer t) = (bits_of_bytes (ioBuffer s))[off := (l \<noteq> 0)]"
    and "unat (opOffset t) = Suc off"
    and "fw_state t = (if Suc off = unat (opLength s) then STATE_FINISHED else STATE_RX)"
    and "Suc off = unat (opLength s) \<Longrightarrow> \<not> timer_running (hw t)"
    and "adcHiVal t = adcHiVal s" "adcLowVal t = adcLowVal s" "adcLastSignal t = l"
      "opLength t = opLength s" "length (ioBuffer t) = length (ioBuffer s)"
      "sampleVector t = sampleVector s" "usb t = usb s"
proof -
  have inc: "unat (opOffset s + 1) = Suc off"
    using assms(6) unfolding off_def by (intro unat_inc_less [of _ "8 * SAMPLE_BUFFER_SIZE"]) simp_all
  then have "(opOffset s + 1 = opLength s) = (Suc off = unat (opLength s))"
    by (metis word_unat_eq_iff)
  then show "fw_state t = (if Suc off = unat (opLength s) then STATE_FINISHED else STATE_RX)"
      "unat (opOffset t) = Suc off" "Suc off = unat (opLength s) \<Longrightarrow> \<not> timer_running (hw t)"
    using assms(4) inc by (simp_all add: t_def store_sample_def Let_def timer_running_def prescallerStop_def)
  show "adc_sample v s = Some t"
    using assms(4-6) by (simp add: t_def off_def adc_sample_eq adc_store_eq)
  show "bits_of_bytes (ioBuffer t) = (bits_of_bytes (ioBuffer s))[off := (l \<noteq> 0)]"
    using assms(5,6) by (simp add: t_def off_def l_def store_sample_def Let_def bits_of_bytes_update)
qed (simp_all add: t_def l_def store_sample_def Let_def)

lemma adc_run_records:
  assumes "fw_state s = STATE_RX"
    and "length (ioBuffer s) = SAMPLE_BUFFER_SIZE"
    and "unat (opOffset s) + length vs \<le> unat (opLength s)"
    and "unat (opLength s) \<le> 8 * SAMPLE_BUFFER_SIZE"
  shows "\<exists>s'. adc_run vs s = Some s' \<and>
      bits_of_bytes (ioBuffer s') =
        take (unat (opOffset s)) (bits_of_bytes (ioBuffer s))
        @ map (\<lambda>l. l \<noteq> 0) (levels (adcHiVal s) (adcLowVal s) (adcLastSignal s) vs)
        @ drop (unat (opOffset s) + length vs) (bits_of_bytes (ioBuffer s)) \<and>
      length (ioBuffer s') = SAMPLE_BUFFER_SIZE \<and>
      unat (opOffset s') = unat (opOffset s) + length vs \<and>
      fw_state s' = (if vs \<noteq> [] \<and> unat (opOffset s) + length vs = unat (opLength s)
                     then STATE_FINISHED else STATE_RX) \<and>
      (fw_state s' = STATE_FINISHED \<longrightarrow> \<not> timer_running (hw s')) \<and>
      sampleVector s' = sampleVector s \<and> usb s' = usb s"
  using assms
proof (induction vs arbitrary: s)
  case Nil
  then show ?case by simp
next
  case (Cons v vs)
  let ?off = "unat (opOffset s)"
  let ?l = "comparator (adcHiVal s) (adcLowVal s) (adcLastSignal s) v"
  let ?s = "store_sample (sampled v s)"
  have off: "?off < 8 * SAMPLE_BUFFER_SIZE" using Cons.prems by simp
  note sample = adc_sample_records [OF Cons.prems(1,2) off, of v]
  note step = sample(1) and bits = sample(2) and off' = sample(3) and state = sample(4) and stop = sample(5)
    and same = sample(6-12)
  have len: "?off < length (bits_of_bytes (ioBuffer s))" using off Cons.prems(2) by simp
  show ?case
  proof (cases "Suc ?off = unat (opLength s)")
    case True
    with Cons.prems(3) have "length vs = 0" by (simp only: length_Cons)
    then have "vs = []" by simp
    with True show ?thesis
      using step state off' stop same bits Cons.prems(2) len
      by (simp add: upd_conv_take_nth_drop Let_def)
  next
    case False
    with state have rx: "fw_state ?s = STATE_RX" by simp
    have full: "vs \<noteq> []" if "Suc (?off + length vs) = unat (opLength s)"
      using that False by auto
    have "take (Suc ?off) ((bits_of_bytes (ioBuffer s))[?off := (?l \<noteq> 0)]) =
        take ?off (bits_of_bytes (ioBuffer s)) @ [?l \<noteq> 0]"
      using len by (simp add: take_Suc_conv_app_nth)
    then show ?thesis
      using Cons.IH [OF rx] Cons.prems step state off' same bits False full
      by (auto simp: Let_def drop_update_cancel)
  qed
qed

section \<open>Waiting for the edge\<close>

definition edge :: "bool \<Rightarrow> u8 \<Rightarrow> u8 \<Rightarrow> bool" where
  "edge falling old new \<longleftrightarrow> (if falling then old \<noteq> 0 \<and> new = 0 else old = 0 \<and> new \<noteq> 0)"

text \<open>The number of samples before the one that completes the first edge.\<close>

fun first_edge :: "bool \<Rightarrow> u8 \<Rightarrow> u8 list \<Rightarrow> nat option" where
  "first_edge falling prev [] = None"
| "first_edge falling prev (l # ls) =
     (if edge falling prev l then Some 0 else map_option Suc (first_edge falling l ls))"

definition edge_after :: "fw \<Rightarrow> u8 list \<Rightarrow> nat option" where
  "edge_after s vs =
     first_edge (fallingEdge (ctx s)) (adcLastSignal s)
       (levels (adcHiVal s) (adcLowVal s) (adcLastSignal s) vs)"

lemma edge_after_Nil [simp]: "edge_after s [] = None"
  by (simp add: edge_after_def)

definition begin_transfer :: "fw \<Rightarrow> fw" where
  "begin_transfer s =
     (let h = prescallerStop (hw s)
      in if tx (ctx s)
         then set_state STATE_TX
                (s\<lparr>hw := prescallerStart True (prescalerValue (ctx s)) (prescalerCompOnStart (ctx s)) (adcStop h)\<rparr>)
         else set_state STATE_RX
                (s\<lparr>hw := prescallerStart False (prescalerValue (ctx s)) (prescalerCompOnStart (ctx s)) h\<rparr>))"

definition wait_timed_out :: "fw \<Rightarrow> fw" where
  "wait_timed_out s =
     s\<lparr>ctx := (ctx s)\<lparr>state := STATE_FINISHED, timedOut := True\<rparr>, hw := prescallerStop (hw s)\<rparr>"

definition wait_longer :: "fw \<Rightarrow> fw" where
  "wait_longer s = s\<lparr>ctx := (ctx s)\<lparr>timeout := timeout (ctx s) - 1\<rparr>\<rparr>"

lemma adc_wait_condition_eq:
  assumes "fw_state s = STATE_WAIT_CONDITION"
  shows "adc_wait_condition old s =
     (if edge (fallingEdge (ctx s)) old (adcLastSignal s) then begin_transfer s
      else if timeout (ctx s) \<noteq> 0 then wait_longer s else wait_timed_out s)"
  using assms
  by (auto simp: adc_wait_condition_def edge_def begin_transfer_def wait_timed_out_def
      wait_longer_def Let_def)

lemma adc_sample_wait:
  assumes "fw_state s = STATE_WAIT_CONDITION"
  shows "adc_sample v s =
     Some (if edge_after s [v] = Some 0 then begin_transfer (sampled v s)
           else if timeout (ctx s) \<noteq> 0 then wait_longer (sampled v s)
           else wait_timed_out (sampled v s))"
  using assms by (simp add: adc_sample_eq adc_wait_condition_eq edge_after_def)

lemma edge_after_Cons:
  "edge_after s (v # vs) =
     (if edge_after s [v] = Some 0 then Some 0
      else map_option Suc (edge_after (wait_longer (sampled v s)) vs))"
  by (simp add: edge_after_def wait_longer_def Let_def)

lemma wait_longer_state [simp]:
  "fw_state (wait_longer s) = fw_state s"
  "hw (wait_longer s) = hw s"
  "timeout (ctx (wait_longer s)) = timeout (ctx s) - 1"
  "tx (ctx (wait_longer s)) = tx (ctx s)"
  "timedOut (ctx (wait_longer s)) = timedOut (ctx s)"
  "opOffset (wait_longer s) = opOffset s"
  "ioBuffer (wait_longer s) = ioBuffer s"
  "opLength (wait_longer s) = opLength s"
  "sampleVector (wait_longer s) = sampleVector s"
  "adcHiVal (wait_longer s) = adcHiVal s" "adcLowVal (wait_longer s) = adcLowVal s"
  "fallingEdge (ctx (wait_longer s)) = fallingEdge (ctx s)"
  by (simp_all add: wait_longer_def)

text \<open>No edge within the time limit: one sample more than the limit ends the transfer.\<close>

lemma adc_run_timeout:
  assumes "fw_state s = STATE_WAIT_CONDITION"
    and "edge_after s vs = None"
    and "length vs = Suc (unat (timeout (ctx s)))"
  shows "\<exists>s'. adc_run vs s = Some s' \<and> fw_state s' = STATE_FINISHED \<and> timedOut (ctx s') \<and>
           opOffset s' = opOffset s \<and> ioBuffer s' = ioBuffer s \<and> \<not> timer_running (hw s')"
  using assms
proof (induction vs arbitrary: s)
  case Nil
  then show ?case by simp
next
  case (Cons v vs)
  let ?s = "wait_longer (sampled v s)"
  have none: "edge_after s [v] \<noteq> Some 0" "edge_after ?s vs = None"
    using Cons.prems(2) by (auto simp: edge_after_Cons [of s v vs] split: if_splits)
  show ?case
  proof (cases "timeout (ctx s) = 0")
    case True
    with Cons.prems(3) have "vs = []" by simp
    then show ?thesis
      using True none(1) Cons.prems(1)
      by (simp add: adc_sample_wait wait_timed_out_def timer_running_def prescallerStop_def Let_def)
  next
    case False
    then have "unat (timeout (ctx s) - 1) = unat (timeout (ctx s)) - 1"
      and "0 < unat (timeout (ctx s))"
      by (simp_all add: unat_minus_one unat_gt_0)
    then show ?thesis
      using Cons.IH [of ?s] Cons.prems none False by (simp add: adc_sample_wait)
  qed
qed

text \<open>An edge within the time limit: the sample that completes it starts the transfer.\<close>

lemma adc_run_edge:
  assumes "fw_state s = STATE_WAIT_CONDITION"
    and "edge_after s vs = Some i"
    and "i \<le> unat (timeout (ctx s))"
  shows "\<exists>s'. adc_run (take (Suc i) vs) s = Some s' \<and>
           fw_state s' = (if tx (ctx s) then STATE_TX else STATE_RX) \<and>
           timedOut (ctx s') = timedOut (ctx s) \<and>
           opOffset s' = opOffset s \<and> ioBuffer s' = ioBuffer s \<and>
           opLength s' = opLength s \<and> sampleVector s' = sampleVector s \<and>
           adcHiVal s' = adcHiVal s \<and> adcLowVal s' = adcLowVal s \<and>
           (fallingEdge (ctx s) \<longrightarrow> adcLastSignal s' = 0) \<and>
           TIMER_PRESCALER_T0 \<subseteq> TCCR0B (hw s') \<and>
           (tx (ctx s) \<longrightarrow> OCIE0A \<in> TIMSK (hw s') \<and> ADIE \<notin> ADCSRA (hw s'))"
  using assms
proof (induction vs arbitrary: s i)
  case Nil
  then show ?case by simp
next
  case (Cons v vs)
  let ?s = "wait_longer (sampled v s)"
  show ?case
  proof (cases "edge_after s [v] = Some 0")
    case True
    then have "i = 0" using Cons.prems(2) by (simp add: edge_after_Cons [of s v vs])
    then show ?thesis
      using True Cons.prems(1)
      by (auto simp: adc_sample_wait begin_transfer_def hw_defs Let_def edge_after_def edge_def split: if_splits)
  next
    case False
    then obtain j where j: "i = Suc j" "edge_after ?s vs = Some j"
      using Cons.prems(2) by (auto simp: edge_after_Cons [of s v vs])
    then have t: "timeout (ctx s) \<noteq> 0" using Cons.prems(3) by auto
    then have "unat (timeout (ctx s) - 1) = unat (timeout (ctx s)) - 1"
      by (simp add: unat_minus_one)
    then show ?thesis
      using Cons.IH [of ?s j] Cons.prems j t False by (simp add: adc_sample_wait)
  qed
qed

section \<open>Properties\<close>

text \<open>
  C7. While a reception runs, the interrupt handler turns each conversion result into one bit of
  \<open>ioBuffer\<close>, in order from \<open>opOffset\<close> on: the output of a comparator with hysteresis. No other
  bit of the buffer changes, no access leaves it, and the handler that stores the sample at
  \<open>opLength\<close> ends the transfer and stops the timer.
\<close>
theorem sampler_records:
  assumes "fw_state s = STATE_RX"
    and "length (ioBuffer s) = SAMPLE_BUFFER_SIZE"
    and "unat (opOffset s) + length vs \<le> unat (opLength s)"
    and "unat (opLength s) \<le> 8 * SAMPLE_BUFFER_SIZE"
  shows "\<exists>s'. adc_run vs s = Some s' \<and>
      bits_of_bytes (ioBuffer s') =
        take (unat (opOffset s)) (bits_of_bytes (ioBuffer s))
        @ map (\<lambda>l. l \<noteq> 0) (levels (adcHiVal s) (adcLowVal s) (adcLastSignal s) vs)
        @ drop (unat (opOffset s) + length vs) (bits_of_bytes (ioBuffer s)) \<and>
      unat (opOffset s') = unat (opOffset s) + length vs \<and>
      fw_state s' = (if vs \<noteq> [] \<and> unat (opOffset s) + length vs = unat (opLength s)
                     then STATE_FINISHED else STATE_RX) \<and>
      (fw_state s' = STATE_FINISHED \<longrightarrow> \<not> timer_running (hw s'))"
  using adc_run_records [OF assms] by blast

definition rx_example :: fw where
  "rx_example = set_state STATE_RX ((fw_init avr_reset)\<lparr>opLength := 1536, opOffset := 4\<rparr>)"

lemma rx_example_simps:
  "fw_state rx_example = STATE_RX" "length (ioBuffer rx_example) = 192"
  "opOffset rx_example = 4" "opLength rx_example = 1536" "adcHiVal rx_example = 249"
  "adcLowVal rx_example = 236" "adcLastSignal rx_example = 0"
  by (simp_all add: rx_example_def fw_init_def ADC_HI_value ADC_LO_value)

theorem sampler_records_witness:
  "\<exists>s'. adc_run [250, 240, 230, 240] rx_example = Some s' \<and>
     take 4 (drop 4 (bits_of_bytes (ioBuffer s'))) = [False, False, True, True] \<and>
     unat (opOffset s') = 8"
proof -
  have lv: "levels 249 236 0 [250, 240, 230, 240] = [0, 0, 1, 1]"
    by (simp add: comparator_def Let_def)
  have "length (take 4 (bits_of_bytes (ioBuffer rx_example))) = 4"
    by (simp add: rx_example_simps)
  with sampler_records [of rx_example "[250, 240, 230, 240]"] lv show ?thesis
    by (auto simp only: rx_example_simps list.size One_nat_def, auto)
qed

text \<open>
  C34. While the firmware waits for its start condition, the first edge of the wanted direction in
  the comparator's output starts the transfer, at the very sample that completes the edge, when
  it comes before the time limit: the buffer and the offset are untouched, the timer runs, and
  for a transmission its interrupt is on and the converter's off.
\<close>
theorem edge_starts_transfer:
  assumes "fw_state s = STATE_WAIT_CONDITION"
    and "edge_after s vs = Some i"
    and "i \<le> unat (timeout (ctx s))"
  shows "\<exists>s'. adc_run (take (Suc i) vs) s = Some s' \<and>
           fw_state s' = (if tx (ctx s) then STATE_TX else STATE_RX) \<and>
           opOffset s' = opOffset s \<and> ioBuffer s' = ioBuffer s \<and>
           TIMER_PRESCALER_T0 \<subseteq> TCCR0B (hw s') \<and>
           (tx (ctx s) \<longrightarrow> OCIE0A \<in> TIMSK (hw s') \<and> ADIE \<notin> ADCSRA (hw s'))"
  using adc_run_edge [OF assms] by blast

definition wait_example :: fw where
  "wait_example =
     (fw_init avr_reset)\<lparr>ctx := commonCtx_init\<lparr>state := STATE_WAIT_CONDITION, timeout := 3\<rparr>\<rparr>"

lemma wait_example_simps:
  "fw_state wait_example = STATE_WAIT_CONDITION" "timeout (ctx wait_example) = 3"
  "fallingEdge (ctx wait_example) = False" "tx (ctx wait_example) = False"
  "adcHiVal wait_example = 249" "adcLowVal wait_example = 236" "adcLastSignal wait_example = 0"
  by (simp_all add: wait_example_def fw_init_def commonCtx_init_def ADC_HI_value ADC_LO_value)

theorem edge_starts_transfer_witness:
  "\<exists>s'. adc_run [250, 255, 0] wait_example = Some s' \<and> fw_state s' = STATE_RX"
proof -
  have "edge_after wait_example [250, 255, 0] = Some (Suc (Suc 0))"
    by (simp add: edge_after_def edge_def comparator_def wait_example_simps Let_def)
  with edge_starts_transfer [of wait_example "[250, 255, 0]" "Suc (Suc 0)"] show ?thesis
    by (auto simp: wait_example_simps simp del: adc_run.simps)
qed

text \<open>When no such edge comes, the wait ends.\<close>

lemma adc_run_timeout_example:
  "\<exists>s'. adc_run [250, 240, 255, 251] wait_example = Some s' \<and> timedOut (ctx s')"
proof -
  have "edge_after wait_example [250, 240, 255, 251] = None"
    by (simp add: edge_after_def edge_def comparator_def wait_example_simps Let_def)
  with adc_run_timeout [of wait_example "[250, 240, 255, 251]"] show ?thesis
    by (auto simp: wait_example_simps simp del: adc_run.simps)
qed

end
