(* ===== verification/Fw_Transmitter.thy ===== *)
theory Fw_Transmitter
  imports Fw_Isr
begin

unbundle bit_operations_syntax

text \<open>
  What the transmitter does over a whole transfer. The nibbles of \<open>ioBuffer\<close> are pulses: the low
  three bits index the pulse widths in \<open>sampleVector\<close>, bit 3 is the level, and index 7 ends the
  sequence. Each compare-match interrupt sets up one pulse.
\<close>

section \<open>Pulses\<close>

type_synonym pulse = "bool \<times> u8"

text \<open>The level (released coil is high) and the compare value the handler programs.\<close>

definition pulse_of :: "u8 list \<Rightarrow> u8 \<Rightarrow> pulse" where
  "pulse_of widths p = (p AND 0x08 \<noteq> 0, widths ! unat (p AND 0x07) - 1)"

definition end_of_pulses :: "u8 \<Rightarrow> bool" where
  "end_of_pulses p \<longleftrightarrow> p AND 0x07 = 0x07"

definition pulse_program :: "fw \<Rightarrow> u8 list" where
  "pulse_program s =
     takeWhile (\<lambda>p. \<not> end_of_pulses p)
       (drop (unat (opOffset s)) (take (unat (opLength s)) (nibbles_of_bytes (ioBuffer s))))"

definition emitted :: "fw \<Rightarrow> pulse" where
  "emitted s = (\<not> coil_driven (hw s), OCR0A (hw s))"

text \<open>
  \<open>tx_run n\<close> gives the handler up to \<open>n\<close> interrupts and records the pulse each of them starts;
  the run ends with the interrupt that stops the transmitter.
\<close>

fun tx_run :: "nat \<Rightarrow> fw \<Rightarrow> (pulse list \<times> fw) option" where
  "tx_run 0 s = Some ([], s)"
| "tx_run (Suc n) s = do {
     s \<leftarrow> TIMER0_COMPA_vect s;
     if fw_state s = STATE_FINISHED then Some ([], s)
     else do {
       (ps, s') \<leftarrow> tx_run n s;
       Some (emitted s # ps, s')
     }
   }"

section \<open>One interrupt\<close>

lemma and_7_less: "unat (p AND 7 :: u8) < 8"
proof -
  have "p AND 7 \<le> 7" by (simp add: word_and_le1)
  then show ?thesis by (simp add: word_le_nat_alt)
qed

lemma not_end_index:
  assumes "\<not> end_of_pulses p"
  shows "unat (p AND 7) < 7"
proof -
  have "unat (p AND 7) \<noteq> 7"
    using assms by (simp add: end_of_pulses_def word_unat_eq_iff)
  with and_7_less [of p] show ?thesis by simp
qed

lemma nibble_at_offset:
  fixes off :: u16
  assumes "unat off < 2 * length buf"
  shows "rd buf (unat (drop_bit 1 off)) = Some (buf ! (unat off div 2))"
    and "(if off AND 1 \<noteq> 0 then drop_bit 4 (buf ! (unat off div 2)) else buf ! (unat off div 2) AND 0x0f) =
          nibbles_of_bytes buf ! unat off"
proof -
  have "unat (drop_bit 1 off) = unat off div 2"
    by (simp add: drop_bit_Suc unat_div)
  then show "rd buf (unat (drop_bit 1 off)) = Some (buf ! (unat off div 2))"
    using assms by (simp add: rd_in)
  have "(off AND 1 \<noteq> 0) = odd (unat off)"
    by (simp add: and_one_eq even_iff_mod_2_eq_zero word_unat_eq_iff unat_mod flip: even_iff_mod_2_eq_zero)
  then show "(if off AND 1 \<noteq> 0 then drop_bit 4 (buf ! (unat off div 2)) else buf ! (unat off div 2) AND 0x0f) =
      nibbles_of_bytes buf ! unat off"
    using assms by (simp add: nth_nibbles_of_bytes)
qed

definition start_pulse :: "u8 \<Rightarrow> fw \<Rightarrow> fw" where
  "start_pulse p s =
     s\<lparr>hw := (if p AND 0x08 \<noteq> 0 then PIO_SET_INPUT PIO_COIL_PIN else PIO_SET_OUTPUT PIO_COIL_PIN)
               ((hw s)\<lparr>OCR0A := snd (pulse_of (sampleVector s) p)\<rparr>),
       opOffset := opOffset s + 1\<rparr>"

lemma TIMER0_pulse:
  assumes "length (sampleVector s) = PULSE_VECTOR_SIZE" and "length (ioBuffer s) = SAMPLE_BUFFER_SIZE"
    and "opOffset s \<noteq> opLength s" and "unat (opOffset s) < 2 * SAMPLE_BUFFER_SIZE"
  shows "TIMER0_COMPA_vect s =
     (let p = nibbles_of_bytes (ioBuffer s) ! unat (opOffset s)
      in Some (if end_of_pulses p then stopTx s else start_pulse p s))"
proof -
  let ?p = "nibbles_of_bytes (ioBuffer s) ! unat (opOffset s)"
  have off: "unat (opOffset s) < 2 * length (ioBuffer s)" using assms by simp
  moreover have "\<not> end_of_pulses ?p \<Longrightarrow> rd (sampleVector s) (unat (?p AND 7)) = Some (sampleVector s ! unat (?p AND 7))"
    using not_end_index [of ?p] assms(1) by (simp add: rd_in)
  ultimately show ?thesis
    using nibble_at_offset [OF off] assms(3)
    by (auto simp: TIMER0_COMPA_vect_def Let_def end_of_pulses_def start_pulse_def pulse_of_def)
qed

lemma TIMER0_step:
  assumes "length (sampleVector s) = PULSE_VECTOR_SIZE" and "length (ioBuffer s) = SAMPLE_BUFFER_SIZE"
    and "unat (opOffset s) < unat (opLength s)" and "unat (opLength s) \<le> 2 * SAMPLE_BUFFER_SIZE"
  shows "TIMER0_COMPA_vect s =
     (let p = nibbles_of_bytes (ioBuffer s) ! unat (opOffset s)
      in Some (if end_of_pulses p then stopTx s else start_pulse p s))"
  using assms by (intro TIMER0_pulse) auto

section \<open>A whole transfer\<close>

lemma stopTx_simps [simp]:
  "fw_state (stopTx s) = STATE_FINISHED"
  "ioBuffer (stopTx s) = ioBuffer s"
  "sampleVector (stopTx s) = sampleVector s"
  "opOffset (stopTx s) = opOffset s"
  "\<not> coil_driven (hw (stopTx s))"
  "\<not> timer_running (hw (stopTx s))"
  "OCIE0A \<notin> TIMSK (hw (stopTx s))"
  by (simp_all add: stopTx_def Let_def timer_running_def prescallerStop_def PIO_SET_INPUT_def
      coil_driven_def bit_simps)

lemma start_pulse_simps [simp]:
  "ctx (start_pulse p s) = ctx s"
  "ioBuffer (start_pulse p s) = ioBuffer s"
  "sampleVector (start_pulse p s) = sampleVector s"
  "opLength (start_pulse p s) = opLength s"
  "opOffset (start_pulse p s) = opOffset s + 1"
  "emitted (start_pulse p s) = pulse_of (sampleVector s) p"
  by (simp_all add: start_pulse_def emitted_def pulse_of_def coil_driven_def PIO_SET_INPUT_def
      PIO_SET_OUTPUT_def bit_simps)

lemma drop_take_Cons:
  "k < n \<Longrightarrow> n \<le> length xs \<Longrightarrow> drop k (take n xs) = xs ! k # drop (Suc k) (take n xs)"
  by (simp add: Cons_nth_drop_Suc [symmetric])

lemma tx_run_plays:
  assumes "fw_state s = STATE_TX"
    and "length (sampleVector s) = PULSE_VECTOR_SIZE" and "length (ioBuffer s) = SAMPLE_BUFFER_SIZE"
    and "unat (opOffset s) \<le> unat (opLength s)" and "unat (opLength s) \<le> 2 * SAMPLE_BUFFER_SIZE"
    and "length (pulse_program s) < n"
  shows "\<exists>s'. tx_run n s = Some (map (pulse_of (sampleVector s)) (pulse_program s), s') \<and>
           fw_state s' = STATE_FINISHED \<and> \<not> coil_driven (hw s') \<and> \<not> timer_running (hw s') \<and>
           OCIE0A \<notin> TIMSK (hw s') \<and> ioBuffer s' = ioBuffer s \<and>
           unat (opOffset s') = unat (opOffset s) + length (pulse_program s)"
  using assms
proof (induction n arbitrary: s)
  case 0
  then show ?case by simp
next
  case (Suc n)
  let ?k = "unat (opOffset s)"
  let ?p = "nibbles_of_bytes (ioBuffer s) ! ?k"
  show ?case
  proof (cases "opOffset s = opLength s")
    case True
    then have "pulse_program s = []" by (simp add: pulse_program_def)
    with True show ?thesis by (simp add: TIMER0_COMPA_vect_def)
  next
    case False
    then have "?k \<noteq> unat (opLength s)" by (simp add: word_unat_eq_iff)
    with Suc.prems have k: "?k < unat (opLength s)" by simp
    have prog: "drop ?k (take (unat (opLength s)) (nibbles_of_bytes (ioBuffer s))) =
        ?p # drop (Suc ?k) (take (unat (opLength s)) (nibbles_of_bytes (ioBuffer s)))"
      using k Suc.prems by (intro drop_take_Cons) simp_all
    note step = TIMER0_step [OF Suc.prems(2,3) k Suc.prems(5)]
    show ?thesis
    proof (cases "end_of_pulses ?p")
      case True
      then have "pulse_program s = []" by (simp add: pulse_program_def prog)
      with True show ?thesis by (simp add: step)
    next
      case False
      have inc: "unat (opOffset s + 1) = Suc ?k"
        using k by (intro unat_inc_less) (auto intro: order_less_le_trans unat_u16_less)
      have rest: "pulse_program s = ?p # pulse_program (start_pulse ?p s)"
        using False by (simp add: pulse_program_def prog inc)
      from Suc.IH [of "start_pulse ?p s"] show ?thesis
        using Suc.prems k False inc rest by (auto simp: step)
    qed
  qed
qed

section \<open>Properties\<close>

text \<open>
  C8. In a transmission the compare-match interrupts start exactly the pulses that the nibbles of
  \<open>ioBuffer\<close> from \<open>opOffset\<close> on describe, in order, each with the level of bit 3 and the width its
  index names in \<open>sampleVector\<close>, up to the first end mark or the end of the buffer. The next
  interrupt releases the coil, stops the timer and its interrupt, and finishes the transfer.
\<close>
theorem transmitter_plays:
  assumes "fw_state s = STATE_TX"
    and "length (sampleVector s) = PULSE_VECTOR_SIZE" and "length (ioBuffer s) = SAMPLE_BUFFER_SIZE"
    and "unat (opOffset s) \<le> unat (opLength s)" and "unat (opLength s) \<le> 2 * SAMPLE_BUFFER_SIZE"
    and "length (pulse_program s) < n"
  shows "\<exists>s'. tx_run n s = Some (map (pulse_of (sampleVector s)) (pulse_program s), s') \<and>
           fw_state s' = STATE_FINISHED \<and> \<not> coil_driven (hw s') \<and> \<not> timer_running (hw s') \<and>
           OCIE0A \<notin> TIMSK (hw s') \<and>
           unat (opOffset s') = unat (opOffset s) + length (pulse_program s)"
  using tx_run_plays [OF assms] by blast

text \<open>Two pulses, one of each level, and the end mark.\<close>

definition tx_example :: fw where
  "tx_example =
     set_state STATE_TX ((fw_init avr_reset)\<lparr>opLength := 384, sampleVector := [10, 20, 0, 0, 0, 0, 0],
       ioBuffer := 0x18 # 0xff # replicate 190 0\<rparr>)"

lemma tx_example_simps:
  "fw_state tx_example = STATE_TX" "sampleVector tx_example = [10, 20, 0, 0, 0, 0, 0]"
  "ioBuffer tx_example = 0x18 # 0xff # replicate 190 0" "opLength tx_example = 384"
  "opOffset tx_example = 0"
  by (simp_all add: tx_example_def fw_init_def)

lemma tx_example_program: "pulse_program tx_example = [8, 1]"
  by (simp add: pulse_program_def tx_example_simps nibbles_of_bytes_def end_of_pulses_def)

theorem transmitter_plays_witness:
  "\<exists>s'. tx_run 3 tx_example = Some ([(True, 9), (False, 19)], s') \<and> fw_state s' = STATE_FINISHED"
proof -
  have "map (pulse_of (sampleVector tx_example)) (pulse_program tx_example) = [(True, 9), (False, 19)]"
    by (simp add: tx_example_program tx_example_simps pulse_of_def)
  with transmitter_plays [of tx_example 3] show ?thesis
    by (auto simp: tx_example_simps tx_example_program)
qed

end
