(* ===== verification/Fw_System.thy ===== *)
theory Fw_System
  imports Usb_Safety Fw_Main Fw_Sampler Fw_Transmitter
begin

unbundle bit_operations_syntax

text \<open>
  The firmware as a whole: the main loop, the two interrupts and the hardware that raises them,
  interleaved in any order. Each part of a main loop turn and each interrupt handler is one
  step. The invariant of the whole system bounds every index the firmware uses.
\<close>

section \<open>Events\<close>

datatype event =
    Compare_Match
  | Conversion_Done u8
  | Adc_Interrupt
  | Timer_Interrupt
  | Receive "u8 list list"
  | Bus_Reset "nat \<Rightarrow> u8 \<Rightarrow> u16"
  | Transfer
  | Serve

text \<open>
  Timer 0 reaching \<open>OCR0A\<close> sets the flag \<open>OCF0A\<close>; its rising edge starts a conversion when
  automatic triggering is on and none is in progress (\<open>ADSC\<close> is the conversion in progress).
  The device clears \<open>ADIF\<close> or \<open>OCF0A\<close> when it enters the handler.
\<close>

definition compare_match :: "avr \<Rightarrow> avr" where
  "compare_match h =
     h\<lparr>TIFR := insert OCF0A (TIFR h),
       ADCSRA := (if OCF0A \<notin> TIFR h \<and> ADATE \<in> ADCSRA h then insert ADSC (ADCSRA h) else ADCSRA h)\<rparr>"

definition adc_pending :: "avr \<Rightarrow> bool" where
  "adc_pending h \<longleftrightarrow> irqs_enabled h \<and> ADIE \<in> ADCSRA h \<and> ADIF \<in> ADCSRA h"

definition timer_pending :: "avr \<Rightarrow> bool" where
  "timer_pending h \<longleftrightarrow> irqs_enabled h \<and> OCIE0A \<in> TIMSK h \<and> OCF0A \<in> TIFR h"

definition adc_entry :: "fw \<Rightarrow> fw" where
  "adc_entry s = s\<lparr>hw := (hw s)\<lparr>ADCSRA := ADCSRA (hw s) - {ADIF}\<rparr>\<rparr>"

definition timer_entry :: "fw \<Rightarrow> fw" where
  "timer_entry s = s\<lparr>hw := (hw s)\<lparr>TIFR := TIFR (hw s) - {OCF0A}\<rparr>\<rparr>"

fun react :: "event \<Rightarrow> fw \<Rightarrow> fw option" where
  "react Compare_Match s = Some (s\<lparr>hw := compare_match (hw s)\<rparr>)"
| "react (Conversion_Done v) s = Some (s\<lparr>hw := adc_complete v (hw s)\<rparr>)"
| "react Adc_Interrupt s = ADC_vect (adc_entry s)"
| "react Timer_Interrupt s = TIMER0_COMPA_vect (timer_entry s)"
| "react (Receive pkts) s =
     Some (s\<lparr>usb := fst (USB_INTR_VECTOR pkts (usb s)), hw := write_GIFR {PCIF} (hw s)\<rparr>)"
| "react (Bus_Reset frameLen) s =
     calibrateOscillator frameLen (upd_usb (\<lambda>u. u\<lparr>usbNewDeviceAddr := 0, usbDeviceAddr := 0\<rparr>) s)"
| "react Transfer s = Some (transfer_step s)"
| "react Serve s = serve_usb s"

text \<open>
  When an event can happen. An interrupt that is due is served before the timer's next compare
  match (the handlers are shorter than the shortest period the firmware and the host program).
  A host that follows the protocol starts a transfer only when none is active, transmits only
  after an edge, and sends data only for a write request: \<open>polite\<close>. The tool's USB interface
  (\<open>InterfaceUsbImpl.cpp\<close>) is such a host as long as its transfers end while it sleeps: after the
  sleep it gives a transfer up without stopping it, and its next one may meet it.
\<close>

definition polite :: "fw \<Rightarrow> bool" where
  "polite s \<longleftrightarrow>
     write_expected s \<and>
     (case started_by (usb s) of
        None \<Rightarrow> True
      | Some rq \<Rightarrow> fw_state s \<in> {STATE_IDLE, STATE_STARTING} \<and>
          (bit (wIndex rq) 12 \<longrightarrow> bit (wIndex rq) 14))"

fun enabled :: "event \<Rightarrow> fw \<Rightarrow> bool" where
  "enabled Compare_Match s = (timer_running (hw s) \<and> \<not> adc_pending (hw s))"
| "enabled (Conversion_Done v) s = (ADSC \<in> ADCSRA (hw s))"
| "enabled Adc_Interrupt s = adc_pending (hw s)"
| "enabled Timer_Interrupt s = timer_pending (hw s)"
| "enabled (Receive pkts) s = True"
| "enabled (Bus_Reset frameLen) s = True"
| "enabled Transfer s = True"
| "enabled Serve s = polite s"

text \<open>The registers as the boot loader leaves them: nothing that the firmware uses is running.\<close>

definition clean_boot :: "avr \<Rightarrow> bool" where
  "clean_boot h \<longleftrightarrow> ADCSRA h = {} \<and> TIMSK h = {} \<and> TCCR0B h = {} \<and> GTCCR h = {}"

inductive fw_step :: "fw \<Rightarrow> event \<Rightarrow> fw \<Rightarrow> bool" where
  "enabled e s \<Longrightarrow> react e s = Some s' \<Longrightarrow> fw_step s e s'"

inductive fw_reachable :: "fw \<Rightarrow> bool" where
  boot: "clean_boot h \<Longrightarrow> fw_reachable (main_start v (fw_init h))"
| step: "fw_reachable s \<Longrightarrow> fw_step s e s' \<Longrightarrow> fw_reachable s'"

inductive_simps fw_step_iff: "fw_step s e s'"

section \<open>The invariant\<close>

definition quiet :: "avr \<Rightarrow> bool" where
  "quiet h \<longleftrightarrow> \<not> timer_running h \<and> OCIE0A \<notin> TIMSK h \<and> ADIE \<notin> ADCSRA h"

definition sampling :: "avr \<Rightarrow> bool" where
  "sampling h \<longleftrightarrow>
     irqs_enabled h \<and> OCIE0A \<notin> TIMSK h \<and> ADIE \<in> ADCSRA h \<and> \<not> (ADIF \<in> ADCSRA h \<and> ADSC \<in> ADCSRA h)"

definition transfer_ok :: "fw \<Rightarrow> bool" where
  "transfer_ok s \<longleftrightarrow>
     (case fw_state s of
        STATE_IDLE \<Rightarrow> quiet (hw s)
      | STATE_STARTING \<Rightarrow> quiet (hw s) \<and> (tx (ctx s) \<longrightarrow> edgeStart (ctx s))
      | STATE_WAIT_CONDITION \<Rightarrow>
          sampling (hw s) \<and> opOffset s = 0 \<and> opLength s = (if tx (ctx s) then 384 else 1536)
      | STATE_RX \<Rightarrow> sampling (hw s) \<and> opLength s = 1536 \<and> opOffset s < opLength s
      | STATE_TX \<Rightarrow> ADIE \<notin> ADCSRA (hw s) \<and> opLength s = 384 \<and> opOffset s \<le> opLength s
      | STATE_FINISHED \<Rightarrow>
          \<not> timer_running (hw s) \<and> OCIE0A \<notin> TIMSK (hw s) \<and>
          (ADIE \<in> ADCSRA (hw s) \<longrightarrow> ADIF \<notin> ADCSRA (hw s) \<and> ADSC \<notin> ADCSRA (hw s)))"

definition fw_inv :: "fw \<Rightarrow> bool" where
  "fw_inv s \<longleftrightarrow> usb_ok s \<and> transfer_ok s"

lemma usb_ok_cong:
  assumes "usb s' = usb s" "response s' = response s" "sampleVector s' = sampleVector s"
    "length (ioBuffer s') = length (ioBuffer s)" "command s' = command s"
    "ioBufferOffset s' = ioBufferOffset s" "usb_ok s"
  shows "usb_ok s'"
proof -
  have "length (msg_bytes d s') = length (msg_bytes d s)" for d
    using assms(1-3) by (cases d) (simp_all add: msg_bytes_def)
  with assms show ?thesis by (simp add: usb_ok_def arrays_ok_def io_ok_def msg_ok_def)
qed

lemma usb_ok_hw [simp]: "usb_ok (s\<lparr>hw := h\<rparr>) \<longleftrightarrow> usb_ok s"
  by (auto intro: usb_ok_cong [of s "s\<lparr>hw := h\<rparr>"] usb_ok_cong [of "s\<lparr>hw := h\<rparr>" s])

lemma keeps_transfer_hw:
  assumes "keeps_transfer s s'"
  shows "ADCSRA (hw s') = ADCSRA (hw s)" "TIMSK (hw s') = TIMSK (hw s)"
    "timer_running (hw s') = timer_running (hw s)" "irqs_enabled (hw s') = irqs_enabled (hw s)"
    "quiet (hw s') = quiet (hw s)" "sampling (hw s') = sampling (hw s)"
    "opLength s' = opLength s" "opOffset s' = opOffset s"
proof -
  have h: "(hw s')\<lparr>TCCR1 := {}\<rparr> = (hw s)\<lparr>TCCR1 := {}\<rparr>"
    using assms by (simp add: keeps_transfer_def)
  show a: "ADCSRA (hw s') = ADCSRA (hw s)" using arg_cong [OF h, of ADCSRA] by simp
  show t: "TIMSK (hw s') = TIMSK (hw s)" using arg_cong [OF h, of TIMSK] by simp
  show i: "irqs_enabled (hw s') = irqs_enabled (hw s)" using arg_cong [OF h, of irqs_enabled] by simp
  have "TCCR0B (hw s') = TCCR0B (hw s)" using arg_cong [OF h, of TCCR0B] by simp
  moreover have "GTCCR (hw s') = GTCCR (hw s)" using arg_cong [OF h, of GTCCR] by simp
  ultimately show r: "timer_running (hw s') = timer_running (hw s)" by (simp add: timer_running_def)
  show "quiet (hw s') = quiet (hw s)" "sampling (hw s') = sampling (hw s)"
    by (simp_all add: quiet_def sampling_def a t i r)
  show "opLength s' = opLength s" "opOffset s' = opOffset s"
    using assms by (simp_all add: keeps_transfer_def)
qed

section \<open>Every event preserves the invariant\<close>

named_theorems event_ok "an event of the system makes no access outside an array and keeps the invariant"

text \<open>What the initialisation does to the registers that matter here.\<close>

lemma init_regs:
  "TIMSK (adcInit v g) = TIMSK g" "TIMSK (prescallerInit g) = TIMSK g" "TIMSK (coilInit g) = TIMSK g"
  "TIMSK (coilStart g) = TIMSK g" "TIMSK (PIO_SET_INPUT p g) = TIMSK g"
  "TIMSK (PIO_SET_LOW p g) = TIMSK g" "TIMSK (usbDeviceConnect g) = TIMSK g"
  "TIMSK (usbDeviceDisconnect g) = TIMSK g"
  "TCCR0B (adcInit v g) = TCCR0B g" "TCCR0B (prescallerInit g) = TCCR0B g"
  "TCCR0B (coilInit g) = TCCR0B g" "TCCR0B (coilStart g) = TCCR0B g"
  "TCCR0B (PIO_SET_INPUT p g) = TCCR0B g" "TCCR0B (PIO_SET_LOW p g) = TCCR0B g"
  "TCCR0B (usbDeviceConnect g) = TCCR0B g" "TCCR0B (usbDeviceDisconnect g) = TCCR0B g"
  "ADIE \<in> ADCSRA (adcInit v g) \<longleftrightarrow> ADIE \<in> ADCSRA g" "ADCSRA (prescallerInit g) = ADCSRA g"
  "ADCSRA (coilInit g) = ADCSRA g" "ADCSRA (coilStart g) = ADCSRA g"
  "ADCSRA (PIO_SET_INPUT p g) = ADCSRA g" "ADCSRA (PIO_SET_LOW p g) = ADCSRA g"
  "ADCSRA (usbDeviceConnect g) = ADCSRA g" "ADCSRA (usbDeviceDisconnect g) = ADCSRA g"
  by (simp_all add: hw_defs usbDeviceConnect_def usbDeviceDisconnect_def Let_def)

lemma fw_inv_boot:
  assumes "clean_boot h"
  shows "fw_inv (main_start v (fw_init h))"
proof -
  let ?s = "main_start v (fw_init h)"
  have "usb_ok ?s"
  proof -
    let ?u = "upd_usb (\<lambda>u. u\<lparr>usbTxLen := USBPID_NAK, usbMsgLen := USB_NO_MSG\<rparr>) (fw_init h)"
    have "usb_ok ?u"
      using usb_ok_init [of h]
      by (simp add: usb_ok_def arrays_ok_def io_ok_def msg_ok_def tx_ok_def)
    then show ?thesis
      by (rule usb_ok_cong [rotated 6]) (simp_all add: main_start_def fw_setup_def usbInit_def Let_def)
  qed
  moreover have "fw_state ?s = STATE_IDLE"
    by (simp add: main_start_def fw_setup_def usbInit_def fw_init_def commonCtx_init_def Let_def)
  moreover have "TIMSK (hw ?s) = TIMSK h" "TCCR0B (hw ?s) = TCCR0B h" "ADIE \<notin> ADCSRA (hw ?s)"
    using assms
    by (simp_all add: main_start_def fw_setup_def usbInit_def fw_init_def clean_boot_def init_regs Let_def)
  ultimately have "transfer_ok ?s"
    using assms by (simp add: transfer_ok_def quiet_def timer_running_def clean_boot_def)
  with \<open>usb_ok ?s\<close> show ?thesis by (simp add: fw_inv_def)
qed

lemma event_Compare_Match [event_ok]:
  assumes "fw_inv s" "enabled Compare_Match s"
  shows "\<exists>s'. react Compare_Match s = Some s' \<and> fw_inv s'"
proof -
  have "transfer_ok (s\<lparr>hw := compare_match (hw s)\<rparr>)"
    using assms
    by (cases "fw_state s")
      (auto simp: fw_inv_def transfer_ok_def quiet_def sampling_def compare_match_def
        timer_running_def adc_pending_def)
  with assms show ?thesis by (simp add: fw_inv_def)
qed

lemma event_Conversion_Done [event_ok]:
  assumes "fw_inv s" "enabled (Conversion_Done v) s"
  shows "\<exists>s'. react (Conversion_Done v) s = Some s' \<and> fw_inv s'"
proof -
  have "transfer_ok (s\<lparr>hw := adc_complete v (hw s)\<rparr>)"
    using assms
    by (cases "fw_state s")
      (auto simp: fw_inv_def transfer_ok_def quiet_def sampling_def adc_complete_def
        timer_running_def)
  with assms show ?thesis by (simp add: fw_inv_def)
qed

lemma event_Receive [event_ok]:
  assumes "fw_inv s"
  shows "\<exists>s'. react (Receive pkts) s = Some s' \<and> fw_inv s'"
proof -
  let ?u = "fst (USB_INTR_VECTOR pkts (usb s))"
  let ?s = "s\<lparr>usb := ?u, hw := write_GIFR {PCIF} (hw s)\<rparr>"
  have "22 \<le> length (usbRxBuf (usb s))" using assms by (simp add: fw_inv_def usb_ok_def arrays_ok_def)
  then have "usb_ok (s\<lparr>usb := ?u\<rparr>)"
    using assms by (intro usb_ok_rx USB_INTR_VECTOR_ok) (simp_all add: fw_inv_def)
  then have "usb_ok (s\<lparr>usb := ?u\<rparr>\<lparr>hw := write_GIFR {PCIF} (hw s)\<rparr>)" by (simp only: usb_ok_hw)
  moreover have "transfer_ok ?s"
    using assms
    by (cases "fw_state s")
      (auto simp: fw_inv_def transfer_ok_def quiet_def sampling_def timer_running_def write_GIFR_def)
  ultimately show ?thesis by (simp add: fw_inv_def)
qed

lemma event_Bus_Reset [event_ok]:
  assumes "fw_inv s" "react (Bus_Reset frameLen) s = Some s'"
  shows "fw_inv s'"
proof -
  let ?s = "upd_usb (\<lambda>u. u\<lparr>usbNewDeviceAddr := 0, usbDeviceAddr := 0\<rparr>) s"
  obtain v where s': "s' = ?s\<lparr>hw := (hw s)\<lparr>OSCCAL := v\<rparr>\<rparr>"
    using assms(2) by (auto simp: calibrateOscillator_def bind_eq_Some_conv split_beta Let_def)
  have "usb_ok ?s"
    using assms(1) by (intro usb_ok_change) (simp_all add: fw_inv_def usb_ok_def arrays_ok_def tx_ok_def)
  then have "usb_ok s'" by (simp only: s' usb_ok_hw)
  moreover have "transfer_ok s'"
    using assms(1)
    by (cases "fw_state s")
      (auto simp: s' fw_inv_def transfer_ok_def quiet_def sampling_def timer_running_def)
  ultimately show ?thesis by (simp add: fw_inv_def)
qed

lemma transfer_step_same:
  "usb (transfer_step s) = usb s" "response (transfer_step s) = response s"
  "sampleVector (transfer_step s) = sampleVector s" "ioBuffer (transfer_step s) = ioBuffer s"
  "command (transfer_step s) = command s" "ioBufferOffset (transfer_step s) = ioBufferOffset s"
  by (simp_all add: transfer_step_def start_transfer_def finish_transfer_def Let_def split: State.split)

lemma event_Transfer [event_ok]:
  assumes "fw_inv s"
  shows "\<exists>s'. react Transfer s = Some s' \<and> fw_inv s'"
proof -
  have "usb_ok (transfer_step s)"
    using assms by (intro usb_ok_cong [OF transfer_step_same(1-3) _ transfer_step_same(5-6)])
      (simp_all add: transfer_step_same fw_inv_def)
  moreover have "transfer_ok (transfer_step s)"
    using assms
    by (cases "fw_state s"; cases "tx (ctx s)"; cases "edgeStart (ctx s)")
      (auto simp: fw_inv_def transfer_ok_def transfer_step_def start_transfer_def
        finish_transfer_def quiet_def sampling_def timer_running_def hw_defs Let_def)
  ultimately show ?thesis by (simp add: fw_inv_def)
qed

lemma event_Serve [event_ok]:
  assumes "fw_inv s" "enabled Serve s"
  shows "\<exists>s'. react Serve s = Some s' \<and> fw_inv s'"
proof -
  have usb: "usb_ok s" "write_expected s" using assms by (simp_all add: fw_inv_def polite_def)
  obtain t where t: "poll_rx 1 s = Some t" "usb_ok t" "keeps_transfer s t"
    "ctx t = (case started_by (usb s) of Some rq \<Rightarrow> started_ctx rq (ctx s) | None \<Rightarrow> ctx s)"
    using poll_rx_ok [OF usb] by blast
  obtain r where r: "poll_tx t = Some r" "usb_ok r" "keeps_transfer t r" "ctx r = ctx t"
    using poll_tx_ok [OF t(2)] by blast
  note k = keeps_transfer_hw [OF keeps_transfer_trans [OF t(3) r(3)]]
  have "transfer_ok r"
  proof (cases "started_by (usb s)")
    case None
    then have "ctx r = ctx s" using t(4) r(4) by simp
    then show ?thesis using assms(1) by (cases "fw_state s") (auto simp: fw_inv_def transfer_ok_def k)
  next
    case (Some rq)
    then have "fw_state s \<in> {STATE_IDLE, STATE_STARTING}" "bit (wIndex rq) 12 \<longrightarrow> bit (wIndex rq) 14"
      using assms(2) by (simp_all add: polite_def)
    moreover have "ctx r = started_ctx rq (ctx s)" using Some t(4) r(4) by simp
    ultimately show ?thesis
      using assms(1) by (auto simp: fw_inv_def transfer_ok_def started_ctx_def k)
  qed
  with t r show ?thesis by (simp add: serve_usb_def fw_inv_def)
qed

text \<open>The interrupt handlers.\<close>

lemma entry_same [simp]:
  "ctx (adc_entry s) = ctx s" "usb (adc_entry s) = usb s" "ioBuffer (adc_entry s) = ioBuffer s"
  "response (adc_entry s) = response s" "sampleVector (adc_entry s) = sampleVector s"
  "command (adc_entry s) = command s" "ioBufferOffset (adc_entry s) = ioBufferOffset s"
  "opLength (adc_entry s) = opLength s" "opOffset (adc_entry s) = opOffset s"
  "ctx (timer_entry s) = ctx s" "usb (timer_entry s) = usb s" "ioBuffer (timer_entry s) = ioBuffer s"
  "response (timer_entry s) = response s" "sampleVector (timer_entry s) = sampleVector s"
  "command (timer_entry s) = command s" "ioBufferOffset (timer_entry s) = ioBufferOffset s"
  "opLength (timer_entry s) = opLength s" "opOffset (timer_entry s) = opOffset s"
  by (simp_all add: adc_entry_def timer_entry_def)

text \<open>A handler that keeps everything but the registers, the context and the sample buffer.\<close>

lemma ADC_vect_eq_sampled:
  "ADC_vect s =
     (if fw_state s = STATE_WAIT_CONDITION
      then Some (adc_wait_condition (adcLastSignal s) (sampled (ADCH (hw s)) s))
      else adc_store (sampled (ADCH (hw s)) s))"
  using adc_sample_eq [of "ADCH (hw s)" s] by (simp add: adc_sample_def)

lemma wait_same:
  "usb (adc_wait_condition old s) = usb s" "ioBuffer (adc_wait_condition old s) = ioBuffer s"
  "response (adc_wait_condition old s) = response s"
  "sampleVector (adc_wait_condition old s) = sampleVector s"
  "command (adc_wait_condition old s) = command s"
  "ioBufferOffset (adc_wait_condition old s) = ioBufferOffset s"
  by (simp_all add: adc_wait_condition_def Let_def)

lemma store_same:
  "usb (store_sample s) = usb s" "length (ioBuffer (store_sample s)) = length (ioBuffer s)"
  "response (store_sample s) = response s" "sampleVector (store_sample s) = sampleVector s"
  "command (store_sample s) = command s" "ioBufferOffset (store_sample s) = ioBufferOffset s"
  by (simp_all add: store_sample_def Let_def)

lemma hw_sampled: "hw (sampled v s) = TIFR_or {OCF0A} ((hw s)\<lparr>ADCH := v\<rparr>)"
  by (simp add: sampled_def)

lemma transfer_ok_wait:
  assumes "transfer_ok s" "fw_state s = STATE_WAIT_CONDITION" "adc_pending (hw s)"
  shows "transfer_ok (adc_wait_condition old (sampled v (adc_entry s)))"
proof -
  let ?s = "sampled v (adc_entry s)"
  have h: "irqs_enabled (hw ?s)" "OCIE0A \<notin> TIMSK (hw ?s)" "ADIE \<in> ADCSRA (hw ?s)"
    "ADIF \<notin> ADCSRA (hw ?s)" "ADSC \<notin> ADCSRA (hw ?s)"
    and off: "opOffset ?s = 0" "opLength ?s = (if tx (ctx ?s) then 384 else 1536)"
    and st: "fw_state ?s = STATE_WAIT_CONDITION"
    using assms
    by (simp_all add: transfer_ok_def sampling_def adc_pending_def hw_sampled adc_entry_def
        TIFR_or_def write_TIFR_def)
  consider "edge (fallingEdge (ctx ?s)) old (adcLastSignal ?s)" "tx (ctx ?s)"
    | "edge (fallingEdge (ctx ?s)) old (adcLastSignal ?s)" "\<not> tx (ctx ?s)"
    | "\<not> edge (fallingEdge (ctx ?s)) old (adcLastSignal ?s)" "timeout (ctx ?s) \<noteq> 0"
    | "\<not> edge (fallingEdge (ctx ?s)) old (adcLastSignal ?s)" "timeout (ctx ?s) = 0" by blast
  then show ?thesis
  proof cases
    case 1
    then show ?thesis
      using h off st
      by (simp add: adc_wait_condition_eq begin_transfer_def transfer_ok_def adcStop_def
          ADCSRA_andnot_def write_ADCSRA_def prescallerStart_def prescallerStop_def TIFR_or_def
          write_TIFR_def Let_def)
  next
    case 2
    then show ?thesis
      using h off st
      by (simp add: adc_wait_condition_eq begin_transfer_def transfer_ok_def sampling_def
          prescallerStart_def prescallerStop_def Let_def)
  next
    case 3
    then show ?thesis
      using h off st
      by (simp add: adc_wait_condition_eq wait_longer_def transfer_ok_def sampling_def)
  next
    case 4
    then show ?thesis
      using h off st
      by (simp add: adc_wait_condition_eq wait_timed_out_def transfer_ok_def prescallerStop_def
          timer_running_def)
  qed
qed

lemma transfer_ok_store:
  assumes "transfer_ok s" "fw_state s = STATE_RX" "adc_pending (hw s)"
  shows "transfer_ok (store_sample (sampled v (adc_entry s)))"
proof -
  let ?s = "sampled v (adc_entry s)"
  have h: "irqs_enabled (hw ?s)" "OCIE0A \<notin> TIMSK (hw ?s)" "ADIE \<in> ADCSRA (hw ?s)"
    "ADIF \<notin> ADCSRA (hw ?s)" "ADSC \<notin> ADCSRA (hw ?s)"
    and off: "opLength ?s = 1536" "opOffset ?s < 1536" "fw_state ?s = STATE_RX"
    using assms
    by (auto simp: transfer_ok_def sampling_def adc_pending_def hw_sampled adc_entry_def
        TIFR_or_def write_TIFR_def)
  have less: "opOffset s + 1 < 1536" if "opOffset s + 1 \<noteq> 1536"
  proof -
    have lt: "unat (opOffset s) < 1536" using off by (simp add: word_less_nat_alt)
    then have "unat (opOffset s + 1) = Suc (unat (opOffset s))" by (rule unat_inc_less) simp
    moreover from that this have "Suc (unat (opOffset s)) \<noteq> 1536" by (auto simp: word_unat_eq_iff)
    ultimately show ?thesis using lt by (simp add: word_less_nat_alt)
  qed
  show ?thesis
    using h off less
    by (simp add: store_sample_def transfer_ok_def sampling_def prescallerStop_def timer_running_def
        Let_def)
qed

lemma event_Adc_Interrupt [event_ok]:
  assumes "fw_inv s" "enabled Adc_Interrupt s"
  shows "\<exists>s'. react Adc_Interrupt s = Some s' \<and> fw_inv s'"
proof -
  let ?v = "ADCH (hw (adc_entry s))"
  have ok: "usb_ok s" "transfer_ok s" and pend: "adc_pending (hw s)"
    using assms by (simp_all add: fw_inv_def)
  have "usb_ok (sampled ?v (adc_entry s))"
    by (rule usb_ok_cong [OF _ _ _ _ _ _ ok(1)]) simp_all
  moreover have "fw_state s = STATE_WAIT_CONDITION \<or> fw_state s = STATE_RX"
    using ok(2) pend by (cases "fw_state s") (auto simp: transfer_ok_def adc_pending_def quiet_def)
  moreover have "unat (opOffset s) < 8 * length (ioBuffer s)" if "fw_state s = STATE_RX"
    using ok that by (auto simp: transfer_ok_def usb_ok_def arrays_ok_def word_less_nat_alt)
  ultimately show ?thesis
    using transfer_ok_wait [OF ok(2) _ pend] transfer_ok_store [OF ok(2) _ pend]
    by (auto simp: ADC_vect_eq_sampled adc_store_eq fw_inv_def wait_same store_same
        intro: usb_ok_cong [OF wait_same(1,3,4) _ wait_same(5,6)]
          usb_ok_cong [OF store_same(1,3,4) _ store_same(5,6)])
qed

lemma event_Timer_Interrupt [event_ok]:
  assumes "fw_inv s" "enabled Timer_Interrupt s"
  shows "\<exists>s'. react Timer_Interrupt s = Some s' \<and> fw_inv s'"
proof -
  let ?s = "timer_entry s"
  let ?p = "nibbles_of_bytes (ioBuffer s) ! unat (opOffset s)"
  have ok: "usb_ok s" "transfer_ok s" using assms(1) by (simp_all add: fw_inv_def)
  have st: "fw_state s = STATE_TX"
    using assms(2) ok(2)
    by (cases "fw_state s") (auto simp: timer_pending_def transfer_ok_def quiet_def sampling_def)
  then have off: "opLength s = 384" "opOffset s \<le> 384" "ADIE \<notin> ADCSRA (hw s)"
    using ok(2) by (auto simp: transfer_ok_def)
  have arr: "length (sampleVector ?s) = PULSE_VECTOR_SIZE" "length (ioBuffer ?s) = SAMPLE_BUFFER_SIZE"
    using ok(1) by (simp_all add: usb_ok_def arrays_ok_def)
  have stop: "fw_inv (stopTx ?s)"
  proof -
    have "usb_ok (stopTx ?s)"
      by (rule usb_ok_cong [OF _ _ _ _ _ _ ok(1)]) (simp_all add: stopTx_def Let_def)
    moreover have "transfer_ok (stopTx ?s)"
      using off(3)
      by (simp add: transfer_ok_def) (simp add: stopTx_def timer_entry_def prescallerStop_def
          PIO_SET_INPUT_def Let_def)
    ultimately show ?thesis by (simp add: fw_inv_def)
  qed
  show ?thesis
  proof (cases "opOffset s = opLength s")
    case True
    with stop show ?thesis by (simp add: TIMER0_COMPA_vect_def)
  next
    case False
    with off have lt: "unat (opOffset s) < 384" by (simp add: word_le_nat_alt word_unat_eq_iff)
    then have inc: "unat (opOffset s + 1) = Suc (unat (opOffset s))"
      by (rule unat_inc_less) simp
    have "fw_inv (start_pulse ?p ?s)"
    proof -
      have "usb_ok (start_pulse ?p ?s)"
        by (rule usb_ok_cong [OF _ _ _ _ _ _ ok(1)]) (simp_all add: start_pulse_def)
      moreover have "transfer_ok (start_pulse ?p ?s)"
        using st off inc lt
        by (simp add: transfer_ok_def word_le_nat_alt) (simp add: start_pulse_def timer_entry_def
            PIO_SET_INPUT_def PIO_SET_OUTPUT_def)
      ultimately show ?thesis by (simp add: fw_inv_def)
    qed
    with stop show ?thesis
      using TIMER0_step [OF arr] lt off(1) by (simp add: Let_def)
  qed
qed

section \<open>Reachable states\<close>

lemma event_inv:
  assumes "fw_inv s" "enabled e s"
  shows "react e s = Some s' \<Longrightarrow> fw_inv s'"
    and "react e s = None \<Longrightarrow> \<exists>frameLen. e = Bus_Reset frameLen"
proof -
  have "(\<exists>t. react e s = Some t \<and> fw_inv t) \<or>
      (\<exists>frameLen. e = Bus_Reset frameLen \<and> (\<forall>t. react e s = Some t \<longrightarrow> fw_inv t))"
  proof (cases e)
    case (Bus_Reset frameLen)
    then show ?thesis using event_Bus_Reset [OF assms(1), of frameLen] by blast
  next
    case Compare_Match
    then show ?thesis using event_Compare_Match [OF assms(1)] assms(2) by blast
  next
    case (Conversion_Done v)
    then show ?thesis using event_Conversion_Done [OF assms(1), of v] assms(2) by blast
  next
    case Adc_Interrupt
    then show ?thesis using event_Adc_Interrupt [OF assms(1)] assms(2) by blast
  next
    case Timer_Interrupt
    then show ?thesis using event_Timer_Interrupt [OF assms(1)] assms(2) by blast
  next
    case (Receive pkts)
    then show ?thesis using event_Receive [OF assms(1), of pkts] by blast
  next
    case Transfer
    then show ?thesis using event_Transfer [OF assms(1)] by blast
  next
    case Serve
    then show ?thesis using event_Serve [OF assms(1)] assms(2) by blast
  qed
  then show "react e s = Some s' \<Longrightarrow> fw_inv s'"
    and "react e s = None \<Longrightarrow> \<exists>frameLen. e = Bus_Reset frameLen" by auto
qed

lemma fw_reachable_inv: "fw_reachable s \<Longrightarrow> fw_inv s"
  by (induction rule: fw_reachable.induct) (auto simp: fw_step_iff intro: fw_inv_boot event_inv(1))

text \<open>A turn of the main loop is a sequence of these steps.\<close>

lemma fast_loop_Suc:
  "fast_loop env (Suc n) i r s =
     (let r' = (if line_high env i then 100 else r) - 1
      in case (if r' = 0 then react (Bus_Reset (frame_length env)) s else Some s) of
           None \<Rightarrow> None
         | Some t \<Rightarrow>
             (if pin_change env i
              then map_option (\<lambda>t'. (Suc n, t', snd (USB_INTR_VECTOR (packets env) (usb t))))
                     (react (Receive (packets env)) t)
              else fast_loop env n (Suc i) r' t))"
  by (simp add: split_beta Let_def bind_eq_Some_conv split: option.split)

lemma fast_loop_reachable:
  assumes "fast_loop env n i r s = Some (m, s', as)" "fw_reachable s"
  shows "fw_reachable s'"
  using assms
proof (induction n arbitrary: i r s)
  case 0
  then show ?case by simp
next
  case (Suc n)
  define r' where "r' = (if line_high env i then 100 else r) - 1"
  define first where "first = (if r' = 0 then react (Bus_Reset (frame_length env)) s else Some s)"
  have eq: "fast_loop env (Suc n) i r s = (case first of None \<Rightarrow> None
      | Some t \<Rightarrow> (if pin_change env i
          then map_option (\<lambda>t'. (Suc n, t', snd (USB_INTR_VECTOR (packets env) (usb t))))
                 (react (Receive (packets env)) t)
          else fast_loop env n (Suc i) r' t))"
    unfolding fast_loop_Suc Let_def first_def r'_def ..
  with Suc.prems(1) obtain t where t: "first = Some t" by (cases first) simp_all
  have reach: "fw_reachable t"
  proof (cases "r' = 0")
    case True
    with t have "fw_step s (Bus_Reset (frame_length env)) t" by (simp add: fw_step_iff first_def)
    with Suc.prems(2) show ?thesis by (rule fw_reachable.step)
  next
    case False
    with t Suc.prems(2) show ?thesis by (simp add: first_def)
  qed
  show ?case
  proof (cases "pin_change env i")
    case True
    with eq t Suc.prems(1) have "fw_step t (Receive (packets env)) s'" by (simp add: fw_step_iff)
    with reach show ?thesis by (rule fw_reachable.step)
  next
    case False
    with eq t Suc.prems(1) have "fast_loop env n (Suc i) r' t = Some (m, s', as)" by simp
    then show ?thesis using reach by (rule Suc.IH)
  qed
qed

text \<open>The host is polite in a turn when the packet the turn serves is.\<close>

definition polite_turn :: "main_env \<Rightarrow> fw \<Rightarrow> bool" where
  "polite_turn env s =
     (case fast_loop env fastctr_init 0 100 s of
        None \<Rightarrow> True
      | Some (fastctr, s, as) \<Rightarrow> polite (if fastctr = 0 then transfer_step s else s))"

lemma main_turn_reachable:
  assumes "fw_reachable s" "polite_turn env s"
  shows "main_turn env collided s \<noteq> Memory_Fault"
    and "main_turn env collided s = Running s' as \<Longrightarrow>
fw_reachable s'"
proof -
  have "main_turn env collided s \<noteq> Memory_Fault \<and>
      (main_turn env collided s = Running s' as \<longrightarrow> fw_reachable s')"
  proof (cases "fast_loop env fastctr_init 0 100 s")
    case None
    then show ?thesis by (simp add: main_turn_def)
  next
    case (Some x)
    obtain n t out where x: "x = (n, t, out)" by (cases x)
    let ?t = "if n = 0 then transfer_step t else t"
    have t: "fw_reachable t" using Some assms(1) by (auto simp: x intro: fast_loop_reachable)
    have t': "fw_reachable ?t"
      using t fw_reachable.step [OF t, of Transfer "transfer_step t"] by (simp add: fw_step_iff)
    have pol: "polite ?t" using assms(2) Some by (simp add: polite_turn_def x)
    obtain r where r: "react Serve ?t = Some r"
      using event_Serve [OF fw_reachable_inv [OF t']] pol by auto
    with pol have "fw_step ?t Serve r" by (simp add: fw_step_iff)
    with t' have "fw_reachable r" by (rule fw_reachable.step)
    moreover from this have "fw_reachable (r\<lparr>hw := write_GIFR {PCIF} (hw r)\<rparr>)"
      by (rule fw_reachable.step [of _ "Receive []"]) (simp add: fw_step_iff)
    ultimately show ?thesis using r Some by (auto simp: main_turn_def x)
  qed
  then show "main_turn env collided s \<noteq> Memory_Fault"
    and "main_turn env collided s = Running s' as \<Longrightarrow>
fw_reachable s'"
    by blast+
qed

section \<open>Complete transfers\<close>

lemma start_transfer_simps:
  "opOffset (start_transfer s) = 0"
  "opLength (start_transfer s) = (if tx (ctx s) then 384 else 1536)"
  "adcLastSignal (start_transfer s) = - 1"
  "fw_state (start_transfer s) =
     (if edgeStart (ctx s) then STATE_WAIT_CONDITION else if tx (ctx s) then STATE_TX else STATE_RX)"
  "timeout (ctx (start_transfer s)) = timeout (ctx s)"
  "timedOut (ctx (start_transfer s)) = timedOut (ctx s)"
  "fallingEdge (ctx (start_transfer s)) = fallingEdge (ctx s)"
  "tx (ctx (start_transfer s)) = tx (ctx s)"
  "ioBuffer (start_transfer s) = ioBuffer s" "sampleVector (start_transfer s) = sampleVector s"
  "adcHiVal (start_transfer s) = adcHiVal s" "adcLowVal (start_transfer s) = adcLowVal s"
  by (simp_all add: start_transfer_def Let_def)

lemma start_transfer_irqs:
  "ADIE \<in> ADCSRA (hw (start_transfer s))"
  "OCIE0A \<in> TIMSK (hw (start_transfer s)) \<longleftrightarrow>
     OCIE0A \<in> TIMSK (hw s) \<or> \<not> edgeStart (ctx s) \<and> tx (ctx s)"
  by (simp_all add: start_transfer_def adcStart_def ADCSRA_or_def write_ADCSRA_def
      prescallerStart_def TIFR_or_def write_TIFR_def Let_def)

lemma finish_transfer_simps:
  "fw_state (finish_transfer s) = STATE_IDLE" "ioBuffer (finish_transfer s) = ioBuffer s"
  "timedOut (ctx (finish_transfer s)) = timedOut (ctx s)" "opOffset (finish_transfer s) = opOffset s"
  "quiet (hw (finish_transfer s))"
  by (simp_all add: finish_transfer_def quiet_def timer_running_def prescallerStop_def adcStop_def
      ADCSRA_andnot_def write_ADCSRA_def Let_def)

lemma adc_run_timedOut:
  assumes "fw_state s = STATE_RX" "adc_run vs s = Some s'"
    "fw_state s' = STATE_FINISHED \<or> fw_state s' = STATE_RX" "length (ioBuffer s) = 192"
    "unat (opOffset s) + length vs \<le> unat (opLength s)" "unat (opLength s) \<le> 1536"
  shows "timedOut (ctx s') = timedOut (ctx s)"
  using assms
proof (induction vs arbitrary: s)
  case Nil
  then show ?case by simp
next
  case (Cons v vs)
  let ?s = "store_sample (sampled v s)"
  have step: "adc_sample v s = Some ?s"
    using Cons.prems by (simp add: adc_sample_eq adc_store_eq)
  have same: "timedOut (ctx ?s) = timedOut (ctx s)" "length (ioBuffer ?s) = 192" "opLength ?s = opLength s"
    "opOffset ?s = opOffset s + 1"
    using Cons.prems by (simp_all add: store_sample_def Let_def)
  have inc: "unat (opOffset s + 1) = Suc (unat (opOffset s))"
    by (rule unat_inc_less [of _ 1536]) (use Cons.prems in simp_all)
  show ?case
  proof (cases vs)
    case Nil
    then show ?thesis using Cons.prems step same by simp
  next
    case (Cons w ws)
    have "opOffset ?s \<noteq> opLength s" using Cons.prems(5) inc same local.Cons by (auto simp: word_unat_eq_iff)
    then have "fw_state ?s = STATE_RX"
      using Cons.prems(1) same by (simp add: store_sample_def Let_def)
    then show ?thesis using Cons.IH [of ?s] Cons.prems step same inc by simp
  qed
qed

section \<open>Properties\<close>

text \<open>A started firmware that nothing has happened to yet.\<close>

definition booted :: fw where
  "booted = main_start 0 (fw_init avr_reset)"

lemma booted_reachable: "fw_reachable booted"
  unfolding booted_def by (rule fw_reachable.boot) (simp add: clean_boot_def avr_reset_def)

lemma booted_usb: "usbRxLen (usb booted) = 0" "fw_state booted = STATE_IDLE"
  by (simp_all add: booted_def main_start_def fw_setup_def usbInit_def fw_init_def usbdrv_init_def
      commonCtx_init_def Let_def)

lemma booted_polite: "polite booted"
  by (simp add: polite_def write_expected_def started_by_def packet_data_def booted_usb)

text \<open>
  C3. Memory safety of the firmware, with a host that follows the protocol: one that sends data
  packets only for a write request, starts a transfer only when none is active, and transmits
  only after an edge (\<open>polite\<close>). In every state that the main loop, the two interrupts, the
  hardware and such a host can reach, in any interleaving, no handler and no part of the USB
  driver reads or writes outside an array: the only event without a result is an oscillator
  calibration that does not return.
\<close>
theorem fw_memory_safe:
  assumes "fw_reachable s" "enabled e s"
  shows "(\<exists>s'. react e s = Some s') \<or> (\<exists>frameLen. e = Bus_Reset frameLen)"
  using event_inv(2) [OF fw_reachable_inv [OF assms(1)] assms(2)] by (cases "react e s") blast+

theorem fw_memory_safe_witness: "\<exists>s'. react Serve booted = Some s'"
  using fw_memory_safe [OF booted_reachable, of Serve] booted_polite by simp

text \<open>
  C22. A turn of the main loop, from a state that is reachable with a host that follows the
  protocol, whatever the bus does in it, as long as the packet that the turn serves is one the
  protocol allows: it never makes an access outside an array, and leads to a reachable state.
\<close>
theorem main_turn_safe:
  assumes "fw_reachable s" "polite_turn env s"
  shows "main_turn env collided s \<noteq> Memory_Fault \<and>
         (\<forall>s' as. main_turn env collided s = Running s' as \<longrightarrow> fw_reachable s')"
  using main_turn_reachable [OF assms] by blast

text \<open>A packet arrives at the first poll, and it is not for this device.\<close>

definition env_example :: main_env where
  "env_example = \<lparr>line_high = (\<lambda>i. True), pin_change = (\<lambda>i. i = 0), packets = [[0x69, 2]],
     frame_length = (\<lambda>n v. 0)\<rparr>"

lemma fast_loop_example:
  "\<exists>t as. fast_loop env_example fastctr_init 0 100 booted = Some (fastctr_init, t, as) \<and>
          usbRxLen (usb t) = 0"
proof -
  obtain n where n: "fastctr_init = Suc n" by (simp add: fastctr_init_def numeral_eq_Suc)
  have "usbRxLen (fst (USB_INTR_VECTOR [[0x69, 2]] (usb booted))) = 0"
    by (simp add: booted_def main_start_def fw_setup_def usbInit_def fw_init_def usbdrv_init_def
        usb_rx_packet_def Let_def)
  then show ?thesis
    unfolding n by (auto simp: fast_loop_Suc env_example_def split_beta Let_def)
qed

theorem main_turn_safe_witness: "main_turn env_example False booted \<noteq> Memory_Fault"
proof -
  obtain t as where t: "fast_loop env_example fastctr_init 0 100 booted = Some (fastctr_init, t, as)"
    "usbRxLen (usb t) = 0" using fast_loop_example by blast
  moreover have "fastctr_init \<noteq> 0" by (simp add: fastctr_init_def)
  ultimately have "polite_turn env_example booted"
    by (simp add: polite_turn_def polite_def write_expected_def started_by_def packet_data_def)
  with main_turn_safe [OF booted_reachable] show ?thesis by blast
qed

text \<open>
  C23. The interrupts are exclusive, in every state that is reachable with a host that follows the
  protocol: the timer's interrupt is due (enabled and with its flag set) only in a transmission,
  with the offset within the pulses of the buffer, and the converter's only while the firmware
  waits for an edge or receives, with the offset within the bits of the buffer. In the idle
  state both are disabled and the timer stands still.
\<close>
theorem interrupts_exclusive:
  assumes "fw_reachable s"
  shows "(timer_pending (hw s) \<longrightarrow> fw_state s = STATE_TX \<and> unat (opOffset s) \<le> 2 * length (ioBuffer s)) \<and>
         (adc_pending (hw s) \<longrightarrow> fw_state s \<in> {STATE_WAIT_CONDITION, STATE_RX} \<and>
            unat (opOffset s) < 8 * length (ioBuffer s)) \<and>
         (fw_state s = STATE_IDLE \<longrightarrow> quiet (hw s))"
proof -
  have ok: "transfer_ok s" "length (ioBuffer s) = 192"
    using fw_reachable_inv [OF assms] by (simp_all add: fw_inv_def usb_ok_def arrays_ok_def)
  then show ?thesis
    by (cases "fw_state s")
      (auto simp: transfer_ok_def timer_pending_def adc_pending_def quiet_def sampling_def
        word_le_nat_alt word_less_nat_alt)
qed

theorem interrupts_exclusive_witness: "quiet (hw booted)"
  using interrupts_exclusive [OF booted_reachable] by (simp add: booted_usb)

text \<open>
  C25. A reception without a start condition completes: from the state a TRANSFER_START request
  leaves, the main loop starts the sampler, 1536 samples fill the buffer with the comparator's
  levels, and the next turn of the main loop ends the transfer, which the status request then
  reports as done; nothing is left running.
\<close>
theorem reception_completes:
  assumes "fw_state s = STATE_STARTING" "\<not> tx (ctx s)" "\<not> edgeStart (ctx s)" "\<not> timedOut (ctx s)"
    and "length (ioBuffer s) = SAMPLE_BUFFER_SIZE" "length vs = 8 * SAMPLE_BUFFER_SIZE"
  shows "\<exists>r. adc_run vs (transfer_step s) = Some r \<and> fw_state r = STATE_FINISHED \<and>
           fw_state (transfer_step r) = STATE_IDLE \<and>
           transfer_status (transfer_step r) = PROTO_TRANSFER_STATUS_OK \<and>
           quiet (hw (transfer_step r)) \<and>
           bits_of_bytes (ioBuffer (transfer_step r)) =
             map (\<lambda>l. l \<noteq> 0) (levels (adcHiVal s) (adcLowVal s) (- 1) vs)"
proof -
  let ?s = "start_transfer s"
  have step: "transfer_step s = ?s" using assms(1) by (simp add: transfer_step_def)
  have rx: "fw_state ?s = STATE_RX" using assms by (simp add: start_transfer_simps)
  obtain r where r: "adc_run vs ?s = Some r" "fw_state r = STATE_FINISHED"
    "bits_of_bytes (ioBuffer r) = map (\<lambda>l. l \<noteq> 0) (levels (adcHiVal s) (adcLowVal s) (- 1) vs)"
  proof -
    have "vs \<noteq> []" using assms(6) by auto
    with that show ?thesis
      using adc_run_records [OF rx, of vs] assms by (auto simp: start_transfer_simps)
  qed
  moreover have "timedOut (ctx r) = timedOut (ctx ?s)"
    by (rule adc_run_timedOut [OF rx r(1)]) (use assms r(2) in \<open>simp_all add: start_transfer_simps\<close>)
  moreover have "transfer_step r = finish_transfer r" using r(2) by (simp add: transfer_step_def)
  ultimately show ?thesis
    using assms(4) by (simp add: step finish_transfer_simps transfer_status_def start_transfer_simps)
qed

theorem reception_completes_witness:
  "\<exists>r. adc_run (replicate 1536 0) (transfer_step (set_state STATE_STARTING (fw_init avr_reset))) = Some r \<and>
       transfer_status (transfer_step r) = PROTO_TRANSFER_STATUS_OK"
proof -
  let ?s = "set_state STATE_STARTING (fw_init avr_reset)"
  have "fw_state ?s = STATE_STARTING" "\<not> tx (ctx ?s)" "\<not> edgeStart (ctx ?s)" "\<not> timedOut (ctx ?s)"
    "length (ioBuffer ?s) = 192" "length (replicate 1536 (0 :: u8)) = 8 * 192"
    by (simp_all add: fw_init_def commonCtx_init_def)
  from reception_completes [OF this] show ?thesis by blast
qed

section \<open>Where the firmware leaves its protocol\<close>

text \<open>
  C39. The main loop marks the signal as unknown (\<open>-1\<close>) when it starts a transfer, so that the
  handler can throw the first sample away. The handler compares its unsigned copy with \<open>-1\<close>,
  which is never equal: with a falling edge as the start condition, a first sample at the high
  voltage already counts as the edge and starts the transfer at once.
\<close>
theorem first_sample_taken_as_edge:
  assumes "fw_state s = STATE_STARTING" "edgeStart (ctx s)" "fallingEdge (ctx s)" "adcHiVal s \<le> v"
  shows "\<exists>s'. adc_sample v (transfer_step s) = Some s' \<and>
           fw_state s' = (if tx (ctx s) then STATE_TX else STATE_RX)"
proof -
  have "transfer_step s = start_transfer s" using assms(1) by (simp add: transfer_step_def)
  moreover have "edge_after (start_transfer s) [v] = Some 0"
    using assms by (simp add: edge_after_def edge_def comparator_def start_transfer_simps Let_def)
  ultimately show ?thesis
    using assms(2)
    by (simp add: adc_sample_wait start_transfer_simps begin_transfer_def Let_def)
qed

definition starting_example :: fw where
  "starting_example =
     (fw_init avr_reset)\<lparr>ctx := commonCtx_init\<lparr>state := STATE_STARTING, timeout := 60000,
        edgeStart := True, fallingEdge := True\<rparr>\<rparr>"

theorem first_sample_taken_as_edge_witness:
  "\<exists>s'. adc_sample 255 (transfer_step starting_example) = Some s' \<and> fw_state s' = STATE_RX"
  using first_sample_taken_as_edge [of starting_example 255]
  by (simp add: starting_example_def fw_init_def commonCtx_init_def ADC_HI_value)

text \<open>
  A transmission started without an edge leaves the converter's interrupt on next to the
  timer's. The handler then takes every sample as one to store: it overwrites a bit of the pulses
  that are being sent and moves the offset on, so that a pulse is skipped.
\<close>
lemma transmission_without_edge_samples:
  assumes "fw_state s = STATE_STARTING" "tx (ctx s)" "\<not> edgeStart (ctx s)"
    and "length (ioBuffer s) = SAMPLE_BUFFER_SIZE"
  shows "ADIE \<in> ADCSRA (hw (transfer_step s)) \<and> OCIE0A \<in> TIMSK (hw (transfer_step s)) \<and>
         (\<exists>s'. adc_sample v (transfer_step s) = Some s' \<and> fw_state s' = STATE_TX \<and>
               opOffset s' = 1 \<and>
               bits_of_bytes (ioBuffer s') =
                 (bits_of_bytes (ioBuffer s))[0 := comparator (adcHiVal s) (adcLowVal s) (- 1) v \<noteq> 0])"
proof -
  let ?s = "start_transfer s"
  have step: "transfer_step s = ?s" using assms(1) by (simp add: transfer_step_def)
  have "adc_sample v ?s = Some (store_sample (sampled v ?s))"
    using assms by (simp add: adc_sample_eq adc_store_eq start_transfer_simps)
  moreover have "bits_of_bytes (ioBuffer (store_sample (sampled v ?s))) =
      (bits_of_bytes (ioBuffer s))[0 := comparator (adcHiVal s) (adcLowVal s) (- 1) v \<noteq> 0]"
    using bits_of_bytes_update [of 0 "ioBuffer s"] assms(4)
    by (simp add: store_sample_def start_transfer_simps Let_def)
  ultimately show ?thesis
    using assms
    by (simp add: step start_transfer_irqs store_sample_def start_transfer_simps Let_def)
qed

lemma transmission_without_edge_samples_example:
  "\<exists>s'. adc_sample 0 (transfer_step ((fw_init avr_reset)\<lparr>ctx :=
          commonCtx_init\<lparr>state := STATE_STARTING, tx := True\<rparr>\<rparr>)) = Some s' \<and> opOffset s' = 1"
  using transmission_without_edge_samples [of "(fw_init avr_reset)\<lparr>ctx :=
      commonCtx_init\<lparr>state := STATE_STARTING, tx := True\<rparr>\<rparr>" 0]
  by (auto simp: fw_init_def commonCtx_init_def)

text \<open>
  With both handlers running, the offset can step over the end of the transmission: when the
  timer's handler sends the last pulse of a full buffer and a sample follows, the next timer
  interrupt reads behind \<open>ioBuffer\<close>.
\<close>
lemma transmission_overruns:
  assumes "fw_state s = STATE_TX" "opLength s = 384" "opOffset s = 383"
    and "length (ioBuffer s) = SAMPLE_BUFFER_SIZE" "length (sampleVector s) = PULSE_VECTOR_SIZE"
    and "\<not> end_of_pulses (nibbles_of_bytes (ioBuffer s) ! 383)"
  shows "\<exists>s1 s2. TIMER0_COMPA_vect s = Some s1 \<and> adc_sample v s1 = Some s2 \<and>
           fw_state s2 = STATE_TX \<and> TIMER0_COMPA_vect s2 = None"
proof -
  let ?s1 = "start_pulse (nibbles_of_bytes (ioBuffer s) ! 383) s"
  let ?s2 = "store_sample (sampled v ?s1)"
  have "TIMER0_COMPA_vect s = Some ?s1"
    using TIMER0_step [of s] assms by simp
  moreover have "adc_sample v ?s1 = Some ?s2"
    using assms by (simp add: adc_sample_eq adc_store_eq)
  moreover have "fw_state ?s2 = STATE_TX" "opOffset ?s2 = 385" "opLength ?s2 = 384"
    "length (ioBuffer ?s2) = 192"
    using assms by (simp_all add: store_sample_def Let_def)
  ultimately show ?thesis
    by (auto simp: TIMER0_COMPA_vect_def rd_out drop_bit_Suc)
qed

lemma transmission_overruns_example:
  "\<exists>s1 s2. TIMER0_COMPA_vect (set_state STATE_TX ((fw_init avr_reset)\<lparr>opLength := 384, opOffset := 383\<rparr>))
             = Some s1 \<and> adc_sample 0 s1 = Some s2 \<and> TIMER0_COMPA_vect s2 = None"
proof -
  have "nibbles_of_bytes (ioBuffer (fw_init avr_reset)) ! 383 = 0"
    by (simp add: nth_nibbles_of_bytes fw_init_def)
  with transmission_overruns [of "set_state STATE_TX ((fw_init avr_reset)\<lparr>opLength := 384, opOffset := 383\<rparr>)" 0]
  show ?thesis
    by (auto simp: fw_init_def end_of_pulses_def)
qed

text \<open>
  Runs of events that can happen, one after the other.
\<close>

fun fw_run :: "event list \<Rightarrow> fw \<Rightarrow> fw option" where
  "fw_run [] s = Some s"
| "fw_run (e # es) s = (if enabled e s then do { s \<leftarrow> react e s; fw_run es s } else None)"

lemma fw_run_append: "fw_run (es @ es') s = do { s \<leftarrow> fw_run es s; fw_run es' s }"
proof (induction es arbitrary: s)
  case (Cons e es)
  show ?case by (cases "react e s") (simp_all add: Cons.IH)
qed simp

text \<open>
  One period of the timer with both interrupts on: the compare match, the timer's handler, the
  conversion that the match has started and the converter's handler. The offset moves by two.
\<close>

definition both_handlers :: "u8 \<Rightarrow> event list" where
  "both_handlers v = [Compare_Match, Timer_Interrupt, Conversion_Done v, Adc_Interrupt]"

definition both_on :: "nat \<Rightarrow> fw \<Rightarrow> bool" where
  "both_on k s \<longleftrightarrow>
     fw_state s = STATE_RX \<and> opLength s = 1536 \<and> unat (opOffset s) = 2 * k \<and>
     length (ioBuffer s) = SAMPLE_BUFFER_SIZE \<and> length (sampleVector s) = PULSE_VECTOR_SIZE \<and>
     OCIE0A \<in> TIMSK (hw s) \<and> timer_running (hw s) \<and> irqs_enabled (hw s) \<and>
     ADIE \<in> ADCSRA (hw s) \<and> ADATE \<in> ADCSRA (hw s) \<and> ADIF \<notin> ADCSRA (hw s) \<and>
     (OCF0A \<in> TIFR (hw s) \<longrightarrow> ADSC \<in> ADCSRA (hw s)) \<and>
     (\<forall>i. 2 * k \<le> i \<and> i < 384 \<longrightarrow> \<not> end_of_pulses (nibbles_of_bytes (ioBuffer s) ! i))"

lemma store_keeps_nibble:
  assumes "unat (opOffset s) = Suc (2 * k)" and "length (ioBuffer s) = SAMPLE_BUFFER_SIZE"
    and "Suc (Suc (2 * k)) \<le> i" and "i < 384"
  shows "nibbles_of_bytes (ioBuffer (store_sample s)) ! i = nibbles_of_bytes (ioBuffer s) ! i"
proof -
  have "Suc k \<le> i div 2" using assms(3) by (simp add: less_eq_div_iff_mult_less_eq)
  moreover have "Suc (2 * k) div 8 \<le> Suc (2 * k) div 2" by (rule div_le_mono2) simp_all
  ultimately have "i div 2 \<noteq> Suc (2 * k) div 8" by simp
  then show ?thesis using assms by (simp add: store_sample_def Let_def nth_nibbles_of_bytes)
qed

lemma both_handlers_run:
  assumes "both_on k s" and "k < 192"
  shows "\<exists>s'. fw_run (both_handlers v) s = Some s' \<and> both_on (Suc k) s'"
proof -
  let ?s1 = "s\<lparr>hw := compare_match (hw s)\<rparr>"
  let ?p = "nibbles_of_bytes (ioBuffer s) ! (2 * k)"
  let ?s2 = "start_pulse ?p (timer_entry ?s1)"
  let ?s3 = "?s2\<lparr>hw := adc_complete v (hw ?s2)\<rparr>"
  let ?s4 = "store_sample (sampled v (adc_entry ?s3))"
  note inv = assms(1) [unfolded both_on_def]
  have off: "unat (opOffset s) = 2 * k" using inv by blast
  have inc: "unat (opOffset s + 1) = Suc (2 * k)"
    using off assms(2) by (subst unat_inc_less [of _ 384]) simp_all
  have inc2: "unat (opOffset s + 2) = Suc (Suc (2 * k))"
    using unat_inc_less [of "opOffset s + 1" 385] inc assms(2) by (simp add: add.assoc)
  have ne: "opOffset s \<noteq> opLength s" "opOffset s + 2 \<noteq> opLength s"
    using inv off inc2 assms(2) by auto
  have "TIMER0_COMPA_vect (timer_entry ?s1) = Some ?s2"
    using inv off ne assms(2) by (subst TIMER0_pulse) (simp_all add: Let_def)
  then have 2: "react Timer_Interrupt ?s1 = Some ?s2" by simp
  have e: "enabled Compare_Match s" "enabled Timer_Interrupt ?s1"
    using inv by (simp_all add: adc_pending_def timer_pending_def compare_match_def)
  have h2: "ADSC \<in> ADCSRA (hw ?s2)" "ADIE \<in> ADCSRA (hw ?s2)" "ADATE \<in> ADCSRA (hw ?s2)" "OCF0A \<notin> TIFR (hw ?s2)"
    "OCIE0A \<in> TIMSK (hw ?s2)" "timer_running (hw ?s2)" "irqs_enabled (hw ?s2)" "fw_state ?s2 = STATE_RX"
    using inv by (auto simp: start_pulse_def timer_entry_def compare_match_def PIO_SET_INPUT_def PIO_SET_OUTPUT_def
        timer_running_def)
  have e3: "enabled (Conversion_Done v) ?s2" "enabled Adc_Interrupt ?s3"
    using h2 by (simp_all add: adc_complete_def adc_pending_def)
  have a: "ADCH (hw (adc_entry ?s3)) = v" by (simp add: adc_entry_def adc_complete_def)
  have room: "unat (opOffset s + 1) < 8 * length (ioBuffer s)" using inc inv assms(2) by simp
  have 4: "react Adc_Interrupt ?s3 = Some ?s4"
    using h2(8) room by (simp add: ADC_vect_eq_sampled a adc_store_eq)
  have run: "fw_run (both_handlers v) s = Some ?s4"
    using e e3 2 4 by (simp add: both_handlers_def del: react.simps(3,4) enabled.simps)
  have keep: "nibbles_of_bytes (ioBuffer ?s4) ! i = nibbles_of_bytes (ioBuffer s) ! i"
    if "Suc (Suc (2 * k)) \<le> i" "i < 384" for i
    using that inv inc by (subst store_keeps_nibble [of _ k]) simp_all
  have "both_on (Suc k) ?s4"
    unfolding both_on_def
  proof (intro conjI)
    show "\<forall>i. 2 * Suc k \<le> i \<and> i < 384 \<longrightarrow> \<not> end_of_pulses (nibbles_of_bytes (ioBuffer ?s4) ! i)"
      using inv keep by simp
    show "unat (opOffset ?s4) = 2 * Suc k"
      using inc2 ne by (simp add: store_sample_def Let_def add.assoc)
  qed (use inv h2 ne in \<open>auto simp: store_sample_def Let_def add.assoc sampled_def adc_entry_def adc_complete_def
      TIFR_or_def write_TIFR_def timer_running_def\<close>)
  with run show ?thesis by blast
qed

lemma both_handlers_runs:
  assumes "both_on k s" and "k + length vs \<le> 192"
  shows "\<exists>s'. fw_run (concat (map both_handlers vs)) s = Some s' \<and> both_on (k + length vs) s'"
  using assms
proof (induction vs arbitrary: k s)
  case (Cons v vs)
  obtain t where t: "fw_run (both_handlers v) s = Some t" "both_on (Suc k) t"
    using both_handlers_run [OF Cons.prems(1), of v] Cons.prems(2) by auto
  show ?case using Cons.IH [OF t(2)] Cons.prems(2) t(1) by (simp add: fw_run_append)
qed simp

lemma start_rx_hw:
  assumes "\<not> edgeStart (ctx s)" and "\<not> tx (ctx s)"
  shows "hw (start_transfer s) =
     prescallerStart False (prescalerValue (ctx s)) True (adcStart ((hw s)\<lparr>irqs_enabled := True\<rparr>))"
  using assms by (simp add: start_transfer_def Let_def)

text \<open>
  C40. A TRANSFER_START request is answered with OK in every state. During a transmission a request
  for a reception that does not wait for an edge starts the reception with the timer's interrupt
  still on. Both handlers then move the offset: when the buffer holds no end mark, 192 periods of
  the timer, in each of which both interrupts are due and served, take the timer's handler to
  the end of \<open>ioBuffer\<close>; the limit of a reception is 1536, and the next timer interrupt, which is
  due after the next compare match, reads behind the buffer.
\<close>
theorem restart_during_transmission:
  assumes "fw_state s = STATE_TX" "OCIE0A \<in> TIMSK (hw s)"
    and "bRequest rq = PROTO_CMD_TRANSFER_START" "\<not> bit (wIndex rq) 12" "\<not> bit (wIndex rq) 14"
    and "length (ioBuffer s) = SAMPLE_BUFFER_SIZE" "length (sampleVector s) = PULSE_VECTOR_SIZE"
    and "\<forall>p \<in> set (nibbles_of_bytes (ioBuffer s)). \<not> end_of_pulses p"
    and "length vs = 192"
  shows "hd (setup_reply rq s) = PROTO_RC_OK \<and>
         (let r = transfer_step (snd (setup_result rq s))
          in fw_state r = STATE_RX \<and>
             (\<exists>r'. fw_run (concat (map both_handlers vs) @ [Compare_Match]) r = Some r' \<and>
                enabled Timer_Interrupt r' \<and> react Timer_Interrupt r' = None))"
proof -
  let ?r = "snd (setup_result rq s)"
  let ?t = "start_transfer ?r"
  have r: "fw_state ?r = STATE_STARTING" "\<not> tx (ctx ?r)" "\<not> edgeStart (ctx ?r)" "OCIE0A \<in> TIMSK (hw ?r)"
    "ioBuffer ?r = ioBuffer s" "sampleVector ?r = sampleVector s"
    using assms(1-5) by (simp_all add: setup_result_def setup_effect_def started_ctx_def
        buffer_command_def Let_def)
  then have step: "transfer_step ?r = ?t" by (simp add: transfer_step_def)
  have "both_on 0 ?t"
    using r assms(6-8)
    by (auto simp: both_on_def start_transfer_simps start_transfer_irqs nth_mem start_rx_hw
        prescallerStart_def adcStart_def ADCSRA_or_def write_ADCSRA_def timer_running_def Let_def)
  from both_handlers_runs [OF this, of vs] assms(9) obtain q where
    q: "fw_run (concat (map both_handlers vs)) ?t = Some q" "both_on 192 q" by auto
  let ?q = "q\<lparr>hw := compare_match (hw q)\<rparr>"
  have i: "unat (opOffset q) = 384" "opLength q = 1536" "length (ioBuffer q) = 192"
    using q(2) by (simp_all add: both_on_def)
  then have off: "opOffset q = 384" by (simp add: word_unat_eq_iff)
  have "fw_run (concat (map both_handlers vs) @ [Compare_Match]) ?t = Some ?q"
    using q by (simp add: fw_run_append both_on_def adc_pending_def)
  moreover have "enabled Timer_Interrupt ?q"
    using q(2) by (simp add: both_on_def timer_pending_def compare_match_def)
  moreover have "react Timer_Interrupt ?q = None"
    using i off by (simp add: TIMER0_COMPA_vect_def rd_out drop_bit_Suc)
  ultimately show ?thesis
    using r assms(3) by (simp add: step start_transfer_simps setup_reply_def Let_def del: fw_run.simps react.simps enabled.simps)
qed

definition start_request :: usbRequest where
  "start_request = \<lparr>bmRequestType = 0xc0, bRequest = 9, wValue = 0, wIndex = 8, wLength = 2\<rparr>"

theorem restart_during_transmission_witness:
  "let s = set_state STATE_TX ((fw_init avr_reset)\<lparr>hw := avr_reset\<lparr>TIMSK := {OCIE0A}\<rparr>\<rparr>);
       r = transfer_step (snd (setup_result start_request s))
   in fw_state r = STATE_RX \<and>
     (\<exists>r'. fw_run (concat (map both_handlers (replicate 192 0)) @ [Compare_Match]) r = Some r' \<and>
        react Timer_Interrupt r' = None)"
proof -
  let ?s = "set_state STATE_TX ((fw_init avr_reset)\<lparr>hw := avr_reset\<lparr>TIMSK := {OCIE0A}\<rparr>\<rparr>)"
  have "\<forall>p \<in> set (nibbles_of_bytes (ioBuffer ?s)). \<not> end_of_pulses p"
    by (auto simp: fw_init_def nibbles_of_bytes_def end_of_pulses_def)
  from restart_during_transmission [OF _ _ _ _ _ _ _ this, of start_request "replicate 192 0"] show ?thesis
    by (simp add: start_request_def fw_init_def bit_numeral_rec Let_def del: fw_run.simps react.simps)
      blast
qed

end
