(* ===== verification/Usb_Control.thy ===== *)
theory Usb_Control
  imports Usb_Safety Fw_Main
begin

unbundle bit_operations_syntax

text \<open>
  Whole control transfers, as the host sees them: a setup stage and the data packets that follow
  it. The driver splits a message into packets of eight bytes with alternating data PIDs, ends it
  with a short packet, and gives each packet its checksum.
\<close>

section \<open>The message that is pending\<close>

definition pending_message :: "fw \<Rightarrow> u8 list" where
  "pending_message s =
     (let n = unat (usbMsgLen (usb s)); (d, i) = usbMsgPtr (usb s)
      in if usbMsgFlags (usb s) AND USB_FLG_USE_USER_RW \<noteq> 0
         then (if read_command s then take n (drop (unat (ioBufferOffset s)) (io_buffer s)) else [])
         else take n (drop i (msg_bytes d s)))"

lemma tx_payload_pending: "tx_payload s = take 8 (pending_message s)"
  by (auto simp: block_payload_def pending_message_def split_beta Let_def min_def)

text \<open>The packets of a message.\<close>

function data_packets :: "u8 \<Rightarrow> u8 list \<Rightarrow> u8 list list" where
  "data_packets pid m =
     tx_packet pid (take 8 m) # (if length m < 8 then [] else data_packets (pid XOR 0x88) (drop 8 m))"
  by pat_completeness auto
termination
  by (relation "measure (\<lambda>(pid, m). length m)") auto

declare data_packets.simps [simp del]

definition payload :: "u8 list \<Rightarrow> u8 list" where
  "payload p = take (length p - 3) (drop 1 p)"

lemma payload_tx_packet [simp]: "payload (tx_packet pid p) = p"
  by (simp add: payload_def tx_packet_def)

lemma length_tx_packet: "length (tx_packet pid p) = length p + 3"
  by (simp add: tx_packet_def)

lemma concat_data_packets: "concat (map payload (data_packets pid m)) = m"
  by (induction pid m rule: data_packets.induct) (subst data_packets.simps, simp)

lemma length_data_packets: "length (data_packets pid m) = length m div 8 + 1"
  by (induction pid m rule: data_packets.induct)
    (subst data_packets.simps, simp add: le_div_geq)

section \<open>One packet\<close>

text \<open>A packet with payload \<open>take 8 m\<close> waits in \<open>usbTxBuf\<close> for the next IN token.\<close>

definition loaded :: "u8 \<Rightarrow> u8 list \<Rightarrow> fw \<Rightarrow> bool" where
  "loaded pid m s \<longleftrightarrow>
     usb_ok s \<and> usbRxLen (usb s) = 0 \<and>
     usbTxLen (usb s) = of_nat (length (take 8 m) + 4) \<and>
     take (length (take 8 m) + 3) (usbTxBuf (usb s)) = tx_packet pid (take 8 m) \<and>
     (if length m < 8 then usbMsgLen (usb s) = USB_NO_MSG
      else usbMsgLen (usb s) \<noteq> USB_NO_MSG \<and> pending_message s = drop 8 m)"

lemma pending_message_built:
  assumes "usb_ok s" "usbMsgLen (usb s) \<noteq> USB_NO_MSG" "length (tx_payload s) = 8"
    "length tail + length (tx_payload s) = 8"
  shows "pending_message (built_block tail s) = drop 8 (pending_message s)"
    and "usbMsgLen (usb (built_block tail s)) \<noteq> USB_NO_MSG"
proof -
  let ?s = "built_block tail s"
  obtain d i where p: "usbMsgPtr (usb s) = (d, i)" by (cases "usbMsgPtr (usb s)")
  have ge: "8 \<le> unat (usbMsgLen (usb s))"
    using assms(3) length_block_payload [of "block_length s" s] by simp
  have less: "unat (usbMsgLen (usb s)) < 256" by (rule unat_u8_less)
  have len: "usbMsgLen (usb ?s) = usbMsgLen (usb s) - 8"
    using assms(3) by (simp add: built_block_def Let_def)
  have sub: "unat (usbMsgLen (usb s) - 8) = unat (usbMsgLen (usb s)) - 8"
    using ge by (subst unat_sub) (simp_all add: word_le_nat_alt)
  then have "unat (usbMsgLen (usb ?s)) \<noteq> 255" using len less by simp
  then show "usbMsgLen (usb ?s) \<noteq> USB_NO_MSG" by auto
  have flags: "usbMsgFlags (usb ?s) = usbMsgFlags (usb s)"
    by (simp add: built_block_def block_taken_keeps Let_def)
  show "pending_message ?s = drop 8 (pending_message s)"
  proof (cases "usbMsgFlags (usb s) AND USB_FLG_USE_USER_RW \<noteq> 0")
    case True
    then have rd: "read_command s"
      using assms(3) by (auto simp: block_payload_def split_beta Let_def split: if_splits)
    have "read_command ?s" "io_buffer ?s = io_buffer s"
      using rd by (simp_all add: read_command_def io_buffer_def vector_command_def built_block_def
          block_taken_keeps Let_def)
    moreover have "unat (ioBufferOffset ?s) = unat (ioBufferOffset s) + 8"
    proof -
      have le: "unat (ioBufferOffset s) \<le> length (io_buffer s)" "length (io_buffer s) \<le> 192"
        using io_offset_le usb_okD(1,2) [OF assms(1)] rd by auto
      have "ioBufferOffset ?s = ioBufferOffset s + 8"
        using True rd assms(3) by (simp add: built_block_def block_taken_def split_beta Let_def)
      then show ?thesis using le by (simp add: unat_word_ariths)
    qed
    ultimately show ?thesis
      using True rd by (simp add: pending_message_def flags len sub split_beta Let_def drop_take add.commute)
  next
    case False
    have d: "d \<noteq> Obj_usbTxBuf"
    proof
      assume d: "d = Obj_usbTxBuf"
      have "msg_ok s" "usbMsgLen (usb s) \<noteq> 0" using assms(1) ge by (auto simp: usb_ok_def)
      with d False assms(2) have "9 \<le> i" "i + unat (usbMsgLen (usb s)) \<le> length (usbTxBuf (usb s))"
        by (auto simp: msg_ok_def p msg_bytes_def)
      then show False using ge usb_okD(1) [OF assms(1)] by (simp add: arrays_ok_def)
    qed
    have "usbMsgPtr (usb ?s) = (d, i + 8)"
      using False assms(3) by (simp add: built_block_def block_taken_def p Let_def)
    moreover have "msg_bytes d ?s = msg_bytes d s"
      using d False
      by (cases d) (simp_all add: msg_bytes_def built_block_def block_taken_def split_beta Let_def)
    ultimately show ?thesis
      using False by (simp add: pending_message_def flags len sub p Let_def drop_take add.commute)
  qed
qed

lemma block_taken_hw: "hw (block_taken n s) = hw s"
  by (simp add: block_taken_def split_beta Let_def)

lemma poll_tx_loads:
  assumes "usb_ok s" "usbRxLen (usb s) = 0" "usbTxLen (usb s) AND 0x10 \<noteq> 0"
    "usbMsgLen (usb s) \<noteq> USB_NO_MSG"
  shows "\<exists>s'. poll_tx s = Some s' \<and> loaded (usbTxBuf (usb s) ! 0 XOR 0x88) (pending_message s) s' \<and>
           usbTxBuf (usb s') ! 0 = usbTxBuf (usb s) ! 0 XOR 0x88 \<and>
           usbDeviceAddr (usb s') = usbDeviceAddr (usb s) \<and>
           usbNewDeviceAddr (usb s') = usbNewDeviceAddr (usb s) \<and> keeps_transfer s s' \<and>
           command s' = command s \<and> ioBuffer s' = ioBuffer s \<and> sampleVector s' = sampleVector s \<and>
           ctx s' = ctx s \<and> hw s' = hw s"
proof -
  from usb_okD [OF assms(1)] usbBuildTxBlock_eq [of s] assms(4) obtain tail where
    t: "usbBuildTxBlock s = Some (built_block tail s)" "length tail + length (tx_payload s) = 8"
    by blast
  let ?s = "built_block tail s"
  let ?pid = "usbTxBuf (usb s) ! 0 XOR 0x88"
  have ok: "usb_ok ?s" using assms(1,4) t(2) by (rule built_block_ok)
  have buf: "usbTxBuf (usb ?s) = tx_packet ?pid (take 8 (pending_message s)) @ tail"
    "usbTxLen (usb ?s) = of_nat (length (take 8 (pending_message s)) + 4)"
    by (simp_all add: built_block_def tx_payload_pending Let_def)
  have len: "usbMsgLen (usb ?s) = USB_NO_MSG" if "length (pending_message s) < 8"
    using that by (simp add: built_block_def tx_payload_pending Let_def)
  have "take (length (take 8 (pending_message s)) + 3) (usbTxBuf (usb ?s)) =
      tx_packet ?pid (take 8 (pending_message s))"
    unfolding buf(1) by (subst length_tx_packet [symmetric, of _ ?pid]) simp
  moreover have "usbRxLen (usb ?s) = 0"
    using assms(2) by (simp add: built_block_def block_taken_keeps Let_def)
  moreover have "usbMsgLen (usb ?s) \<noteq> USB_NO_MSG \<and> pending_message ?s = drop 8 (pending_message s)"
    if "\<not> length (pending_message s) < 8"
    using that pending_message_built [OF assms(1,4) _ t(2)] by (simp add: tx_payload_pending)
  ultimately have "loaded ?pid (pending_message s) ?s"
    unfolding loaded_def using ok buf(2) len by simp
  moreover have "usbDeviceAddr (usb ?s) = usbDeviceAddr (usb s)"
    "usbNewDeviceAddr (usb ?s) = usbNewDeviceAddr (usb s)" "keeps_transfer s ?s" "ctx ?s = ctx s"
    "command ?s = command s" "ioBuffer ?s = ioBuffer s" "sampleVector ?s = sampleVector s" "hw ?s = hw s"
    by (simp_all add: built_block_def block_taken_keeps block_taken_hw keeps_transfer_upd Let_def)
      (simp_all add: block_taken_def split_beta Let_def)
  moreover have "usbTxBuf (usb ?s) ! 0 = ?pid" by (simp add: buf tx_packet_def)
  ultimately show ?thesis using assms(3,4) t(1) by (simp add: poll_tx_def)
qed

section \<open>The data stage to the host\<close>

text \<open>
  The host asks for packets with IN tokens; the main loop serves the driver after each. The stage
  ends when the device has nothing to send.
\<close>

fun in_stage :: "nat \<Rightarrow> u8 \<Rightarrow> fw \<Rightarrow> (u8 list list \<times> fw) option" where
  "in_stage 0 addr s = Some ([], s)"
| "in_stage (Suc n) addr s =
     (case usb_rx_packet [USBPID_IN, addr, 0] (usb s) of
        (u, Data_Packet p) \<Rightarrow> do {
          s \<leftarrow> serve_usb (s\<lparr>usb := u\<rparr>);
          (ps, s) \<leftarrow> in_stage n addr s;
          Some (p # ps, s)
        }
      | (u, _) \<Rightarrow> Some ([], s\<lparr>usb := u\<rparr>))"

definition undisturbed :: "fw \<Rightarrow> fw \<Rightarrow> bool" where
  "undisturbed s s' \<longleftrightarrow>
     keeps_transfer s s' \<and> ctx s' = ctx s \<and> command s' = command s \<and> ioBuffer s' = ioBuffer s \<and>
     sampleVector s' = sampleVector s \<and> hw s' = hw s"

lemma undisturbed_refl [simp]: "undisturbed s s"
  by (simp add: undisturbed_def)

lemma undisturbed_thresholds: "undisturbed s s' \<Longrightarrow> thresholds s' = thresholds s"
  by (simp add: undisturbed_def keeps_thresholds)

lemma undisturbed_trans: "undisturbed s t \<Longrightarrow> undisturbed t r \<Longrightarrow> undisturbed s r"
  by (auto simp: undisturbed_def intro: keeps_transfer_trans)

lemma undisturbed_usb [simp]: "undisturbed s (s\<lparr>usb := u\<rparr>)"
  by (simp add: undisturbed_def)

text \<open>The device's address is \<open>addr\<close>, and no change of it is pending.\<close>

definition addressed :: "u8 \<Rightarrow> usbdrv \<Rightarrow> bool" where
  "addressed addr u \<longleftrightarrow> usbDeviceAddr u = push_bit 1 addr \<and> push_bit 1 (usbNewDeviceAddr u) = push_bit 1 addr"

lemma serve_usb_idle:
  assumes "usb_ok s" "usbRxLen (usb s) = 0"
  shows "serve_usb s = poll_tx s"
  using assms by (simp add: serve_usb_def poll_rx_eq packet_data_def)

lemma rx_buf_update:
  assumes "usb_ok s" "length pkt \<le> 11"
  shows "usb_ok (s\<lparr>usb := (usb s)\<lparr>usbRxBuf := pkt @ drop (length pkt) (usbRxBuf (usb s))\<rparr>\<rparr>)"
  using assms
  by (intro usb_ok_change) (simp_all add: usb_ok_def arrays_ok_def tx_ok_def)

lemma in_packet_nak:
  assumes "usb_ok s" "addressed addr (usb s)" "usbRxLen (usb s) = 0" "usbTxLen (usb s) = USBPID_NAK"
  shows "\<exists>u. usb_rx_packet [USBPID_IN, addr, 0] (usb s) = (u, Handshake USBPID_NAK) \<and>
     usb_ok (s\<lparr>usb := u\<rparr>) \<and> addressed addr u \<and> usbRxLen u = 0"
  using assms rx_buf_update [OF assms(1), of "[USBPID_IN, addr, 0]"]
  by (auto simp: usb_rx_packet_def handleIn_def addressed_def Let_def)

lemma in_packet_loaded:
  assumes "loaded pid m s" "addressed addr (usb s)" "usbTxBuf (usb s) ! 0 = pid"
  shows "\<exists>u. usb_rx_packet [USBPID_IN, addr, 0] (usb s) = (u, Data_Packet (tx_packet pid (take 8 m))) \<and>
     usb_ok (s\<lparr>usb := u\<rparr>) \<and> addressed addr u \<and> usbRxLen u = 0 \<and> usbTxLen u = USBPID_NAK \<and>
     usbTxBuf u ! 0 = pid \<and> usbMsgLen u = usbMsgLen (usb s) \<and>
     pending_message (s\<lparr>usb := u\<rparr>) = pending_message s"
proof -
  let ?n = "length (take 8 m)"
  have n: "?n \<le> 8" by simp
  note s = assms(1) [unfolded loaded_def]
  have tok: "usbTxLen (usb s) AND 0x10 = 0" "unat (usbTxLen (usb s)) - 1 = ?n + 3"
    using s token_of_length [OF n] by simp_all
  have ok: "usb_ok s" using s by blast
  let ?u = "(usb s)\<lparr>usbRxBuf := [USBPID_IN, addr, 0] @ drop (length [USBPID_IN, addr, 0]) (usbRxBuf (usb s)),
    usbTxLen := USBPID_NAK, usbDeviceAddr := push_bit 1 (usbNewDeviceAddr (usb s))\<rparr>"
  have "usb_rx_packet [USBPID_IN, addr, 0] (usb s) = (?u, Data_Packet (tx_packet pid (take 8 m)))"
    using s tok assms(2)
    by (simp add: usb_rx_packet_def handleIn_def addressed_def Let_def)
  moreover have "usb_ok (s\<lparr>usb := ?u\<rparr>)"
    using ok s by (intro usb_ok_change) (simp_all add: usb_ok_def arrays_ok_def tx_ok_def)
  moreover have "msg_bytes d (s\<lparr>usb := ?u\<rparr>) = msg_bytes d s" for d
    by (cases d) (simp_all add: msg_bytes_def)
  then have "pending_message (s\<lparr>usb := ?u\<rparr>) = pending_message s"
    by (simp add: pending_message_def read_command_def io_buffer_def vector_command_def split_beta Let_def)
  ultimately show ?thesis using assms(2,3) s by (auto simp: addressed_def)
qed

text \<open>Once the message is over, an IN packet gets a NAK.\<close>

lemma in_stage_empty:
  assumes "usb_ok s" "addressed addr (usb s)" "usbRxLen (usb s) = 0" "usbTxLen (usb s) = USBPID_NAK"
  shows "\<exists>s'. in_stage n addr s = Some ([], s') \<and> usb_ok s' \<and> undisturbed s s' \<and>
    addressed addr (usb s') \<and> usbRxLen (usb s') = 0"
proof (cases n)
  case 0
  then show ?thesis using assms by simp
next
  case (Suc k)
  obtain w where "usb_rx_packet [USBPID_IN, addr, 0] (usb s) = (w, Handshake USBPID_NAK)"
    "usb_ok (s\<lparr>usb := w\<rparr>)" "addressed addr w" "usbRxLen w = 0"
    using in_packet_nak [of s addr] assms by auto
  then show ?thesis using Suc by (simp add: undisturbed_def keeps_transfer_def)
qed

lemma in_stage_loaded:
  assumes "loaded pid m s" "addressed addr (usb s)" "usbTxBuf (usb s) ! 0 = pid" "length m div 8 < n"
  shows "\<exists>s'. in_stage n addr s = Some (data_packets pid m, s') \<and> usb_ok s' \<and> undisturbed s s' \<and>
           addressed addr (usb s') \<and> usbRxLen (usb s') = 0"
  using assms
proof (induction n arbitrary: pid m s)
  case 0
  then show ?case by simp
next
  case (Suc n)
  from in_packet_loaded [OF Suc.prems(1-3)] obtain u where
    u: "usb_rx_packet [USBPID_IN, addr, 0] (usb s) = (u, Data_Packet (tx_packet pid (take 8 m)))"
      "usb_ok (s\<lparr>usb := u\<rparr>)" "addressed addr u" "usbRxLen u = 0" "usbTxLen u = USBPID_NAK"
      "usbTxBuf u ! 0 = pid" "usbMsgLen u = usbMsgLen (usb s)"
      "pending_message (s\<lparr>usb := u\<rparr>) = pending_message s" by blast
  let ?s = "s\<lparr>usb := u\<rparr>"
  have serve: "serve_usb ?s = poll_tx ?s"
    using u by (simp add: serve_usb_idle)
  show ?case
  proof (cases "length m < 8")
    case True
    then have "usbMsgLen u = USB_NO_MSG" using Suc.prems(1) u(7) by (simp add: loaded_def)
    then have "serve_usb ?s = Some ?s" by (simp add: serve poll_tx_def)
    moreover have "\<exists>s'. in_stage n addr ?s = Some ([], s') \<and> usb_ok s' \<and> undisturbed ?s s' \<and>
        addressed addr (usb s') \<and> usbRxLen (usb s') = 0"
      using u by (intro in_stage_empty) simp_all
    ultimately show ?thesis
      using True u(1) by (subst data_packets.simps) (auto simp: undisturbed_def keeps_transfer_def)
  next
    case False
    then have msg: "usbMsgLen (usb ?s) \<noteq> USB_NO_MSG" "pending_message ?s = drop 8 m"
      using Suc.prems(1) u(7,8) by (simp_all add: loaded_def)
    have "usb_ok ?s" "usbRxLen (usb ?s) = 0" "usbTxLen (usb ?s) AND 0x10 \<noteq> 0"
      using u by simp_all
    from poll_tx_loads [OF this msg(1)] obtain t where
      t: "poll_tx ?s = Some t" "loaded (pid XOR 0x88) (drop 8 m) t"
        "usbTxBuf (usb t) ! 0 = pid XOR 0x88" "usbDeviceAddr (usb t) = usbDeviceAddr u"
        "usbNewDeviceAddr (usb t) = usbNewDeviceAddr u" "undisturbed ?s t"
      using u(6) msg(2) by (auto simp: undisturbed_def)
    have "length (drop 8 m) div 8 < n"
      using Suc.prems(4) False by (simp add: div_less_iff_less_mult less_diff_conv2)
    moreover have "addressed addr (usb t)" using t u(3) by (simp add: addressed_def)
    ultimately obtain s' where
      s': "in_stage n addr t = Some (data_packets (pid XOR 0x88) (drop 8 m), s')" "usb_ok s'"
        "undisturbed t s'" "addressed addr (usb s')" "usbRxLen (usb s') = 0"
      using Suc.IH [OF t(2) _ t(3)] by blast
    moreover have "undisturbed s s'"
      by (rule undisturbed_trans [OF undisturbed_usb undisturbed_trans [OF t(6) s'(3)]])
    ultimately show ?thesis
      using False u(1) serve t(1) by (subst data_packets.simps) simp
  qed
qed

section \<open>The setup stage\<close>

text \<open>The two packets of a setup stage: the SETUP token and the eight bytes of the request.\<close>

definition setup_packets :: "u8 \<Rightarrow> usbRequest \<Rightarrow> u8 list list" where
  "setup_packets addr rq = [[USBPID_SETUP, addr, 0], tx_packet USBPID_DATA0 (usbRequest_bytes rq)]"

text \<open>A control transfer to the host: the setup stage, then up to \<open>n\<close> IN tokens.\<close>

definition control_in :: "nat \<Rightarrow> u8 \<Rightarrow> usbRequest \<Rightarrow> fw \<Rightarrow> (u8 list list \<times> fw) option" where
  "control_in n addr rq s = do {
     s \<leftarrow> serve_usb (s\<lparr>usb := fst (USB_INTR_VECTOR (setup_packets addr rq) (usb s))\<rparr>);
     in_stage n addr s
   }"

lemma setup_received:
  assumes "usb_ok s" "addressed addr (usb s)" "usbRxLen (usb s) = 0"
  shows "\<exists>u. USB_INTR_VECTOR (setup_packets addr rq) (usb s) = (u, [No_Answer, Handshake USBPID_ACK]) \<and>
     usb_ok (s\<lparr>usb := u\<rparr>) \<and> addressed addr u \<and> usbRxToken u = USBPID_SETUP \<and>
     packet_data u = Some (usbRequest_bytes rq) \<and> usbTxBuf u = usbTxBuf (usb s)"
proof -
  let ?u = "fst (USB_INTR_VECTOR (setup_packets addr rq) (usb s))"
  obtain buf where buf: "drop 11 (usbRxBuf (usb s)) = buf" "length (usbRxBuf (usb s)) = 22"
    using assms(1) by (simp add: usb_ok_def arrays_ok_def)
  have "usb_ok (s\<lparr>usb := ?u\<rparr>)"
    using assms(1) buf(2) by (intro usb_ok_rx USB_INTR_VECTOR_ok) simp_all
  moreover have "snd (USB_INTR_VECTOR (setup_packets addr rq) (usb s)) = [No_Answer, Handshake USBPID_ACK]"
    "addressed addr ?u" "usbRxToken ?u = USBPID_SETUP" "usbRxLen ?u = 11" "usbTxBuf ?u = usbTxBuf (usb s)"
    "take 8 (drop 1 (usbRxBuf ?u)) = usbRequest_bytes rq"
    using assms(2,3) buf(2)
    by (simp_all add: setup_packets_def usb_rx_packet_def handleData_def addressed_def tx_packet_def
        usbRequest_bytes_def Let_def)
  ultimately show ?thesis
    by (intro exI [of _ ?u]) (simp add: packet_data_def prod_eq_iff)
qed

lemma unat_limit_reply: "unat (limit_reply rq n) = min (unat (wLength rq)) (unat n)"
proof -
  have w: "unat (wLength rq) = unat (lo8 (wLength rq)) + 256 * unat (hi8 (wLength rq))"
    using unat_le16 [of "lo8 (wLength rq)" "hi8 (wLength rq)"] by simp
  have n: "unat n < 256" by (rule unat_u8_less)
  show ?thesis
  proof (cases "hi8 (wLength rq) = 0")
    case True
    then show ?thesis using w by (auto simp: limit_reply_def word_less_nat_alt min_def)
  next
    case False
    then have "0 < unat (hi8 (wLength rq))" by (simp add: unat_gt_0)
    then have "256 \<le> unat (wLength rq)" using w by simp
    with False n show ?thesis by (simp add: limit_reply_def min_def)
  qed
qed

text \<open>
  After the setup packet is processed, a reply of the setup function is the pending message, cut
  at the length the host asked for.
\<close>

definition after_setup :: "usbRequest \<Rightarrow> fw \<Rightarrow> fw" where
  "after_setup rq s =
     upd_usb (usbRxLen_update (\<lambda>_. 0)) (setup_stage rq (setup_result rq (setup_entry s)))"

lemma setup_reply_entry [simp]: "setup_reply rq (setup_entry s) = setup_reply rq s"
  by (simp add: setup_reply_def setup_entry_def transfer_status_def)

lemma setup_effect_entry:
  "ctx (setup_effect rq (setup_entry s)) = ctx (setup_effect rq s)"
  "hw (setup_effect rq (setup_entry s)) = hw (setup_effect rq s)"
  "command (setup_effect rq (setup_entry s)) = command (setup_effect rq s)"
  "ioBufferOffset (setup_effect rq (setup_entry s)) = ioBufferOffset (setup_effect rq s)"
  by (simp_all add: setup_effect_def setup_entry_def)

lemma poll_rx_setup:
  assumes "usb_ok s" "usbRxToken (usb s) = USBPID_SETUP" "packet_data (usb s) = Some (usbRequest_bytes rq)"
    "bmRequestType rq AND USBRQ_TYPE_MASK \<noteq> USBRQ_TYPE_STANDARD"
  shows "poll_rx (Suc 0) s = Some (after_setup rq s)" and "usb_ok (after_setup rq s)"
proof -
  have "arrays_ok s" using assms(1) by (simp add: usb_ok_def)
  then show eq: "poll_rx (Suc 0) s = Some (after_setup rq s)"
    using assms by (simp add: poll_rx_eq usbProcessRx_def process_setup_eq after_setup_def Let_def)
  have "write_expected s" using assms(2) by (simp add: write_expected_def)
  with poll_rx_ok [OF assms(1)] eq show "usb_ok (after_setup rq s)" by simp
qed

lemma after_setup_simps:
  assumes "arrays_ok s"
  shows "usbRxLen (usb (after_setup rq s)) = 0" "usbTxLen (usb (after_setup rq s)) = USBPID_NAK"
    "usbTxBuf (usb (after_setup rq s)) ! 0 = USBPID_DATA0"
    "usbDeviceAddr (usb (after_setup rq s)) = usbDeviceAddr (usb s)"
    "usbNewDeviceAddr (usb (after_setup rq s)) = usbNewDeviceAddr (usb s)"
    "ctx (after_setup rq s) = ctx (setup_effect rq s)"
    "hw (after_setup rq s) = hw (setup_effect rq s)"
    "command (after_setup rq s) = command (setup_effect rq s)"
    "ioBuffer (after_setup rq s) = ioBuffer s" "sampleVector (after_setup rq s) = sampleVector s"
    "thresholds (after_setup rq s) = thresholds s"
    "opOffset (after_setup rq s) = opOffset s" "opLength (after_setup rq s) = opLength s"
proof -
  have "0 < length (usbTxBuf (usb s))" using assms by (simp add: arrays_ok_def)
  then show "usbRxLen (usb (after_setup rq s)) = 0" "usbTxLen (usb (after_setup rq s)) = USBPID_NAK"
    "usbTxBuf (usb (after_setup rq s)) ! 0 = USBPID_DATA0"
    "usbDeviceAddr (usb (after_setup rq s)) = usbDeviceAddr (usb s)"
    "usbNewDeviceAddr (usb (after_setup rq s)) = usbNewDeviceAddr (usb s)"
    by (simp_all add: after_setup_def setup_stage_def setup_result_def setup_entry_def Let_def split_beta)
  show "ctx (after_setup rq s) = ctx (setup_effect rq s)"
    "hw (after_setup rq s) = hw (setup_effect rq s)"
    "command (after_setup rq s) = command (setup_effect rq s)"
    "ioBuffer (after_setup rq s) = ioBuffer s" "sampleVector (after_setup rq s) = sampleVector s"
    "thresholds (after_setup rq s) = thresholds s"
    "opOffset (after_setup rq s) = opOffset s" "opLength (after_setup rq s) = opLength s"
    by (simp_all add: after_setup_def setup_stage_def setup_result_def split_beta Let_def setup_effect_entry thresholds_def)
      (simp_all add: setup_entry_def)
qed

lemma after_setup_reply:
  assumes "arrays_ok s" "\<not> buffer_command (bRequest rq)"
  shows "pending_message (after_setup rq s) = take (unat (wLength rq)) (setup_reply rq s)"
    and "usbMsgLen (usb (after_setup rq s)) \<noteq> USB_NO_MSG"
proof -
  let ?vs = "setup_reply rq s"
  let ?n = "of_nat (length ?vs) :: u8"
  have n: "unat ?n = length ?vs" "length ?vs \<le> 7"
    using length_setup_reply [of rq s] by (simp_all add: unat_of_nat)
  then have "?n \<noteq> USB_NO_MSG" by (auto simp: word_unat_eq_iff)
  then have len: "usbMsgLen (usb (after_setup rq s)) = limit_reply rq ?n"
    using assms(2)
    by (simp add: after_setup_def setup_stage_def setup_result_def Let_def)
  then show "usbMsgLen (usb (after_setup rq s)) \<noteq> USB_NO_MSG"
    using unat_limit_reply [of rq ?n] n by (auto simp: word_unat_eq_iff)
  have flags: "usbMsgFlags (usb (after_setup rq s)) = 0"
    using assms(2) \<open>?n \<noteq> USB_NO_MSG\<close>
    by (simp add: after_setup_def setup_stage_def setup_result_def Let_def) (simp add: setup_entry_def)
  have "usbMsgPtr (usb (after_setup rq s)) = (Obj_response, 0)"
    "response (after_setup rq s) = ?vs @ drop (length ?vs) (response s)" if "?vs \<noteq> []"
    using assms(2) that \<open>?n \<noteq> USB_NO_MSG\<close>
    by (simp_all add: after_setup_def setup_stage_def setup_result_def Let_def) (simp add: setup_entry_def)
  then show "pending_message (after_setup rq s) = take (unat (wLength rq)) ?vs"
    using len flags n unat_limit_reply [of rq ?n]
    by (cases "?vs = []") (simp_all add: pending_message_def msg_bytes_def Let_def split_beta min_def)
qed

lemma after_setup_read:
  assumes "bRequest rq \<in> {PROTO_CMD_PULSE_VECTOR_READ, PROTO_CMD_SAMPLE_VECTOR_READ}"
    "bmRequestType rq AND USBRQ_DIR_MASK \<noteq> USBRQ_DIR_HOST_TO_DEVICE"
  shows "pending_message (after_setup rq s) =
           take (unat (lo8 (wLength rq)))
             (if bRequest rq = PROTO_CMD_PULSE_VECTOR_READ then ioBuffer s else sampleVector s)"
    and "usbMsgLen (usb (after_setup rq s)) = lo8 (wLength rq)"
  using assms
  by (auto simp: after_setup_def setup_stage_def setup_result_def setup_effect_def setup_entry_def
      buffer_command_def pending_message_def read_command_def io_buffer_def vector_command_def Let_def)

lemma control_in_packets:
  assumes "usb_ok s" "addressed addr (usb s)" "usbRxLen (usb s) = 0"
    "bmRequestType rq AND USBRQ_TYPE_MASK \<noteq> USBRQ_TYPE_STANDARD"
    and "\<And>u. arrays_ok (s\<lparr>usb := u\<rparr>) \<Longrightarrow> usbMsgLen (usb (after_setup rq (s\<lparr>usb := u\<rparr>))) \<noteq> USB_NO_MSG"
    and "\<And>u. arrays_ok (s\<lparr>usb := u\<rparr>) \<Longrightarrow> pending_message (after_setup rq (s\<lparr>usb := u\<rparr>)) = m"
    and "length m div 8 < n"
  shows "\<exists>s'. control_in n addr rq s = Some (data_packets USBPID_DATA1 m, s') \<and> usb_ok s' \<and>
           addressed addr (usb s') \<and> usbRxLen (usb s') = 0 \<and>
           ctx s' = ctx (setup_effect rq s) \<and> command s' = command (setup_effect rq s) \<and>
           ioBuffer s' = ioBuffer s \<and> sampleVector s' = sampleVector s \<and> thresholds s' = thresholds s \<and>
           hw s' = hw (setup_effect rq s) \<and> opOffset s' = opOffset s \<and> opLength s' = opLength s"
proof -
  obtain u where u: "USB_INTR_VECTOR (setup_packets addr rq) (usb s) = (u, [No_Answer, Handshake USBPID_ACK])"
    "usb_ok (s\<lparr>usb := u\<rparr>)" "addressed addr u" "usbRxToken u = USBPID_SETUP"
    "packet_data u = Some (usbRequest_bytes rq)"
    using setup_received [OF assms(1-3)] by blast
  let ?s = "s\<lparr>usb := u\<rparr>"
  let ?t = "after_setup rq ?s"
  have arr: "arrays_ok ?s" using u(2) by (simp add: usb_ok_def)
  note t = after_setup_simps [OF arr, of rq]
  have rx: "poll_rx (Suc 0) ?s = Some ?t" and ok: "usb_ok ?t"
    using poll_rx_setup [of ?s rq] u assms(4) by simp_all
  have "usbTxLen (usb ?t) AND 0x10 \<noteq> 0" by (simp add: t)
  from poll_tx_loads [OF ok t(1) this assms(5) [OF arr]] obtain r where
    r: "poll_tx ?t = Some r" "loaded USBPID_DATA1 m r" "usbTxBuf (usb r) ! 0 = USBPID_DATA1"
      "usbDeviceAddr (usb r) = usbDeviceAddr u" "usbNewDeviceAddr (usb r) = usbNewDeviceAddr u"
      "undisturbed ?t r"
    using assms(6) [OF arr] t by (auto simp: undisturbed_def)
  have "addressed addr (usb r)" using r u(3) by (simp add: addressed_def)
  from in_stage_loaded [OF r(2) this r(3) assms(7)] obtain s' where
    s': "in_stage n addr r = Some (data_packets USBPID_DATA1 m, s')" "usb_ok s'" "undisturbed r s'"
      "addressed addr (usb s')" "usbRxLen (usb s') = 0" by blast
  have "setup_effect rq ?s = (setup_effect rq s)\<lparr>usb := u\<rparr>" by (simp add: setup_effect_def)
  then have "ctx s' = ctx (setup_effect rq s)" "command s' = command (setup_effect rq s)"
    "ioBuffer s' = ioBuffer s" "sampleVector s' = sampleVector s" "hw s' = hw (setup_effect rq s)"
    "opOffset s' = opOffset s" "opLength s' = opLength s"
    using undisturbed_trans [OF r(6) s'(3)] t by (simp_all add: undisturbed_def keeps_transfer_def)
  moreover have "thresholds s' = thresholds s"
    using undisturbed_thresholds [OF undisturbed_trans [OF r(6) s'(3)]] t by simp
  ultimately show ?thesis using s' r(1) rx u(1) by (simp add: control_in_def serve_usb_def)
qed

section \<open>The data stage from the host\<close>

text \<open>The host sends the data in packets of eight bytes with alternating PIDs.\<close>

function chunks :: "'a list \<Rightarrow> 'a list list" where
  "chunks m = (if m = [] then [] else take 8 m # chunks (drop 8 m))"
  by pat_completeness auto
termination
  by (relation "measure length") auto

declare chunks.simps [simp del]

definition out_packet :: "u8 \<Rightarrow> u8 \<Rightarrow> u8 list \<Rightarrow> fw \<Rightarrow> fw option" where
  "out_packet addr pid p s =
     serve_usb (s\<lparr>usb := fst (USB_INTR_VECTOR [[USBPID_OUT, addr, 0], tx_packet pid p] (usb s))\<rparr>)"

fun out_stage :: "u8 \<Rightarrow> u8 \<Rightarrow> u8 list list \<Rightarrow> fw \<Rightarrow> fw option" where
  "out_stage addr pid [] s = Some s"
| "out_stage addr pid (p # ps) s = do {
     s \<leftarrow> out_packet addr pid p s;
     out_stage addr (pid XOR 0x88) ps s
   }"

definition control_out :: "u8 \<Rightarrow> usbRequest \<Rightarrow> u8 list \<Rightarrow> fw \<Rightarrow> fw option" where
  "control_out addr rq m s = do {
     s \<leftarrow> serve_usb (s\<lparr>usb := fst (USB_INTR_VECTOR (setup_packets addr rq) (usb s))\<rparr>);
     out_stage addr USBPID_DATA1 (chunks m) s
   }"

definition write_ready :: "u8 \<Rightarrow> fw \<Rightarrow> bool" where
  "write_ready addr s \<longleftrightarrow>
     usb_ok s \<and> usbRxLen (usb s) = 0 \<and> addressed addr (usb s) \<and> write_command s \<and>
     usbMsgFlags (usb s) AND USB_FLG_USE_USER_RW \<noteq> 0"

text \<open>What a data packet does to the buffer of the pending write command.\<close>

definition written :: "u8 list \<Rightarrow> fw \<Rightarrow> fw" where
  "written p s =
     (let i = unat (ioBufferOffset s); buf = io_buffer s; k = min (length p) (length buf - i)
      in set_io_buffer (take i buf @ take k p @ drop (i + k) buf)
           (s\<lparr>ioBufferOffset := ioBufferOffset s + of_nat k\<rparr>))"

lemma poll_tx_keeps:
  assumes "usb_ok s" "\<not> read_command s"
  shows "\<exists>s'. poll_tx s = Some s' \<and> usb_ok s' \<and> undisturbed s s' \<and>
           ioBufferOffset s' = ioBufferOffset s \<and> usbRxLen (usb s') = usbRxLen (usb s) \<and>
           usbMsgFlags (usb s') = usbMsgFlags (usb s) \<and> usbDeviceAddr (usb s') = usbDeviceAddr (usb s) \<and>
           usbNewDeviceAddr (usb s') = usbNewDeviceAddr (usb s)"
proof (cases "usbTxLen (usb s) AND 0x10 \<noteq> 0 \<and> usbMsgLen (usb s) \<noteq> USB_NO_MSG")
  case True
  with usb_okD [OF assms(1)] usbBuildTxBlock_eq [of s] obtain tail where
    t: "usbBuildTxBlock s = Some (built_block tail s)" "length tail + length (tx_payload s) = 8"
    by blast
  let ?s = "built_block tail s"
  have "undisturbed s ?s" "usbRxLen (usb ?s) = usbRxLen (usb s)"
      "usbMsgFlags (usb ?s) = usbMsgFlags (usb s)"
    by (simp_all add: built_block_def undisturbed_def block_taken_keeps block_taken_hw keeps_transfer_upd Let_def)
  moreover have "ioBufferOffset ?s = ioBufferOffset s" "usbDeviceAddr (usb ?s) = usbDeviceAddr (usb s)"
    "usbNewDeviceAddr (usb ?s) = usbNewDeviceAddr (usb s)"
    using assms(2) by (simp_all add: built_block_def block_taken_def split_beta Let_def)
  ultimately show ?thesis
    using True t built_block_ok [OF assms(1)] by (simp add: poll_tx_def)
next
  case False
  then show ?thesis using assms by (auto simp: poll_tx_def)
qed

lemma written_keeps:
  "usb (written p s) = usb s" "command (written p s) = command s" "ctx (written p s) = ctx s"
  "keeps_transfer s (written p s)"
  by (simp_all add: written_def set_io_buffer_def keeps_transfer_def Let_def)

lemma out_received:
  assumes "write_ready addr s" "0 < length p" "length p \<le> 8" "pid = USBPID_DATA0 \<or> pid = USBPID_DATA1"
  shows "\<exists>u. USB_INTR_VECTOR [[USBPID_OUT, addr, 0], tx_packet pid p] (usb s) =
       (u, [No_Answer, Handshake USBPID_ACK]) \<and>
     usb_ok (s\<lparr>usb := u\<rparr>) \<and> addressed addr u \<and> usbRxToken u = USBPID_OUT \<and>
     packet_data u = Some p \<and> usbMsgFlags u = usbMsgFlags (usb s)"
proof -
  let ?u = "fst (USB_INTR_VECTOR [[USBPID_OUT, addr, 0], tx_packet pid p] (usb s))"
  have s: "usb_ok s" "addressed addr (usb s)" "usbRxLen (usb s) = 0"
    using assms(1) by (simp_all add: write_ready_def)
  have buf: "length (usbRxBuf (usb s)) = 22" using s(1) by (simp add: usb_ok_def arrays_ok_def)
  have len: "length (tx_packet pid p) = length p + 3" by (rule length_tx_packet)
  have cnt: "unat (of_nat (length p + 3) :: u8) = length p + 3"
    using assms(3) by (simp only: unat_of_nat) simp
  have ge: "\<not> of_nat (length p + 3) < (4 :: u8)"
    unfolding word_less_nat_alt cnt using assms(2) by simp
  have hd: "tx_packet pid p ! 0 = pid" "tx_packet pid p \<noteq> []" by (simp_all add: tx_packet_def)
  have "usb_ok (s\<lparr>usb := ?u\<rparr>)"
    using s(1) buf by (intro usb_ok_rx USB_INTR_VECTOR_ok) simp_all
  moreover have "snd (USB_INTR_VECTOR [[USBPID_OUT, addr, 0], tx_packet pid p] (usb s)) =
      [No_Answer, Handshake USBPID_ACK]"
    "addressed addr ?u" "usbRxToken ?u = USBPID_OUT" "usbRxLen ?u = of_nat (length p + 3)"
    "usbMsgFlags ?u = usbMsgFlags (usb s)"
    "usbRxBuf ?u = tx_packet pid p @ drop (length p + 3) ([USBPID_OUT, addr, 0] @ drop (length [USBPID_OUT, addr, 0]) (usbRxBuf (usb s)))"
    using s(2,3) assms(3,4) ge len hd
    by (auto simp: usb_rx_packet_def handleData_def addressed_def nth_append Let_def
        simp del: of_nat_add)
  moreover from this cnt have "packet_data ?u = Some p"
    by (simp add: packet_data_def tx_packet_def)
  ultimately show ?thesis by (intro exI [of _ ?u]) (simp add: prod_eq_iff)
qed

lemma out_packet_writes:
  assumes "write_ready addr s" "0 < length p" "length p \<le> 8" "pid = USBPID_DATA0 \<or> pid = USBPID_DATA1"
  shows "\<exists>s'. out_packet addr pid p s = Some s' \<and> write_ready addr s' \<and>
           command s' = command s \<and> ioBufferOffset s' = ioBufferOffset (written p s) \<and>
           ioBuffer s' = ioBuffer (written p s) \<and> sampleVector s' = sampleVector (written p s) \<and>
           ctx s' = ctx s \<and> thresholds s' = thresholds s"
proof -
  obtain u where u: "USB_INTR_VECTOR [[USBPID_OUT, addr, 0], tx_packet pid p] (usb s) =
      (u, [No_Answer, Handshake USBPID_ACK])"
    "usb_ok (s\<lparr>usb := u\<rparr>)" "addressed addr u" "usbRxToken u = USBPID_OUT"
    "packet_data u = Some p" "usbMsgFlags u = usbMsgFlags (usb s)"
    using out_received [OF assms] by blast
  let ?s = "s\<lparr>usb := u\<rparr>"
  have wc: "write_command ?s" using assms(1) by (simp add: write_ready_def write_command_def)
  have rw: "usbMsgFlags (usb ?s) AND USB_FLG_USE_USER_RW \<noteq> 0"
    using assms(1) u(6) by (simp add: write_ready_def)
  note ok = usb_okD [OF u(2)]
  let ?k = "min (length p) (length (io_buffer ?s) - unat (ioBufferOffset ?s))"
  let ?w = "written p ?s"
  have fw: "usbFunctionWrite p ?s = Some (of_nat ?k, ?w)"
    using usbFunctionWrite_eq [OF ok(1,2) wc] by (simp add: written_def Let_def)
  have "(of_nat ?k :: u8) \<noteq> 0xff"
    using assms(3) by (auto simp: word_unat_eq_iff unat_of_nat)
  then obtain l where l: "poll_rx (Suc 0) ?s = Some (upd_usb (\<lambda>u. u\<lparr>usbMsgLen := l, usbRxLen := 0\<rparr>) ?w)"
  proof -
    have "usb ?w = u" by (simp add: written_keeps)
    moreover have "u\<lparr>usbMsgLen := usbMsgLen u, usbRxLen := 0\<rparr> = u\<lparr>usbRxLen := 0\<rparr>" by simp
    moreover assume "(of_nat ?k :: u8) \<noteq> 0xff"
    ultimately show ?thesis
      using that [of "if (of_nat ?k :: u8) = 0 then usbMsgLen u else 0"] u fw rw poll_rx_eq [OF u(2)]
      by (cases "(of_nat ?k :: u8) = 0") (simp_all add: usbProcessRx_def)
  qed
  let ?t = "upd_usb (\<lambda>u. u\<lparr>usbMsgLen := l, usbRxLen := 0\<rparr>) ?w"
  have "write_expected ?s" using wc by (simp add: write_expected_def write_command_def)
  then have "usb_ok ?t" using poll_rx_ok [OF u(2)] l by simp
  moreover have "\<not> read_command ?t"
    using wc by (auto simp: read_command_def write_command_def written_keeps)
  ultimately obtain r where r: "poll_tx ?t = Some r" "usb_ok r" "undisturbed ?t r"
    "ioBufferOffset r = ioBufferOffset ?t" "usbRxLen (usb r) = 0"
    "usbMsgFlags (usb r) = usbMsgFlags (usb ?t)" "usbDeviceAddr (usb r) = usbDeviceAddr (usb ?t)"
    "usbNewDeviceAddr (usb r) = usbNewDeviceAddr (usb ?t)"
    using poll_tx_keeps [of ?t] by auto
  have eq: "?w = (written p s)\<lparr>usb := u\<rparr>"
    by (simp add: written_def set_io_buffer_def io_buffer_def vector_command_def Let_def)
  have "write_ready addr r"
    using r u(3,6) rw wc
    by (simp add: write_ready_def write_command_def addressed_def undisturbed_def written_keeps)
  moreover have "thresholds r = thresholds s"
    using undisturbed_thresholds [OF r(3)] keeps_thresholds [OF written_keeps(4), of p ?s] by simp
  ultimately show ?thesis
    using r l u(1)
    by (simp add: out_packet_def serve_usb_def undisturbed_def eq written_keeps)
qed

text \<open>
  The whole stage: after \<open>j\<close> bytes the first \<open>j\<close> bytes of the buffer are those of the host. The
  buffer is \<open>buf\<close> before the stage; \<open>L\<close> is its size.
\<close>

definition overwrite :: "nat \<Rightarrow> 'a list \<Rightarrow> 'a list \<Rightarrow> 'a list" where
  "overwrite i m buf = (let k = min (length m) (length buf - i) in take i buf @ take k m @ drop (i + k) buf)"

lemma length_overwrite [simp]: "i \<le> length buf \<Longrightarrow> length (overwrite i m buf) = length buf"
  by (simp add: overwrite_def Let_def)

lemma overwrite_append:
  assumes "i \<le> length buf"
  shows "overwrite (min (i + length p) (length buf)) m (overwrite i p buf) = overwrite i (p @ m) buf"
proof (cases "i + length p \<le> length buf")
  case True
  let ?i = "i + length p"
  let ?k = "min (length m) (length buf - ?i)"
  have B: "overwrite i p buf = take i buf @ p @ drop ?i buf"
    using True by (simp add: overwrite_def Let_def min_absorb1)
  have "min (length (p @ m)) (length buf - i) = length p + ?k"
    using True by (auto simp: min_def)
  then have "overwrite i (p @ m) buf = take i buf @ p @ take ?k m @ drop (?i + ?k) buf"
    by (simp add: overwrite_def Let_def add.assoc)
  moreover have "take ?i (overwrite i p buf) = take i buf @ p"
    using assms by (simp add: B)
  moreover have "drop (?i + ?k) (overwrite i p buf) = drop (?i + ?k) buf"
    using assms by (simp add: B add.commute)
  moreover have "min ?i (length buf) = ?i" using True by simp
  ultimately show ?thesis
    using assms by (simp add: overwrite_def [of ?i] Let_def)
next
  case False
  then have p: "length buf - i \<le> length p" by simp
  then have "min (length p) (length buf - i) = length buf - i" "min (length (p @ m)) (length buf - i) = length buf - i"
    by simp_all
  with p assms have "overwrite i p buf = take i buf @ take (length buf - i) p"
    "overwrite i (p @ m) buf = take i buf @ take (length buf - i) p"
    by (simp_all add: overwrite_def Let_def)
  moreover have "overwrite (length buf) m b = b" if "length b = length buf" for b
    using that by (simp add: overwrite_def)
  ultimately show ?thesis using False assms by simp
qed

lemma written_buffer:
  assumes "unat (ioBufferOffset s) \<le> length (io_buffer s)" "length (io_buffer s) \<le> 192"
  shows "io_buffer (written p s) = overwrite (unat (ioBufferOffset s)) p (io_buffer s)"
    and "unat (ioBufferOffset (written p s)) =
           min (unat (ioBufferOffset s) + length p) (length (io_buffer s))"
    and "ioBuffer (written p s) = (if vector_command s then ioBuffer s else io_buffer (written p s))"
    and "sampleVector (written p s) = (if vector_command s then io_buffer (written p s) else sampleVector s)"
proof -
  let ?k = "min (length p) (length (io_buffer s) - unat (ioBufferOffset s))"
  have "unat (ioBufferOffset s + of_nat ?k) = unat (ioBufferOffset s) + ?k"
    using assms by (subst unat_add_lem [THEN iffD1]) (auto simp: unat_of_nat)
  moreover have "ioBufferOffset (written p s) = ioBufferOffset s + of_nat ?k"
    by (simp add: written_def set_io_buffer_def Let_def)
  ultimately show "unat (ioBufferOffset (written p s)) =
      min (unat (ioBufferOffset s) + length p) (length (io_buffer s))"
    using assms by (auto simp: min_def)
qed (simp_all add: written_def set_io_buffer_def io_buffer_def vector_command_def overwrite_def Let_def)

lemma out_stage_writes:
  assumes "write_ready addr s" "pid = USBPID_DATA0 \<or> pid = USBPID_DATA1"
  shows "\<exists>s'. out_stage addr pid (chunks m) s = Some s' \<and> write_ready addr s' \<and>
           command s' = command s \<and> ctx s' = ctx s \<and>
           io_buffer s' = overwrite (unat (ioBufferOffset s)) m (io_buffer s) \<and>
           ioBuffer s' = (if vector_command s then ioBuffer s else io_buffer s') \<and>
           sampleVector s' = (if vector_command s then io_buffer s' else sampleVector s) \<and>
           thresholds s' = thresholds s"
  using assms
proof (induction m arbitrary: pid s rule: chunks.induct)
  case (1 m)
  show ?case
  proof (cases "m = []")
    case True
    have "overwrite i [] buf = buf" for i and buf :: "u8 list" by (simp add: overwrite_def)
    with True "1.prems" show ?thesis by (subst chunks.simps) (simp add: io_buffer_def)
  next
    case False
    from out_packet_writes [OF "1.prems"(1), of "take 8 m" pid] "1.prems"(2) False obtain t where
      t: "out_packet addr pid (take 8 m) s = Some t" "write_ready addr t" "command t = command s"
        "ioBufferOffset t = ioBufferOffset (written (take 8 m) s)"
        "ioBuffer t = ioBuffer (written (take 8 m) s)"
        "sampleVector t = sampleVector (written (take 8 m) s)" "ctx t = ctx s" "thresholds t = thresholds s" by auto
    have pid: "pid XOR 0x88 = USBPID_DATA0 \<or> pid XOR 0x88 = USBPID_DATA1" using "1.prems"(2) by auto
    obtain r where r: "out_stage addr (pid XOR 0x88) (chunks (drop 8 m)) t = Some r" "write_ready addr r"
      "command r = command t" "ctx r = ctx t"
      "io_buffer r = overwrite (unat (ioBufferOffset t)) (drop 8 m) (io_buffer t)"
      "ioBuffer r = (if vector_command t then ioBuffer t else io_buffer r)"
      "sampleVector r = (if vector_command t then io_buffer r else sampleVector t)" "thresholds r = thresholds t"
      using "1.IH" [OF False t(2) pid] by blast
    have b: "unat (ioBufferOffset s) \<le> length (io_buffer s)" "length (io_buffer s) \<le> 192"
      using "1.prems"(1) io_offset_le [of s] by (simp_all add: write_ready_def usb_ok_def)
    note w = written_buffer [OF b, of "take 8 m"]
    have vec: "vector_command t = vector_command s" using t(3) by (simp add: vector_command_def)
    have bt: "io_buffer t = io_buffer (written (take 8 m) s)"
      using t(3,5,6) written_keeps(2) [of "take 8 m" s] by (simp add: io_buffer_def vector_command_def)
    have "io_buffer r = overwrite (unat (ioBufferOffset s)) (take 8 m @ drop 8 m) (io_buffer s)"
      unfolding r(5) bt w(1) t(4) w(2) by (rule overwrite_append [OF b(1)])
    with r t(1,3,5-8) vec w(3,4) False show ?thesis
      by (subst chunks.simps) simp
  qed
qed

section \<open>Complete transfers\<close>

lemma control_out_writes:
  assumes "usb_ok s" "addressed addr (usb s)" "usbRxLen (usb s) = 0"
    and "bmRequestType rq = 0x40"
    and "bRequest rq \<in> {PROTO_CMD_SAMPLE_VECTOR_WRITE, PROTO_CMD_PULSE_VECTOR_WRITE}"
  shows "\<exists>s'. control_out addr rq m s = Some s' \<and> usb_ok s' \<and> addressed addr (usb s') \<and>
           usbRxLen (usb s') = 0 \<and> ctx s' = ctx s \<and> command s' = bRequest rq \<and>
           sampleVector s' = (if bRequest rq = PROTO_CMD_SAMPLE_VECTOR_WRITE
                              then overwrite 0 m (sampleVector s) else sampleVector s) \<and>
           ioBuffer s' = (if bRequest rq = PROTO_CMD_PULSE_VECTOR_WRITE
                          then overwrite 0 m (ioBuffer s) else ioBuffer s) \<and>
           thresholds s' = thresholds s"
proof -
  obtain u where u: "USB_INTR_VECTOR (setup_packets addr rq) (usb s) = (u, [No_Answer, Handshake USBPID_ACK])"
    "usb_ok (s\<lparr>usb := u\<rparr>)" "addressed addr u" "usbRxToken u = USBPID_SETUP"
    "packet_data u = Some (usbRequest_bytes rq)"
    using setup_received [OF assms(1-3)] by blast
  let ?s = "s\<lparr>usb := u\<rparr>"
  let ?t = "after_setup rq ?s"
  have arr: "arrays_ok ?s" using u(2) by (simp add: usb_ok_def)
  note t = after_setup_simps [OF arr, of rq]
  have rx: "poll_rx (Suc 0) ?s = Some ?t" and ok: "usb_ok ?t"
    using poll_rx_setup [of ?s rq] u assms(4) by simp_all
  have eff: "setup_effect rq ?s = ?s\<lparr>ioBufferOffset := 0, command := bRequest rq\<rparr>"
    using assms(5) by (auto simp: setup_effect_def buffer_command_def)
  have "usbMsgLen (usb ?t) = USB_NO_MSG" "usbMsgFlags (usb ?t) = USB_FLG_USE_USER_RW" "ioBufferOffset ?t = 0"
    using assms(4,5)
    by (auto simp: after_setup_def setup_stage_def setup_result_def setup_effect_def buffer_command_def Let_def)
  then have serve: "serve_usb ?s = Some ?t" and ready: "write_ready addr ?t"
    using rx ok u(3) assms(5) t eff
    by (auto simp: serve_usb_def poll_tx_def write_ready_def write_command_def addressed_def)
  from out_stage_writes [OF ready, of USBPID_DATA1 m] obtain r where
    r: "out_stage addr USBPID_DATA1 (chunks m) ?t = Some r" "write_ready addr r"
      "command r = command ?t" "ctx r = ctx ?t"
      "io_buffer r = overwrite (unat (ioBufferOffset ?t)) m (io_buffer ?t)"
      "ioBuffer r = (if vector_command ?t then ioBuffer ?t else io_buffer r)"
      "sampleVector r = (if vector_command ?t then io_buffer r else sampleVector ?t)"
      "thresholds r = thresholds ?t" by auto
  have "vector_command ?t \<longleftrightarrow> bRequest rq = PROTO_CMD_SAMPLE_VECTOR_WRITE"
    using assms(5) t eff by (auto simp: vector_command_def)
  with r t eff \<open>ioBufferOffset ?t = 0\<close> serve u(1) assms(5) show ?thesis
    by (auto simp: control_out_def write_ready_def io_buffer_def)
qed

text \<open>The requests as the host library builds them.\<close>

definition vendor_in :: "u8 \<Rightarrow> u16 \<Rightarrow> u16 \<Rightarrow> u16 \<Rightarrow> usbRequest" where
  "vendor_in c value index len =
     \<lparr>bmRequestType = 0xc0, bRequest = c, wValue = value, wIndex = index, wLength = len\<rparr>"

definition vendor_out :: "u8 \<Rightarrow> u16 \<Rightarrow> u16 \<Rightarrow> u16 \<Rightarrow> usbRequest" where
  "vendor_out c value index len =
     \<lparr>bmRequestType = 0x40, bRequest = c, wValue = value, wIndex = index, wLength = len\<rparr>"

text \<open>The device between two transfers, at address \<open>addr\<close>.\<close>

definition ready :: "u8 \<Rightarrow> fw \<Rightarrow> bool" where
  "ready addr s \<longleftrightarrow> usb_ok s \<and> addressed addr (usb s) \<and> usbRxLen (usb s) = 0"

lemma ready_init: "ready 0 (fw_init h)"
  using usb_ok_init [of h] by (simp add: ready_def addressed_def) (simp add: fw_init_def usbdrv_init_def)

lemma control_in_reply:
  assumes "ready addr s" "\<not> buffer_command (bRequest rq)"
    "bmRequestType rq AND USBRQ_TYPE_MASK \<noteq> USBRQ_TYPE_STANDARD"
  shows "\<exists>s'. control_in (Suc n) addr rq s =
             Some (data_packets USBPID_DATA1 (take (unat (wLength rq)) (setup_reply rq s)), s') \<and>
           ready addr s' \<and> ctx s' = ctx (setup_effect rq s) \<and>
           ioBuffer s' = ioBuffer s \<and> sampleVector s' = sampleVector s \<and> thresholds s' = thresholds s \<and>
           hw s' = hw (setup_effect rq s) \<and> command s' = command (setup_effect rq s) \<and>
           opOffset s' = opOffset s \<and> opLength s' = opLength s"
proof -
  have same: "setup_reply rq (s\<lparr>usb := u\<rparr>) = setup_reply rq s" for u
    by (simp add: setup_reply_def transfer_status_def)
  have "length (take (unat (wLength rq)) (setup_reply rq s)) \<le> 7"
    using length_setup_reply [of rq s] by (simp add: min.coboundedI1)
  then have "length (take (unat (wLength rq)) (setup_reply rq s)) div 8 < Suc n"
    by (simp only: div_less_iff_less_mult) simp
  with control_in_packets [of s addr rq "take (unat (wLength rq)) (setup_reply rq s)" "Suc n"]
    after_setup_reply [of _ rq] assms same
  show ?thesis by (auto simp: ready_def)
qed

lemma control_in_vector:
  assumes "ready addr s"
    and "c = PROTO_CMD_PULSE_VECTOR_READ \<and> m = take k (ioBuffer s) \<or>
         c = PROTO_CMD_SAMPLE_VECTOR_READ \<and> m = take k (sampleVector s)"
    and "k < 255" "k div 8 < n"
  shows "\<exists>s'. control_in n addr (vendor_in c v i (of_nat k)) s = Some (data_packets USBPID_DATA1 m, s') \<and>
           ready addr s' \<and> ctx s' = ctx s \<and> command s' = c \<and>
           ioBuffer s' = ioBuffer s \<and> sampleVector s' = sampleVector s \<and> thresholds s' = thresholds s"
proof -
  let ?rq = "vendor_in c v i (of_nat k)"
  have c: "bRequest ?rq \<in> {PROTO_CMD_PULSE_VECTOR_READ, PROTO_CMD_SAMPLE_VECTOR_READ}"
    "bmRequestType ?rq AND USBRQ_DIR_MASK \<noteq> USBRQ_DIR_HOST_TO_DEVICE"
    "bmRequestType ?rq AND USBRQ_TYPE_MASK \<noteq> USBRQ_TYPE_STANDARD"
    using assms(2) by (auto simp: vendor_in_def)
  have len: "unat (lo8 (wLength ?rq)) = k"
    using assms(3)
    by (simp add: vendor_in_def lo8_def unsigned_ucast_eq unat_of_nat take_bit_nat_eq_self)
  then have "unat (lo8 (wLength ?rq)) \<noteq> 255" using assms(3) by simp
  then have no_msg: "lo8 (wLength ?rq) \<noteq> USB_NO_MSG" by auto
  have m: "pending_message (after_setup ?rq (s\<lparr>usb := u\<rparr>)) = m"
    and l: "usbMsgLen (usb (after_setup ?rq (s\<lparr>usb := u\<rparr>))) \<noteq> USB_NO_MSG" for u
    using after_setup_read [OF c(1,2), of "s\<lparr>usb := u\<rparr>"] len no_msg assms(2)
    by (auto simp: vendor_in_def)
  have "length m \<le> k" using assms(2) by auto
  then have "length m div 8 < n" using assms(4) by (meson div_le_mono le_less_trans)
  from control_in_packets [OF _ _ _ c(3) l m this, of addr] assms(1) obtain s' where
    "control_in n addr ?rq s = Some (data_packets USBPID_DATA1 m, s')" "ready addr s'"
    "ctx s' = ctx (setup_effect ?rq s)" "command s' = command (setup_effect ?rq s)"
    "ioBuffer s' = ioBuffer s" "sampleVector s' = sampleVector s" "thresholds s' = thresholds s"
    by (auto simp: ready_def)
  then show ?thesis
    using assms(2) by (auto simp: setup_effect_def vendor_in_def buffer_command_def)
qed

section \<open>Properties\<close>

text \<open>
  What a vendor request does: COIL_ENABLE connects the timer to the coil or disconnects it,
  by its value; RESET leaves the command that the main loop acts on; TRANSFER_START sets up the
  transfer with its parameters. Nothing else changes, and the other requests change nothing.
\<close>

definition vendor_effect :: "usbRequest \<Rightarrow> fw \<Rightarrow> fw \<Rightarrow> bool" where
  "vendor_effect rq s s' \<longleftrightarrow>
     hw s' = (hw s)\<lparr>TCCR1 :=
       (if bRequest rq = PROTO_CMD_COIL_ENABLE
        then if wValue rq \<noteq> 0 then insert COM1A0 (TCCR1 (hw s)) else TCCR1 (hw s) - {COM1A0}
        else TCCR1 (hw s))\<rparr> \<and>
     command s' = (if bRequest rq = PROTO_CMD_RESET then PROTO_CMD_RESET else command s) \<and>
     ctx s' = (if bRequest rq = PROTO_CMD_TRANSFER_START then started_ctx rq (ctx s) else ctx s) \<and>
     ioBuffer s' = ioBuffer s \<and> sampleVector s' = sampleVector s \<and> thresholds s' = thresholds s \<and>
     opOffset s' = opOffset s \<and> opLength s' = opLength s"

text \<open>
  C6. A vendor request other than the four that read and write the buffers (whose transfers have a
  property of their own) is answered on the bus with exactly the reply its specification
  \<open>setup_reply\<close> gives, cut at the length the host asked for: the packets the device sends carry it
  in order, eight bytes at a time, with PIDs that alternate from DATA1 on, the checksum in each
  packet, and a short packet at the end. Its effect on the hardware, the pending command and the
  transfer is exactly \<open>vendor_effect\<close>, and the device is ready for the next request. RESET is
  answered too, although \<open>protocol.h\<close> says that it has no response.
\<close>
theorem vendor_request_answered:
  assumes "ready addr s" "\<not> buffer_command (bRequest rq)"
    "bmRequestType rq AND USBRQ_TYPE_MASK \<noteq> USBRQ_TYPE_STANDARD"
  shows "\<exists>s'. control_in (Suc n) addr rq s =
             Some (data_packets USBPID_DATA1 (take (unat (wLength rq)) (setup_reply rq s)), s') \<and>
           ready addr s' \<and> vendor_effect rq s s'"
proof -
  have "hw (setup_effect rq s) = (hw s)\<lparr>TCCR1 :=
       (if bRequest rq = PROTO_CMD_COIL_ENABLE
        then if wValue rq \<noteq> 0 then insert COM1A0 (TCCR1 (hw s)) else TCCR1 (hw s) - {COM1A0}
        else TCCR1 (hw s))\<rparr>"
    "command (setup_effect rq s) = (if bRequest rq = PROTO_CMD_RESET then PROTO_CMD_RESET else command s)"
    "ctx (setup_effect rq s) = (if bRequest rq = PROTO_CMD_TRANSFER_START then started_ctx rq (ctx s) else ctx s)"
    using assms(2) by (simp_all add: setup_effect_def coilStart_def coilStop_def)
  with control_in_reply [OF assms, of n] show ?thesis unfolding vendor_effect_def by metis
qed

theorem vendor_request_answered_witness:
  "\<exists>s'. control_in 1 0 (vendor_in PROTO_CMD_GET_VERSION 0 0 3) (fw_init avr_reset) =
     Some ([tx_packet USBPID_DATA1 [PROTO_RC_OK, 0, 1]], s')"
  using vendor_request_answered [OF ready_init, of "vendor_in PROTO_CMD_GET_VERSION 0 0 3" 0 avr_reset]
  by (auto simp: vendor_in_def buffer_command_def setup_reply_def data_packets.simps)

text \<open>
  C19. Reading back what was written: after a control transfer that writes the 192 bytes of the
  data buffer, one that reads it returns the same bytes, whatever was in the buffer before; the
  same holds for the seven bytes of the pulse vector. The two buffers do not touch each other.
\<close>
theorem buffers_roundtrip:
  assumes "ready addr s" "length m = SAMPLE_BUFFER_SIZE" "length w = PULSE_VECTOR_SIZE"
  shows "\<exists>s1 s2 s3 s4 ps qs.
      control_out addr (vendor_out PROTO_CMD_SAMPLE_VECTOR_WRITE 0 0 7) w s = Some s1 \<and>
      control_out addr (vendor_out PROTO_CMD_PULSE_VECTOR_WRITE 0 0 192) m s1 = Some s2 \<and>
      control_in 25 addr (vendor_in PROTO_CMD_PULSE_VECTOR_READ 0 0 192) s2 = Some (ps, s3) \<and>
      control_in 25 addr (vendor_in PROTO_CMD_SAMPLE_VECTOR_READ 0 0 7) s3 = Some (qs, s4) \<and>
      concat (map payload ps) = m \<and> concat (map payload qs) = w"
proof -
  have arr: "length (sampleVector s) = 7" "length (ioBuffer s) = 192"
    using assms(1) by (simp_all add: ready_def usb_ok_def arrays_ok_def)
  have whole: "overwrite 0 x buf = x" if "length x = length buf" for x buf :: "u8 list"
    using that by (simp add: overwrite_def)
  obtain s1 where s1: "control_out addr (vendor_out PROTO_CMD_SAMPLE_VECTOR_WRITE 0 0 7) w s = Some s1"
    "ready addr s1" "sampleVector s1 = w" "ioBuffer s1 = ioBuffer s"
    using control_out_writes [of s addr "vendor_out PROTO_CMD_SAMPLE_VECTOR_WRITE 0 0 7" w] assms arr whole
    by (auto simp: ready_def vendor_out_def)
  obtain s2 where s2: "control_out addr (vendor_out PROTO_CMD_PULSE_VECTOR_WRITE 0 0 192) m s1 = Some s2"
    "ready addr s2" "sampleVector s2 = w" "ioBuffer s2 = m"
    using control_out_writes [of s1 addr "vendor_out PROTO_CMD_PULSE_VECTOR_WRITE 0 0 192" m] s1 assms(2) arr whole
    by (auto simp: ready_def vendor_out_def)
  obtain s3 where s3: "control_in 25 addr (vendor_in PROTO_CMD_PULSE_VECTOR_READ 0 0 192) s2 =
      Some (data_packets USBPID_DATA1 m, s3)" "ready addr s3" "sampleVector s3 = w"
    using control_in_vector [OF s2(2), of 4 m 192 25 0 0] s2 assms(2) by auto
  obtain s4 where s4: "control_in 25 addr (vendor_in PROTO_CMD_SAMPLE_VECTOR_READ 0 0 7) s3 =
      Some (data_packets USBPID_DATA1 w, s4)"
    using control_in_vector [OF s3(2), of 6 w 7 25 0 0] s3 assms(3) by auto
  show ?thesis using s1(1) s2(1) s3(1) s4 concat_data_packets by blast
qed

theorem buffers_roundtrip_witness:
  "\<exists>s1 s2. control_out 0 (vendor_out PROTO_CMD_SAMPLE_VECTOR_WRITE 0 0 7) [1, 2, 3, 4, 5, 6, 7]
             (fw_init avr_reset) = Some s1 \<and>
           control_out 0 (vendor_out PROTO_CMD_PULSE_VECTOR_WRITE 0 0 192) (replicate 192 9) s1 = Some s2"
proof -
  have "length (replicate 192 (9 :: u8)) = 192" "length [1, 2, 3, 4, 5, 6, 7 :: u8] = 7" by simp_all
  from buffers_roundtrip [OF ready_init this] show ?thesis by blast
qed

text \<open>
  C35. A SET_ADDRESS request changes the device's address only after the status stage: the empty
  DATA1 packet that confirms the request is still sent at the old address, and the routine that
  sends it puts the new address, shifted as the receiver compares it, in force.
\<close>
theorem set_address_after_status:
  assumes "usb_ok s" "packet_data (usb s) = Some (usbRequest_bytes rq)" "usbRxToken (usb s) = USBPID_SETUP"
    and "bmRequestType rq AND USBRQ_TYPE_MASK = USBRQ_TYPE_STANDARD" "bRequest rq = USBRQ_SET_ADDRESS"
  shows "\<exists>s' u. serve_usb s = Some s' \<and> usbDeviceAddr (usb s') = usbDeviceAddr (usb s) \<and>
           handleIn (usb s') = (u, Data_Packet (tx_packet USBPID_DATA1 [])) \<and>
           usbDeviceAddr u = push_bit 1 (lo8 (wValue rq))"
proof -
  let ?s = "setup_entry s"
  let ?d = "upd_usb (\<lambda>u. u\<lparr>usbTxBuf := (usbTxBuf u)[9 := 0], usbNewDeviceAddr := lo8 (wValue rq),
    usbMsgPtr := (Obj_usbTxBuf, 9)\<rparr>) ?s"
  let ?t = "upd_usb (\<lambda>u. u\<lparr>usbMsgLen := 0, usbRxLen := 0\<rparr>) ?d"
  have arr: "arrays_ok s" "length (usbTxBuf (usb s)) = 11"
    using assms(1) by (simp_all add: usb_ok_def arrays_ok_def)
  have drv: "usbDriverSetup rq ?s = Some (0, ?d)"
    using arr(2) assms(5) by (simp add: usbDriverSetup_def wr_in setup_entry_def)
  have limit: "limit_reply rq 0 = 0" by (simp add: limit_reply_def)
  have rx: "poll_rx (Suc 0) s = Some ?t"
    using assms arr(1) drv limit
    by (simp add: poll_rx_eq usbProcessRx_def process_setup_eq setup_stage_def Let_def)
  have "write_expected s" using assms(3) by (simp add: write_expected_def)
  with poll_rx_ok [OF assms(1)] rx have ok: "usb_ok ?t" by simp
  have t: "usbTxLen (usb ?t) = USBPID_NAK" "usbTxBuf (usb ?t) ! 0 = USBPID_DATA0"
    "usbRxLen (usb ?t) = 0" "usbMsgLen (usb ?t) = 0" "pending_message ?t = []"
    "usbDeviceAddr (usb ?t) = usbDeviceAddr (usb s)" "usbNewDeviceAddr (usb ?t) = lo8 (wValue rq)"
    using arr(2) by (simp_all add: setup_entry_def pending_message_def)
  have "usbTxLen (usb ?t) AND 0x10 \<noteq> 0" "usbMsgLen (usb ?t) \<noteq> USB_NO_MSG"
    unfolding t(1,4) by simp_all
  from poll_tx_loads [OF ok t(3) this] obtain r where
    r: "poll_tx ?t = Some r" "loaded USBPID_DATA1 [] r" "usbDeviceAddr (usb r) = usbDeviceAddr (usb s)"
      "usbNewDeviceAddr (usb r) = lo8 (wValue rq)"
    unfolding t(2,5,6,7) by auto
  have "serve_usb s = Some r" using rx r(1) by (simp add: serve_usb_def)
  moreover have "handleIn (usb r) = ((usb r)\<lparr>usbTxLen := USBPID_NAK,
      usbDeviceAddr := push_bit 1 (lo8 (wValue rq))\<rparr>, Data_Packet (tx_packet USBPID_DATA1 []))"
    using r(2,4) by (simp add: handleIn_def loaded_def)
  ultimately show ?thesis using r(3) by auto
qed

text \<open>The request SET_ADDRESS 7 in the receive buffer.\<close>

definition set_address_example :: fw where
  "set_address_example =
     (fw_init avr_reset)\<lparr>usb := usbdrv_init\<lparr>
        usbRxBuf := [USBPID_DATA0, 0, 5, 7, 0, 0, 0, 0, 0] @ replicate 13 0,
        usbRxLen := 11, usbRxToken := USBPID_SETUP\<rparr>\<rparr>"

theorem set_address_after_status_witness:
  "\<exists>s' u. serve_usb set_address_example = Some s' \<and> usbDeviceAddr (usb s') = 0 \<and>
     handleIn (usb s') = (u, Data_Packet (tx_packet USBPID_DATA1 [])) \<and> usbDeviceAddr u = 14"
proof -
  let ?rq = "\<lparr>bmRequestType = 0, bRequest = 5, wValue = 7, wIndex = 0, wLength = 0\<rparr>"
  have "usb_ok (fw_init avr_reset)" by (rule usb_ok_init)
  then have "usb_ok ((fw_init avr_reset)\<lparr>usb := usb set_address_example\<rparr>)"
    by (rule usb_ok_change) (simp_all add: set_address_example_def fw_init_def usbdrv_init_def tx_ok_def)
  moreover have "(fw_init avr_reset)\<lparr>usb := usb set_address_example\<rparr> = set_address_example"
    by (simp add: set_address_example_def)
  ultimately have "usb_ok set_address_example" by simp
  moreover have "packet_data (usb set_address_example) = Some (usbRequest_bytes ?rq)"
    "usbRxToken (usb set_address_example) = USBPID_SETUP" "usbDeviceAddr (usb set_address_example) = 0"
    by (simp_all add: set_address_example_def usbdrv_init_def packet_data_def usbRequest_bytes_def
        lo8_def hi8_def drop_bit_eq_div)
  moreover have "lo8 (wValue ?rq) = 7" by (simp add: lo8_def)
  ultimately show ?thesis
    using set_address_after_status [of set_address_example ?rq] by simp
qed

text \<open>
  The function that takes data from the host keeps a null destination when the pending command
  is not a write: it takes nothing as long as the offset of the last data stage is 0, but after a
  stage that moved the offset it stores through the null pointer.
\<close>
lemma write_without_buffer:
  assumes "\<not> write_command s"
  shows "usbFunctionWrite data s =
           (if data = [] \<or> ioBufferOffset s = 0 then Some (0, s) else None)"
proof -
  have eq: "(ucast (ioBufferOffset s) :: u16) = 0 \<longleftrightarrow> ioBufferOffset s = 0"
    using unat_u8_less [of "ioBufferOffset s"]
    by (simp add: word_unat_eq_iff unsigned_ucast_eq take_bit_nat_eq_self)
  have "command s \<noteq> PROTO_CMD_SAMPLE_VECTOR_WRITE" "command s \<noteq> PROTO_CMD_PULSE_VECTOR_WRITE"
    using assms by (auto simp: write_command_def)
  then show ?thesis
    using eq by (cases data) (simp_all add: usbFunctionWrite_def)
qed

lemma write_without_buffer_example:
  "usbFunctionWrite [1] ((fw_init avr_reset)\<lparr>command := PROTO_CMD_PULSE_VECTOR_READ, ioBufferOffset := 192\<rparr>) = None"
  using write_without_buffer [of "(fw_init avr_reset)\<lparr>command := 4, ioBufferOffset := 192\<rparr>" "[1]"]
  by (simp add: write_command_def)

end
