(* ===== verification/Usb_Line.thy ===== *)
theory Usb_Line
  imports Usb_Crc Buffers
begin

unbundle bit_operations_syntax

text \<open>
  The bits on the bus: the send loop of \<open>firmware/src/usbdrv/usbdrvasm165.inc\<close> (the variant for
  16.5 MHz, 11 clocks per bit), instruction by instruction with its clocks. The reference is the coding of
  the USB specification: a 1 keeps the level and a 0 changes it, and after six 1s in a row a 0 is
  inserted.
\<close>

section \<open>The coding of the USB specification\<close>

text \<open>\<open>n\<close> is the number of 1s just sent.\<close>

fun stuff :: "nat \<Rightarrow> bool list \<Rightarrow> bool list" where
  "stuff n [] = []"
| "stuff n (b # bs) =
     b # (if b then if n = 5 then False # stuff 0 bs else stuff (Suc n) bs else stuff 0 bs)"

text \<open>The levels of D- from level \<open>l\<close> on; true is the idle state J.\<close>

fun nrzi :: "bool \<Rightarrow> bool list \<Rightarrow> bool list" where
  "nrzi l [] = []"
| "nrzi l (b # bs) = (l = b) # nrzi (l = b) bs"

section \<open>The port\<close>

definition USBMINUS :: nat where "USBMINUS = 3"
definition USBPLUS :: nat where "USBPLUS = 4"
definition USBIDLE :: u8 where "USBIDLE = 0x08"
definition USBMASK :: u8 where "USBMASK = 0x18"

text \<open>The state of the two lines in a value of the port: J or K as the level of D-, or neither.\<close>

definition drives :: "u8 \<Rightarrow> bool \<Rightarrow> bool" where
  "drives p l \<longleftrightarrow> bit p USBMINUS = l \<and> bit p USBPLUS = (\<not> l)"

definition drives_SE0 :: "u8 \<Rightarrow> bool" where
  "drives_SE0 p \<longleftrightarrow> p AND USBMASK = 0"

section \<open>The send loop\<close>

text \<open>
  The registers of the loop, the carry, the clock at which the next instruction starts, and the values
  written to the port so far, each with the clock of its \<open>out\<close>.
\<close>

record sender =
  tx_shift :: u8
  tx_x1 :: u8      \<comment> \<open>port mirror\<close>
  tx_x2 :: u8      \<comment> \<open>bits sent\<close>
  bitStatus :: u8
  tx_carry :: bool
  tx_clock :: nat
  tx_out :: "(nat \<times> u8) list"

definition tick :: "nat \<Rightarrow> sender \<Rightarrow> sender" where
  "tick n s = s\<lparr>tx_clock := tx_clock s + n\<rparr>"

definition out_port :: "sender \<Rightarrow> sender" where
  "out_port s = tick 1 (s\<lparr>tx_out := tx_out s @ [(tx_clock s, tx_x1 s)]\<rparr>)"

definition toggle :: "sender \<Rightarrow> sender" where
  "toggle s = tick 1 (s\<lparr>tx_x1 := tx_x1 s XOR USBMASK\<rparr>)"

definition ror_shift :: "sender \<Rightarrow> sender" where
  "ror_shift s = (let (r, c) = ror (tx_carry s) (tx_shift s) in tick 1 (s\<lparr>tx_shift := r, tx_carry := c\<rparr>))"

definition ror_x2 :: "sender \<Rightarrow> sender" where
  "ror_x2 s = (let (r, c) = ror (tx_carry s) (tx_x2 s) in tick 1 (s\<lparr>tx_x2 := r, tx_carry := c\<rparr>))"

text \<open>\<open>sbrs shift, 0\<close> and the \<open>eor\<close> it skips, two clocks in both cases.\<close>

definition next_level :: "sender \<Rightarrow> sender" where
  "next_level s = (if \<not> bit (tx_shift s) 0 then toggle (tick 1 s) else tick 2 s)"

text \<open>
  \<open>didStuffN\<close> and \<open>bitstuffN\<close>; \<open>cpi\<close> sets the carry when the register is smaller. After \<open>bitstuffN\<close> the
  comparison is made again, with 0.
\<close>

definition didStuffN :: "sender \<Rightarrow> sender" where
  "didStuffN s =
     (if tx_x2 s < 0xfc then tick 2 (s\<lparr>tx_carry := True\<rparr>)
      else (let s = toggle (tick 3 s);
                s = tick 1 (s\<lparr>tx_x2 := 0\<rparr>);
                s = tick 3 s;
                s = out_port s;
                s = tick 2 s
            in tick 2 (s\<lparr>tx_carry := True\<rparr>)))"

definition sendbit :: "sender \<Rightarrow> sender" where
  "sendbit s =
     (let s = next_level s;
          s = out_port s;
          s = ror_shift s;
          s = ror_x2 s
      in didStuffN s)"

lemmas sender_defs = tick_def next_level_def toggle_def out_port_def ror_shift_def ror_x2_def didStuffN_def Let_def

lemma bitStatus_tick [simp]: "bitStatus (tick n s) = bitStatus s"
  by (simp add: tick_def)

lemma bitStatus_sendbit [simp]: "bitStatus (sendbit s) = bitStatus s"
  by (simp add: sendbit_def sender_defs split_beta)

function bitloop :: "sender \<Rightarrow> sender" where
  "bitloop s =
     (let s = sendbit s;
          s = tick 1 s;
          (status, carry) = subi (bitStatus s) 37;
          s = tick 1 (s\<lparr>bitStatus := status, tx_carry := carry\<rparr>)
      in if \<not> carry then bitloop (tick 2 s) else tick 1 s)"
  by pat_completeness auto
termination
  by (relation "measure (\<lambda>s. unat (bitStatus s))")
     (auto simp: subi_def word_less_nat_alt unat_sub_if')

text \<open>The eighth bit, from the end of \<open>bitloop\<close> on, with \<open>didStuff7\<close> and \<open>bitstuff7\<close>.\<close>

definition didStuff7 :: "sender \<Rightarrow> sender" where
  "didStuff7 s = (let s = out_port s; s = ror_x2 s in tick 1 (s\<lparr>tx_carry := tx_x2 s < 0xfc\<rparr>))"

definition lastbit :: "sender \<Rightarrow> sender" where
  "lastbit s =
     (let s = next_level s;
          s = ror_shift s;
          s = didStuff7 s
      in if tx_carry s then tick 1 s
         else (let s = toggle (tick 2 s);
                   s = tick 1 (s\<lparr>tx_x2 := 0\<rparr>);
                   s = tick 4 s
               in tick 1 (didStuff7 s)))"

lemma unat_dec: "c \<noteq> 0 \<Longrightarrow> unat (c - 1) < unat c" for c :: u8
  by (simp add: unat_minus_one unat_gt_0)

text \<open>\<open>byteloop\<close>: \<open>mem\<close> is the memory and \<open>y\<close> the pointer.\<close>

function byteloop :: "(nat \<Rightarrow> u8) \<Rightarrow> nat \<Rightarrow> u8 \<Rightarrow> sender \<Rightarrow> sender" where
  "byteloop mem y cnt s =
     (let s = bitloop s;
          s = lastbit s;
          s = tick 2 (s\<lparr>tx_shift := mem y\<rparr>);
          s = tick 1 s;
          cnt = cnt - 1
      in if cnt \<noteq> 0 then byteloop mem (Suc y) cnt (tick 2 s) else tick 1 s)"
  by pat_completeness auto
termination
proof (relation "measure (\<lambda>(mem, y, cnt, s). unat (cnt - 1))", simp)
  fix mem :: "nat \<Rightarrow> u8" and y and cnt cnt' :: u8 and s s1 s2 s3 s4
  assume cnt': "cnt' = cnt - 1" "cnt' \<noteq> 0"
  from unat_dec[OF cnt'(2)] show "((mem, Suc y, cnt', tick 2 s4), mem, y, cnt, s) \<in> measure (\<lambda>(mem, y, cnt, s). unat (cnt - 1))"
    unfolding cnt'(1) by simp
qed

text \<open>
  \<open>usbSendAndReti\<close>, entered at clock \<open>t\<close>: acquire the bus, send \<open>cnt\<close> bytes, the first of them the sync
  byte, then SE0 and idle. \<open>port\<close> is \<open>USBOUT\<close>, \<open>x2\<close> and \<open>carry\<close> what the register and the flag hold. When the
  bytes did not come from \<open>r0\<close>, at address 0, the new device address is stored during SE0, which takes one
  clock more; \<open>se0Delay\<close> takes eleven. The result has the values of the port with their clocks.
\<close>

definition usbSendAndReti ::
  "(nat \<Rightarrow> u8) \<Rightarrow> nat \<Rightarrow> u8 \<Rightarrow> u8 \<Rightarrow> u8 \<Rightarrow> bool \<Rightarrow> nat \<Rightarrow> (nat \<times> u8) list" where
  "usbSendAndReti mem y cnt port x2 carry t =
     (let x1 = port OR USBIDLE;
          s = \<lparr>tx_shift = 0x80, tx_x1 = x1, tx_x2 = x2, bitStatus = 0xff, tx_carry = carry, tx_clock = t, tx_out = []\<rparr>;
          s = byteloop mem y cnt (tick 9 s);
          s = tick 1 (s\<lparr>tx_x1 := tx_x1 s AND NOT USBMASK\<rparr>);
          s = out_port (tick 3 s);
          s = tick (if y + unat cnt = 2 then 4 else 5) s;
          s = tick 2 s;
          s = tick 1 (s\<lparr>tx_x1 := tx_x1 s OR USBIDLE\<rparr>);
          s = tick 5 s;
          s = tick 11 s;
          s = out_port s
      in tx_out s)"

declare bitloop.simps [simp del] byteloop.simps [simp del]

section \<open>What the reference coding does one bit at a time\<close>

text \<open>The number of 1s at the end of what was sent, and the level.\<close>

fun run_of :: "nat \<Rightarrow> bool list \<Rightarrow> nat" where
  "run_of n [] = n"
| "run_of n (b # bs) = run_of (if b \<and> n \<noteq> 5 then Suc n else 0) bs"

fun level_of :: "bool \<Rightarrow> bool list \<Rightarrow> bool" where
  "level_of l [] = l"
| "level_of l (b # bs) = level_of (l = b) bs"

lemma stuff_append: "stuff n (xs @ ys) = stuff n xs @ stuff (run_of n xs) ys"
  by (induction xs arbitrary: n) auto

lemma run_of_append: "run_of n (xs @ ys) = run_of (run_of n xs) ys"
  by (induction xs arbitrary: n) auto

lemma run_of_le: "n \<le> 5 \<Longrightarrow> run_of n xs \<le> 5"
  by (induction xs arbitrary: n) auto

lemma nrzi_append: "nrzi l (xs @ ys) = nrzi l xs @ nrzi (level_of l xs) ys"
  by (induction xs arbitrary: l) auto

lemma level_of_append: "level_of l (xs @ ys) = level_of (level_of l xs) ys"
  by (induction xs arbitrary: l) auto

lemma length_nrzi [simp]: "length (nrzi l xs) = length xs"
  by (induction xs arbitrary: l) auto

section \<open>The sender is right\<close>

text \<open>A register of eight bits, by its bits.\<close>

lemma less_8_iff: "n < 8 \<longleftrightarrow> n \<in> {0, 1, 2, 3, 4, 5, 6, 7}" for n :: nat
  by auto

lemma all_less_8: "(\<forall>i<8. P i) \<longleftrightarrow> P 0 \<and> P 1 \<and> P 2 \<and> P 3 \<and> P 4 \<and> P 5 \<and> P 6 \<and> P 7" for P :: "nat \<Rightarrow> bool"
  by (auto simp: eval_nat_numeral All_less_Suc)

lemma u8_eq_iff: "a = b \<longleftrightarrow> (\<forall>i<8. bit a i = bit b i)" for a b :: u8
  by (auto intro: bit_word_eqI)

lemma no_bit_8 [simp]: "\<not> bit x 8" "\<not> bit x 9" for x :: u8
  by (auto dest: bit_imp_le_length)

lemma six_ones: "0xfc \<le> x \<longleftrightarrow> bit x 7 \<and> bit x 6 \<and> bit x 5 \<and> bit x 4 \<and> bit x 3 \<and> bit x 2" for x :: u8
proof -
  have "0xfc \<le> x \<longleftrightarrow> unat x div 4 = 63"
    using unat_u8_less[of x] by (simp add: word_le_nat_alt) linarith
  also have "\<dots> \<longleftrightarrow> drop_bit 2 x = mask 6"
    by (simp add: word_unat_eq_iff unat_drop_bit_eq drop_bit_eq_div unat_div mask_eq_exp_minus_1)
  also have "\<dots> \<longleftrightarrow> bit x 7 \<and> bit x 6 \<and> bit x 5 \<and> bit x 4 \<and> bit x 3 \<and> bit x 2"
    by (auto simp: u8_eq_iff all_less_8 bit_drop_bit_eq bit_mask_iff numeral_2_eq_2[symmetric] numeral_3_eq_3[symmetric])
  finally show ?thesis .
qed

text \<open>\<open>x2\<close> holds the last bits sent, the newest at the top: \<open>n\<close> 1s after a 0.\<close>

definition history :: "u8 \<Rightarrow> nat \<Rightarrow> bool" where
  "history x n \<longleftrightarrow> n \<le> 5 \<and> (\<forall>i<n. bit x (7 - i)) \<and> \<not> bit x (7 - n)"

lemma history_cases: "history x n \<Longrightarrow> n \<in> {0, 1, 2, 3, 4, 5}"
  by (auto simp: history_def)

lemma history_zero [simp]: "history 0 0"
  by (simp add: history_def)

lemma history_shift:
  assumes "history x n"
  defines "shifted b \<equiv> drop_bit 1 x OR (if b then 0x80 else 0)"
  shows "\<not> b \<Longrightarrow> history (shifted b) 0"
    and "b \<Longrightarrow> n \<noteq> 5 \<Longrightarrow> history (shifted b) (Suc n)"
    and "0xfc \<le> shifted b \<longleftrightarrow> b \<and> n = 5"
proof -
  have top: "bit (shifted b) 7 = b"
    by (simp add: shifted_def bit_or_iff bit_drop_bit_eq)
  have rest: "bit (shifted b) (7 - Suc i) = bit x (7 - i)" if "i < 7" for i
  proof -
    have "i \<in> {0, 1, 2, 3, 4, 5, 6}" using that by auto
    then show ?thesis by (auto simp: shifted_def bit_or_iff bit_drop_bit_eq numeral_2_eq_2[symmetric])
  qed
  show "0xfc \<le> shifted b \<longleftrightarrow> b \<and> n = 5"
    using history_cases[OF assms(1)] assms(1) top rest[of 0] rest[of 1] rest[of 2] rest[of 3] rest[of 4]
    by (auto simp: six_ones history_def All_less_Suc eval_nat_numeral)
  show "history (shifted b) 0" if "\<not> b" using that top by (simp add: history_def)
  show "history (shifted b) (Suc n)" if "b" "n \<noteq> 5"
    using that top rest assms(1) by (auto simp: history_def less_Suc_eq_0_disj)
qed

lemma drives_toggle: "drives x l \<Longrightarrow> drives (x XOR USBMASK) (\<not> l)"
  by (simp add: drives_def USBMASK_def USBMINUS_def USBPLUS_def bit_xor_iff)

text \<open>
  After the bits \<open>bs\<close>: the port has shown their coding, and the registers hold the level and the
  run. Nothing is known of \<open>x2\<close> at the start.
\<close>

definition sent :: "bool list \<Rightarrow> sender \<Rightarrow> bool" where
  "sent bs s \<longleftrightarrow>
     list_all2 drives (map snd (tx_out s)) (nrzi True (stuff 0 bs)) \<and>
     drives (tx_x1 s) (level_of True (stuff 0 bs)) \<and>
     (bs \<noteq> [] \<longrightarrow> history (tx_x2 s) (run_of 0 bs))"

lemma sent_update [simp]:
  "sent bs (s\<lparr>tx_shift := v\<rparr>) = sent bs s" "sent bs (s\<lparr>tx_carry := c\<rparr>) = sent bs s"
  "sent bs (s\<lparr>bitStatus := w\<rparr>) = sent bs s" "sent bs (tick n s) = sent bs s"
  by (simp_all add: sent_def tick_def)

text \<open>One turn of the loop, by its registers.\<close>

lemma sendbit_parts:
  fixes s
  defines "b \<equiv> bit (tx_shift s) 0"
  defines "x1 \<equiv> (if b then tx_x1 s else tx_x1 s XOR USBMASK)"
  defines "x2 \<equiv> drop_bit 1 (tx_x2 s) OR (if b then 0x80 else 0)"
  shows "map snd (tx_out (sendbit s)) = map snd (tx_out s) @ x1 # (if 0xfc \<le> x2 then [x1 XOR USBMASK] else [])"
    and "tx_x1 (sendbit s) = (if 0xfc \<le> x2 then x1 XOR USBMASK else x1)"
    and "tx_x2 (sendbit s) = (if 0xfc \<le> x2 then 0 else x2)"
    and "tx_shift (sendbit s) = drop_bit 1 (tx_shift s) OR (if tx_carry s then 0x80 else 0)"
  by (auto simp: sendbit_def sender_defs ror_def b_def x1_def x2_def not_less)

text \<open>The eighth bit is sent the same way, one clock after the branch that was not taken.\<close>

lemma lastbit_sendbit: "tick 1 (lastbit s) = sendbit (tick 1 s)"
  by (auto simp: lastbit_def didStuff7_def sendbit_def sender_defs ror_def split_beta)

lemma lastbit_keeps: "sent bs (lastbit s) = sent bs (sendbit (tick 1 s))" "bitStatus (lastbit s) = bitStatus s"
  using sent_update(4)[of bs 1 "lastbit s"] bitStatus_tick[of 1 "lastbit s"]
  by (simp_all only: lastbit_sendbit bitStatus_sendbit bitStatus_tick)

lemma sent_sendbit:
  assumes "sent bs s" "bit (tx_shift s) 0 = b" "bs = [] \<Longrightarrow> \<not> b"
  shows "sent (bs @ [b]) (sendbit s)"
proof -
  define x2 where "x2 = drop_bit 1 (tx_x2 s) OR (if b then 0x80 else 0)"
  define l where "l = level_of True (stuff 0 bs)"
  define n where "n = run_of 0 bs"
  have x1: "drives (tx_x1 s) l" "drives (tx_x1 s XOR USBMASK) (\<not> l)" 
    using assms(1) drives_toggle[of "tx_x1 s" l] by (simp_all add: sent_def l_def)
  have out: "list_all2 drives (map snd (tx_out s)) (nrzi True (stuff 0 bs))"
    using assms(1) by (simp add: sent_def)
  show ?thesis
  proof (cases "bs = []")
    case True
    then have "\<not> b" using assms(3) by simp
    moreover from this have "history x2 0" "\<not> 0xfc \<le> x2"
      by (simp_all add: x2_def history_def six_ones bit_or_iff bit_drop_bit_eq)
    ultimately show ?thesis
      using assms(2) out x1 True 
      by (simp add: sent_def sendbit_parts x2_def l_def)
  next
    case False
    then have h: "history (tx_x2 s) n" using assms(1) by (simp add: sent_def n_def)
    note h' = history_shift[OF h, of b, folded x2_def]
    define x1 where "x1 = (if b then tx_x1 s else tx_x1 s XOR USBMASK)"
    have parts: "map snd (tx_out (sendbit s)) = map snd (tx_out s) @ x1 # (if 0xfc \<le> x2 then [x1 XOR USBMASK] else [])"
        "tx_x1 (sendbit s) = (if 0xfc \<le> x2 then x1 XOR USBMASK else x1)"
        "tx_x2 (sendbit s) = (if 0xfc \<le> x2 then 0 else x2)"
      using sendbit_parts(1-3)[of s] assms(2) unfolding x1_def x2_def by simp_all
    have x1: "drives x1 (l = b)" "drives (x1 XOR USBMASK) (l = (\<not> b))"
      using x1 drives_toggle[of x1 "l = b"] unfolding x1_def by (cases b; simp)+
    have code: "stuff 0 (bs @ [b]) = stuff 0 bs @ b # (if b \<and> n = 5 then [False] else [])"
        "run_of 0 (bs @ [b]) = (if b \<and> n \<noteq> 5 then Suc n else 0)"
      by (simp_all add: stuff_append run_of_append n_def)
    show ?thesis
    proof (cases "b \<and> n = 5")
      case True
      then show ?thesis using out x1 h'(3) parts code
        by (simp add: sent_def nrzi_append level_of_append l_def[symmetric] list_all2_appendI)
    next
      case no: False
      then have "history x2 (if b \<and> n \<noteq> 5 then Suc n else 0)" using h'(1,2) by auto
      then show ?thesis using out x1 h'(3) parts code no
        by (simp add: sent_def nrzi_append level_of_append l_def[symmetric] list_all2_appendI)
    qed
  qed
qed

text \<open>The bits still in \<open>shift\<close>.\<close>

definition holds :: "bool list \<Rightarrow> sender \<Rightarrow> bool" where
  "holds ks s \<longleftrightarrow> length ks \<le> 8 \<and> (\<forall>i<length ks. bit (tx_shift s) i = ks ! i)"

lemma holds_update [simp]:
  "holds ks (s\<lparr>tx_carry := c\<rparr>) = holds ks s" "holds ks (s\<lparr>bitStatus := w\<rparr>) = holds ks s"
  "holds ks (tick n s) = holds ks s"
  by (simp_all add: holds_def tick_def)

lemma holds_sendbit:
  assumes "holds (k # ks) s"
  shows "bit (tx_shift s) 0 = k" "holds ks (sendbit s)"
proof -
  show "bit (tx_shift s) 0 = k" using assms by (auto simp: holds_def)
  have "bit (tx_shift (sendbit s)) i = ks ! i" if "i < length ks" for i
  proof -
    have "i < 7" using assms that by (simp add: holds_def)
    then have "\<not> bit (0x80 :: u8) i" using less_8_iff[of i] \<open>i < 7\<close> by auto
    moreover have "bit (tx_shift s) (Suc i) = ks ! i" using assms that by (auto simp: holds_def)
    ultimately show ?thesis using \<open>i < 7\<close> by (simp add: sendbit_parts bit_or_iff bit_drop_bit_eq)
  qed
  then show "holds ks (sendbit s)" using assms by (simp add: holds_def)
qed

lemma bitloop_step:
  "bitloop s =
     (let t = (tick 2 (sendbit s))\<lparr>bitStatus := bitStatus s - 37, tx_carry := bitStatus s < 37\<rparr>
      in if bitStatus s < 37 then tick 1 t else bitloop (tick 2 t))"
  by (subst bitloop.simps) (simp add: subi_def tick_def Let_def)

lemma bitloop_sends:
  assumes "sent bs s" "holds (xs @ ys) s" "xs \<noteq> []" "unat (bitStatus s) div 37 = length xs - 1"
    and "bs = [] \<Longrightarrow> \<not> hd xs"
  shows "sent (bs @ xs) (bitloop s) \<and> holds ys (bitloop s) \<and>
    unat (bitStatus (bitloop s)) = 256 + unat (bitStatus s) - 37 * length xs"
  using assms
proof (induction xs arbitrary: bs s)
  case (Cons k xs)
  define t where "t = (tick 2 (sendbit s))\<lparr>bitStatus := bitStatus s - 37, tx_carry := bitStatus s < 37\<rparr>"
  have k: "bit (tx_shift s) 0 = k" "holds (xs @ ys) t"
    using holds_sendbit[of k "xs @ ys" s] Cons.prems by (simp_all add: t_def)
  have t: "sent (bs @ [k]) t"
    using sent_sendbit[OF Cons.prems(1) k(1)] Cons.prems(5) by (simp add: t_def)
  have turn: "bitloop s = (if bitStatus s < 37 then tick 1 t else bitloop (tick 2 t))"
    by (subst bitloop_step) (simp only: t_def Let_def)
  show ?case
  proof (cases "bitStatus s < 37")
    case True
    then have "unat (bitStatus s) < 37" by (simp add: word_less_nat_alt)
    then have "xs = []" using Cons.prems(4) by simp
    moreover have "unat (bitStatus s - 37) = 256 + unat (bitStatus s) - 37"
      using \<open>unat (bitStatus s) < 37\<close> by (simp add: unat_sub_if')
    ultimately show ?thesis using True t k(2) turn by simp (simp add: t_def)
  next
    case False
    then have ge: "37 \<le> unat (bitStatus s)" by (simp add: word_less_nat_alt not_less)
    then have st: "unat (bitStatus t) = unat (bitStatus s) - 37"
      using unat_u8_less[of "bitStatus s"] by (simp add: t_def unat_sub_if')
    have "unat (bitStatus s) div 37 = Suc (unat (bitStatus t) div 37)"
      using ge st by (simp add: Suc_diff_le le_div_geq)
    then have "xs \<noteq> []" "unat (bitStatus t) div 37 = length xs - 1" using Cons.prems(4) by auto
    then have "sent (bs @ k # xs) (bitloop (tick 2 t)) \<and> holds ys (bitloop (tick 2 t)) \<and>
        unat (bitStatus (bitloop (tick 2 t))) = 256 + unat (bitStatus t) - 37 * length xs"
      using Cons.IH[of "bs @ [k]" "tick 2 t"] t k(2) by simp
    then show ?thesis using False turn st ge by simp
  qed
qed simp

lemma byte_sends:
  assumes "sent bs s" "holds (map (bit b) [0..<8]) s" "unat (bitStatus s) = 255 - 3 * k" "k \<le> 11"
    and "bs = [] \<Longrightarrow> \<not> bit b 0"
  shows "sent (bs @ map (bit b) [0..<8]) (lastbit (bitloop s))"
    and "unat (bitStatus (lastbit (bitloop s))) = 255 - 3 * Suc k"
proof -
  let ?xs = "map (bit b) [0..<7]"
  have split: "map (bit b) [0..<8] = ?xs @ [bit b 7]" by (simp add: upt_rec eval_nat_numeral)
  have "unat (bitStatus s) div 37 = length ?xs - 1"
    using assms(3,4) by simp
  then have loop: "sent (bs @ ?xs) (bitloop s)" "holds [bit b 7] (bitloop s)"
      "unat (bitStatus (bitloop s)) = 255 - 3 * Suc k"
    using bitloop_sends[of bs s ?xs "[bit b 7]"] assms split by (simp_all add: hd_map)
  have "sent ((bs @ ?xs) @ [bit b 7]) (sendbit (tick 1 (bitloop s)))"
    using loop holds_sendbit(1)[of "bit b 7" "[]" "tick 1 (bitloop s)"] by (intro sent_sendbit) auto
  then show "sent (bs @ map (bit b) [0..<8]) (lastbit (bitloop s))"
    by (simp only: split lastbit_keeps append_assoc)
  show "unat (bitStatus (lastbit (bitloop s))) = 255 - 3 * Suc k"
    using loop(3) by (simp only: lastbit_keeps)
qed

lemma byteloop_sends:
  assumes "sent bs s" "holds (map (bit b) [0..<8]) s" "unat (bitStatus s) = 255 - 3 * k"
    and "k + length bytes \<le> 11" "\<forall>i<length bytes. mem (y + i) = bytes ! i" "bs = [] \<Longrightarrow> \<not> bit b 0"
  shows "sent (bs @ bits_of_bytes (b # bytes)) (byteloop mem y (of_nat (Suc (length bytes))) s)"
  using assms
proof (induction bytes arbitrary: bs s b k y)
  case Nil
  have "byteloop mem y 1 s = tick 1 (tick 1 (tick 2 ((lastbit (bitloop s))\<lparr>tx_shift := mem y\<rparr>)))"
    by (subst byteloop.simps) simp
  then show ?case using byte_sends(1)[of bs s b k] Nil.prems by (simp add: bits_of_bytes_Cons)
next
  case (Cons c bytes)
  define t where "t = tick 2 (tick 1 (tick 2 ((lastbit (bitloop s))\<lparr>tx_shift := mem y\<rparr>)))"
  have "unat (of_nat (Suc (length bytes)) :: u8) = Suc (length bytes)"
    using Cons.prems(4) by (simp add: unsigned_of_nat take_bit_nat_eq_self_iff del: of_nat_Suc)
  then have "(of_nat (Suc (length bytes)) :: u8) \<noteq> 0" by auto
  then have turn: "byteloop mem y (of_nat (Suc (length (c # bytes)))) s =
      byteloop mem (Suc y) (of_nat (Suc (length bytes))) t"
    by (subst byteloop.simps) (simp add: t_def Let_def)
  have "mem y = c" using Cons.prems(5) by auto
  then have "holds (map (bit c) [0..<8]) t" by (simp add: holds_def t_def tick_def)
  moreover have "sent (bs @ map (bit b) [0..<8]) t" "unat (bitStatus t) = 255 - 3 * Suc k"
    using byte_sends[of bs s b k] Cons.prems by (simp_all add: t_def)
  ultimately have "sent ((bs @ map (bit b) [0..<8]) @ bits_of_bytes (c # bytes))
      (byteloop mem (Suc y) (of_nat (Suc (length bytes))) t)"
    using Cons.prems(4,5) by (intro Cons.IH[where k = "Suc k"]) auto
  then show ?case unfolding turn by (simp add: bits_of_bytes_Cons)
qed

section \<open>The sender's clock\<close>

text \<open>Values of the port 11 clocks apart.\<close>

fun evenly :: "nat \<Rightarrow> u8 list \<Rightarrow> (nat \<times> u8) list" where
  "evenly t [] = []"
| "evenly t (p # ps) = (t, p) # evenly (t + 11) ps"

lemma evenly_append: "evenly t (ps @ qs) = evenly t ps @ evenly (t + 11 * length ps) qs"
  by (induction ps arbitrary: t) (simp_all add: algebra_simps)

lemma snd_evenly [simp]: "map snd (evenly t ps) = ps"
  by (induction ps arbitrary: t) simp_all

text \<open>All so far was written evenly from clock \<open>t\<close> on, and the next value is due in \<open>d\<close> clocks.\<close>

definition on_time :: "nat \<Rightarrow> nat \<Rightarrow> sender \<Rightarrow> bool" where
  "on_time t d s \<longleftrightarrow> tx_out s = evenly t (map snd (tx_out s)) \<and> tx_clock s + d = t + 11 * length (tx_out s)"

lemma on_time_update [simp]:
  "on_time t d (s\<lparr>tx_shift := v\<rparr>) = on_time t d s" "on_time t d (s\<lparr>tx_carry := c\<rparr>) = on_time t d s"
  "on_time t d (s\<lparr>bitStatus := w\<rparr>) = on_time t d s" "on_time t d (s\<lparr>tx_x2 := x\<rparr>) = on_time t d s"
  "on_time t d (s\<lparr>tx_x1 := x\<rparr>) = on_time t d s"
  by (simp_all add: on_time_def)

lemma on_time_clock [simp]:
  "on_time t d (tick n s) = on_time t (n + d) s" "on_time t d (toggle s) = on_time t (Suc d) s"
  "on_time t d (next_level s) = on_time t (Suc (Suc d)) s"
  "on_time t d (ror_shift s) = on_time t (Suc d) s" "on_time t d (ror_x2 s) = on_time t (Suc d) s"
  by (auto simp: on_time_def sender_defs split_beta)

lemma on_time_out: "on_time t 0 s \<Longrightarrow> d = 10 \<Longrightarrow> on_time t d (out_port s)"
  by (simp add: on_time_def out_port_def tick_def evenly_append)

lemma on_time_didStuffN: "on_time t 8 s \<Longrightarrow> on_time t 6 (didStuffN s)"
  by (auto simp: didStuffN_def Let_def intro!: on_time_out)

lemma on_time_sendbit: "on_time t 2 s \<Longrightarrow> on_time t 6 (sendbit s)"
  by (auto simp: sendbit_def Let_def numeral_2_eq_2 intro!: on_time_didStuffN on_time_out)

text \<open>The eighth bit starts one clock later, and ends so.\<close>

lemma on_time_lastbit:
  assumes "on_time t 3 s"
  shows "on_time t 7 (lastbit s)"
proof -
  have "on_time t 2 (tick 1 s)" using assms by (simp add: eval_nat_numeral)
  from on_time_sendbit[OF this] have "on_time t 6 (tick 1 (lastbit s))" by (simp only: lastbit_sendbit)
  then show ?thesis by (simp add: eval_nat_numeral)
qed

lemma on_time_bitloop: "on_time t 2 s \<Longrightarrow> on_time t 3 (bitloop s)"
proof (induction "unat (bitStatus s)" arbitrary: s rule: less_induct)
  case (less s)
  define u where "u = (tick 2 (sendbit s))\<lparr>bitStatus := bitStatus s - 37, tx_carry := bitStatus s < 37\<rparr>"
  have u: "on_time t 4 u" using on_time_sendbit[OF less(2)] by (simp add: u_def)
  have turn: "bitloop s = (if bitStatus s < 37 then tick 1 u else bitloop (tick 2 u))"
    by (subst bitloop_step) (simp only: u_def Let_def)
  show ?case
  proof (cases "bitStatus s < 37")
    case False
    then have "unat (bitStatus (tick 2 u)) < unat (bitStatus s)"
      by (simp add: u_def word_less_nat_alt unat_sub_if')
    then show ?thesis using less(1)[of "tick 2 u"] u False by (simp add: turn)
  qed (use u turn in simp)
qed

lemma on_time_byteloop: "on_time t 2 s \<Longrightarrow> on_time t 3 (byteloop mem y cnt s)"
proof (induction "unat (cnt - 1)" arbitrary: y cnt s rule: less_induct)
  case (less cnt y s)
  define u where "u = tick 1 (tick 2 ((lastbit (bitloop s))\<lparr>tx_shift := mem y\<rparr>))"
  have u: "on_time t 4 u" using on_time_lastbit[OF on_time_bitloop[OF less(2)]] by (simp add: u_def)
  have turn: "byteloop mem y cnt s = (if cnt - 1 \<noteq> 0 then byteloop mem (Suc y) (cnt - 1) (tick 2 u) else tick 1 u)"
    by (subst byteloop.simps) (simp only: u_def Let_def)
  show ?case
  proof (cases "cnt - 1 = 0")
    case False
    note unat_dec[OF this]
    then show ?thesis using less(1)[of "cnt - 1" "tick 2 u" "Suc y"] u False by (simp add: turn)
  qed (use u turn in simp)
qed

section \<open>The whole packet\<close>

text \<open>
  The end of a packet on the bus: the bits \<open>ps\<close> take 11 clocks each, the last one 12; then comes SE0, for
  24 clocks, or 25 when the address was stored, and idle.
\<close>

definition packet_out :: "nat \<Rightarrow> u8 list \<Rightarrow> u8 \<Rightarrow> u8 \<Rightarrow> bool \<Rightarrow> (nat \<times> u8) list" where
  "packet_out t ps se0 idle stored =
     evenly t ps @ [(t + 11 * length ps + 1, se0), (t + 11 * length ps + (if stored then 26 else 25), idle)]"

lemma usbSendAndReti_sends:
  fixes mem :: "nat \<Rightarrow> u8" and y
  assumes "0 < cnt" "cnt \<le> 12" "\<not> bit port USBPLUS"
  defines "bytes \<equiv> map (\<lambda>i. mem (y + i)) [0..<unat cnt - 1]"
  shows "\<exists>ps se0 idle. usbSendAndReti mem y cnt port x2 carry t = packet_out (t + 11) ps se0 idle (y + unat cnt \<noteq> 2) \<and>
    list_all2 drives ps (nrzi True (stuff 0 (bits_of_bytes (0x80 # bytes)))) \<and>
    drives_SE0 se0 \<and> drives idle True"
proof -
  define s where "s = tick 9 \<lparr>tx_shift = 0x80, tx_x1 = port OR USBIDLE, tx_x2 = x2, bitStatus = 0xff,
    tx_carry = carry, tx_clock = t, tx_out = []\<rparr>"
  have cnt: "0 < unat cnt" "unat cnt \<le> 12"
    using assms(1,2) by (simp_all add: word_le_nat_alt word_less_nat_alt)
  then have len: "of_nat (Suc (length bytes)) = cnt" by (simp add: bytes_def)
  have start: "sent [] s" "holds (map (bit (0x80 :: u8)) [0..<8]) s" "unat (bitStatus s) = 255 - 3 * 0"
    using assms(3)
    by (simp_all add: s_def sent_def holds_def tick_def drives_def USBIDLE_def USBMINUS_def USBPLUS_def bit_or_iff)
  have "sent ([] @ bits_of_bytes (0x80 # bytes)) (byteloop mem y (of_nat (Suc (length bytes))) s)"
    using cnt by (intro byteloop_sends[OF start]) (auto simp: bytes_def)
  then have sent: "sent (bits_of_bytes (0x80 # bytes)) (byteloop mem y cnt s)"
    by (simp only: len append_Nil)
  have "on_time (t + 11) 2 s" by (simp add: on_time_def s_def tick_def)
  then have time: "on_time (t + 11) 3 (byteloop mem y cnt s)" by (rule on_time_byteloop)
  define r where "r = byteloop mem y cnt s"
  define se0 where "se0 = tx_x1 r AND NOT USBMASK"
  have out: "list_all2 drives (map snd (tx_out r)) (nrzi True (stuff 0 (bits_of_bytes (0x80 # bytes))))"
    using sent by (simp add: sent_def r_def)
  have "tx_out r = evenly (t + 11) (map snd (tx_out r))" "tx_clock r + 3 = t + 11 + 11 * length (tx_out r)"
    using time by (simp_all add: on_time_def r_def)
  then have "usbSendAndReti mem y cnt port x2 carry t =
      packet_out (t + 11) (map snd (tx_out r)) se0 (se0 OR USBIDLE) (y + unat cnt \<noteq> 2)"
    unfolding usbSendAndReti_def Let_def s_def[symmetric] r_def[symmetric]
    by (simp add: packet_out_def out_port_def tick_def se0_def)
  moreover have "drives_SE0 se0"
    by (simp add: drives_SE0_def se0_def and.assoc)
  moreover have "drives (se0 OR USBIDLE) True"
    by (simp add: drives_def se0_def USBMASK_def USBIDLE_def USBMINUS_def USBPLUS_def bit_or_iff bit_and_iff bit_not_iff)
  ultimately show ?thesis using out by blast
qed

text \<open>
  \<open>sendCntAndReti\<close>: a handshake is sent from \<open>r0\<close>, which is address 0 of the memory.
\<close>

definition sendCntAndReti :: "(nat \<Rightarrow> u8) \<Rightarrow> u8 \<Rightarrow> u8 \<Rightarrow> u8 \<Rightarrow> bool \<Rightarrow> nat \<Rightarrow> (nat \<times> u8) list" where
  "sendCntAndReti mem cnt port x2 carry t =
     (let mem = mem(0 := cnt) in usbSendAndReti mem 0 2 port x2 carry (t + 4))"

text \<open>
  C12. The send routine puts a packet of up to twelve bytes, the sync byte first, on the bus with the
  coding and the timing of the USB specification: the port shows exactly the levels of the stuffed bits,
  the first one 11 clocks after the entry, each for 11 clocks and the last for 12, then SE0 for 24 or 25
  clocks, where the specification allows 21 to 25, then the idle state, whatever the registers held before.
\<close>

theorem packet_sent:
  fixes mem :: "nat \<Rightarrow> u8" and y
  assumes "0 < cnt" "cnt \<le> 12" "\<not> bit port USBPLUS"
  defines "bytes \<equiv> map (\<lambda>i. mem (y + i)) [0..<unat cnt - 1]"
  shows "\<exists>ps se0 idle. usbSendAndReti mem y cnt port x2 carry t = packet_out (t + 11) ps se0 idle (y + unat cnt \<noteq> 2) \<and>
    list_all2 drives ps (nrzi True (stuff 0 (bits_of_bytes (0x80 # bytes)))) \<and>
    drives_SE0 se0 \<and> drives idle True"
  unfolding bytes_def by (rule usbSendAndReti_sends[OF assms(1-3)])

theorem packet_sent_witness:
  "\<exists>ps se0 idle. usbSendAndReti (\<lambda>_. 0xff) 0 3 0 0xff True 0 = packet_out 11 ps se0 idle True \<and> length ps = 26 \<and>
     drives_SE0 se0 \<and> drives idle True"
proof -
  have "\<exists>ps se0 idle. usbSendAndReti (\<lambda>_. 0xff) 0 3 0 0xff True 0 =
        packet_out (0 + 11) ps se0 idle (0 + unat (3 :: u8) \<noteq> 2) \<and>
      list_all2 drives ps (nrzi True (stuff 0 (bits_of_bytes (0x80 # map (\<lambda>i. 0xff) [0..<unat (3 :: u8) - 1])))) \<and>
      drives_SE0 se0 \<and> drives idle True"
    by (rule packet_sent[where mem = "\<lambda>_. 0xff" and y = 0]) simp_all
  then obtain ps se0 idle where "usbSendAndReti (\<lambda>_. 0xff) 0 3 0 0xff True 0 = packet_out 11 ps se0 idle True"
      "list_all2 drives ps (nrzi True (stuff 0 (bits_of_bytes (0x80 # map (\<lambda>i. 0xff) [0..<unat (3 :: u8) - 1]))))"
      "drives_SE0 se0" "drives idle True"
    by auto
  moreover have "length (stuff 0 (bits_of_bytes (0x80 # map (\<lambda>i. 0xff) [0..<unat (3 :: u8) - 1]))) = 26"
    by (simp add: bits_of_bytes_Cons upt_rec)
  ultimately show ?thesis
    by (intro exI[of _ ps] exI[of _ se0] exI[of _ idle]) (auto dest!: list_all2_lengthD)
qed

end
