(* ===== verification/Usb_Receiver.thy ===== *)
theory Usb_Receiver
  imports Usb_Line Usb_Transceiver
begin

unbundle bit_operations_syntax

text \<open>
  The receive loop of \<open>firmware/src/usbdrv/usbdrvasm165.inc\<close>, one sample of the port per bit time.
  \<open>line\<close> gives the samples, from the first bit after the two bits K that end the sync
  pattern. The samples for the phase go to \<open>phase\<close> and \<open>r0\<close>, which decide only a delay of one
  cycle; they are left out here and added in \<open>Usb_Clock\<close>. The loop is unrolled over the eight bits: each step samples one bit and,
  when the test before it found six equal samples, one more for the stuffed bit.
\<close>

section \<open>The registers\<close>

text \<open>
  \<open>shift\<close> gets a 1 where the level changed, that is the complement of the data; \<open>x3\<close> has a 0
  where \<open>shift\<close> was patched to end a run. \<open>rx_stored\<close> is what \<open>st y+\<close> wrote, \<open>rx_samples\<close> the
  number of samples taken.
\<close>

record receiver =
  rx_shift :: u8
  rx_x1 :: u8
  rx_x2 :: u8
  rx_x3 :: u8
  rx_cnt :: u8
  rx_stored :: "u8 list"
  rx_samples :: nat

datatype rx_end = SE0 receiver | Overflow receiver

definition in_x1 :: "(nat \<Rightarrow> u8) \<Rightarrow> receiver \<Rightarrow> receiver" where
  "in_x1 line s = s\<lparr>rx_x1 := line (rx_samples s), rx_samples := Suc (rx_samples s)\<rparr>"

definition in_x2 :: "(nat \<Rightarrow> u8) \<Rightarrow> receiver \<Rightarrow> receiver" where
  "in_x2 line s = s\<lparr>rx_x2 := line (rx_samples s), rx_samples := Suc (rx_samples s)\<rparr>"

text \<open>\<open>eor x1, x2\<close>, \<open>bst x1, USBMINUS\<close>, \<open>bld shift, k\<close>, and the same with \<open>x2\<close>.\<close>

definition bld :: "nat \<Rightarrow> bool \<Rightarrow> u8 \<Rightarrow> u8" where
  "bld k t r = (if t then set_bit k r else unset_bit k r)"

definition eor_x1 :: "nat \<Rightarrow> receiver \<Rightarrow> receiver" where
  "eor_x1 k s =
     (let x1 = rx_x1 s XOR rx_x2 s
      in s\<lparr>rx_x1 := x1, rx_shift := bld k (bit x1 USBMINUS) (rx_shift s)\<rparr>)"

definition eor_x2 :: "nat \<Rightarrow> receiver \<Rightarrow> receiver" where
  "eor_x2 k s =
     (let x2 = rx_x2 s XOR rx_x1 s
      in s\<lparr>rx_x2 := x2, rx_shift := bld k (bit x2 USBMINUS) (rx_shift s)\<rparr>)"

text \<open>\<open>andi shift, m\<close> with the zero flag, and the two instructions that patch a run.\<close>

definition andi_shift :: "u8 \<Rightarrow> receiver \<Rightarrow> bool \<times> receiver" where
  "andi_shift m s = (rx_shift s AND m = 0, s\<lparr>rx_shift := rx_shift s AND m\<rparr>)"

definition unstuff :: "u8 \<Rightarrow> receiver \<Rightarrow> receiver" where
  "unstuff m s = s\<lparr>rx_x3 := rx_x3 s AND NOT m, rx_shift := rx_shift s OR m\<rparr>"

section \<open>The steps of a byte\<close>

text \<open>
  \<open>rxbit1\<close> with \<open>unstuff0\<close>: the only place where SE0 is looked for. After \<open>ori shift\<close> the zero flag
  is clear, so the branch at \<open>didUnstuff0\<close> is not taken then, nor are the branches the other
  patches jump back to.
\<close>

definition rx_bit1 :: "(nat \<Rightarrow> u8) \<Rightarrow> bool \<times> receiver \<Rightarrow> rx_end + bool \<times> receiver" where
  "rx_bit1 line zs =
     (let (z, s) = zs;
          s = in_x2 line s;
          s = s\<lparr>rx_x2 := rx_x2 s AND USBMASK\<rparr>
      in if rx_x2 s = 0 then Inl (SE0 s)
         else (let s = (if z then (let s = unstuff 0x01 s; s = s\<lparr>rx_x1 := rx_x2 s\<rparr> in in_x2 line s) else s);
                   s = eor_x1 1 s
               in Inr (andi_shift 0xf3 s)))"

text \<open>\<open>didUnstuff1\<close> with \<open>unstuff1\<close>, and the overflow check.\<close>

definition rx_bit2 :: "(nat \<Rightarrow> u8) \<Rightarrow> bool \<times> receiver \<Rightarrow> rx_end + bool \<times> receiver" where
  "rx_bit2 line zs =
     (let (z, s) = zs;
          s = in_x1 line s;
          s = (if z then (let s = unstuff 0x02 s; s = s\<lparr>rx_x2 := rx_x1 s\<rparr> in in_x1 line s) else s);
          (cnt, carry) = subi (rx_cnt s) 1;
          s = s\<lparr>rx_cnt := cnt\<rparr>
      in if carry then Inl (Overflow s)
         else (let s = eor_x2 2 s in Inr (andi_shift 0xe7 s)))"

definition rx_bit3 :: "(nat \<Rightarrow> u8) \<Rightarrow> bool \<times> receiver \<Rightarrow> bool \<times> receiver" where
  "rx_bit3 line zs =
     (let (z, s) = zs;
          s = in_x2 line s;
          s = (if z then (let s = unstuff 0x04 s; s = s\<lparr>rx_x1 := rx_x2 s\<rparr> in in_x2 line s) else s);
          s = eor_x1 3 s
      in andi_shift 0xcf s)"

definition rx_bit4 :: "(nat \<Rightarrow> u8) \<Rightarrow> bool \<times> receiver \<Rightarrow> bool \<times> receiver" where
  "rx_bit4 line zs =
     (let (z, s) = zs;
          s = (if z then (let s = in_x2 line s in unstuff 0x08 s) else s);
          s = in_x1 line s;
          s = eor_x2 4 s
      in andi_shift 0x9f s)"

text \<open>\<open>unstuff4\<close> jumps back before the mask is applied; the mask changes nothing then.\<close>

definition rx_bit5 :: "(nat \<Rightarrow> u8) \<Rightarrow> bool \<times> receiver \<Rightarrow> bool \<times> receiver" where
  "rx_bit5 line zs =
     (let (z, s) = zs;
          s = (if z then (let s = in_x1 line s; s = unstuff 0x10 s in snd (andi_shift 0x9f s)) else s);
          s = in_x2 line s;
          s = eor_x1 5 s
      in andi_shift 0x3f s)"

text \<open>Bit 6. After \<open>unstuff5\<close> no stuffed bit can follow, and the test is skipped.\<close>

definition rx_bit6 :: "(nat \<Rightarrow> u8) \<Rightarrow> bool \<times> receiver \<Rightarrow> bool \<times> receiver" where
  "rx_bit6 line zs =
     (let (z, s) = zs;
          s = in_x1 line s
      in if z then (let s = unstuff 0x20 s; s = s\<lparr>rx_x2 := rx_x1 s\<rparr>; s = in_x1 line s in (False, eor_x2 6 s))
         else (let s = eor_x2 6 s in (rx_shift s < 0x02, s)))"

definition rx_bit7 :: "(nat \<Rightarrow> u8) \<Rightarrow> bool \<times> receiver \<Rightarrow> bool \<times> receiver" where
  "rx_bit7 line zs =
     (let (z, s) = zs;
          s = (if z then (let s = unstuff 0x40 s in in_x1 line s) else s);
          s = in_x2 line s;
          s = eor_x1 7 s
      in (rx_shift s < 0x04, s))"

text \<open>\<open>unstuff7\<close>, then from \<open>rxLoop\<close> to \<open>rxbit1\<close>: the byte is put together and stored.\<close>

definition rx_bit0 :: "(nat \<Rightarrow> u8) \<Rightarrow> bool \<times> receiver \<Rightarrow> bool \<times> receiver" where
  "rx_bit0 line zs =
     (let (z, s) = zs;
          s = (if z then (let s = unstuff 0x80 s in in_x2 line s) else s);
          s = s\<lparr>rx_x3 := rx_x3 s XOR rx_shift s\<rparr>;
          s = in_x1 line s;
          s = s\<lparr>rx_stored := rx_stored s @ [rx_x3 s]\<rparr>;
          s = eor_x2 0 s;
          s = s\<lparr>rx_x3 := 0xff\<rparr>
      in andi_shift 0xf9 s)"

definition rx_bits :: "(nat \<Rightarrow> u8) \<Rightarrow> bool \<times> receiver \<Rightarrow> rx_end + bool \<times> receiver" where
  "rx_bits line zs =
     (case rx_bit1 line zs of
        Inl e \<Rightarrow> Inl e
      | Inr zs \<Rightarrow>
          (case rx_bit2 line zs of
             Inl e \<Rightarrow> Inl e
           | Inr zs \<Rightarrow>
               (let zs = rx_bit3 line zs; zs = rx_bit4 line zs; zs = rx_bit5 line zs; zs = rx_bit6 line zs
                in Inr (rx_bit7 line zs))))"

lemma rx_cnt_basic [simp]:
  "rx_cnt (in_x1 line s) = rx_cnt s" "rx_cnt (in_x2 line s) = rx_cnt s" "rx_cnt (eor_x1 k s) = rx_cnt s"
  "rx_cnt (eor_x2 k s) = rx_cnt s" "rx_cnt (unstuff m s) = rx_cnt s" "rx_cnt (snd (andi_shift m s)) = rx_cnt s"
  by (simp_all add: in_x1_def in_x2_def eor_x1_def eor_x2_def unstuff_def andi_shift_def Let_def)

lemma rx_stored_basic [simp]:
  "rx_stored (in_x1 line s) = rx_stored s" "rx_stored (in_x2 line s) = rx_stored s"
  "rx_stored (eor_x1 k s) = rx_stored s" "rx_stored (eor_x2 k s) = rx_stored s"
  "rx_stored (unstuff m s) = rx_stored s" "rx_stored (snd (andi_shift m s)) = rx_stored s"
  by (simp_all add: in_x1_def in_x2_def eor_x1_def eor_x2_def unstuff_def andi_shift_def Let_def)

lemma rx_cnt_bits [simp]:
  "rx_cnt (snd (rx_bit3 line zs)) = rx_cnt (snd zs)" "rx_cnt (snd (rx_bit4 line zs)) = rx_cnt (snd zs)"
  "rx_cnt (snd (rx_bit5 line zs)) = rx_cnt (snd zs)" "rx_cnt (snd (rx_bit6 line zs)) = rx_cnt (snd zs)"
  "rx_cnt (snd (rx_bit7 line zs)) = rx_cnt (snd zs)" "rx_cnt (snd (rx_bit0 line zs)) = rx_cnt (snd zs)"
  by (simp_all add: rx_bit3_def rx_bit4_def rx_bit5_def rx_bit6_def rx_bit7_def rx_bit0_def Let_def split_beta)

lemma rx_stored_bits [simp]:
  "rx_stored (snd (rx_bit3 line zs)) = rx_stored (snd zs)" "rx_stored (snd (rx_bit4 line zs)) = rx_stored (snd zs)"
  "rx_stored (snd (rx_bit5 line zs)) = rx_stored (snd zs)" "rx_stored (snd (rx_bit6 line zs)) = rx_stored (snd zs)"
  "rx_stored (snd (rx_bit7 line zs)) = rx_stored (snd zs)"
  by (simp_all add: rx_bit3_def rx_bit4_def rx_bit5_def rx_bit6_def rx_bit7_def Let_def split_beta)

lemma rx_stored_bit1: "rx_bit1 line zs = Inr zs' \<Longrightarrow> rx_stored (snd zs') = rx_stored (snd zs)"
  by (auto simp: rx_bit1_def Let_def split_beta split: if_splits)

lemma rx_stored_bit2: "rx_bit2 line zs = Inr zs' \<Longrightarrow> rx_stored (snd zs') = rx_stored (snd zs)"
  by (auto simp: rx_bit2_def subi_def Let_def split_beta split: if_splits)

lemma rx_cnt_bit1: "rx_bit1 line zs = Inr zs' \<Longrightarrow> rx_cnt (snd zs') = rx_cnt (snd zs)"
  by (auto simp: rx_bit1_def Let_def split_beta split: if_splits)

lemma rx_cnt_bit2: "rx_bit2 line zs = Inr zs' \<Longrightarrow> rx_cnt (snd zs) \<noteq> 0 \<and> rx_cnt (snd zs') = rx_cnt (snd zs) - 1"
  by (auto simp: rx_bit2_def subi_def Let_def split_beta split: if_splits)

lemma rx_bits_cnt:
  assumes "rx_bits line zs = Inr zs'"
  shows "rx_cnt (snd zs) \<noteq> 0" "rx_cnt (snd zs') = rx_cnt (snd zs) - 1"
  using assms by (auto simp: rx_bits_def Let_def split: sum.splits dest!: rx_cnt_bit1 rx_cnt_bit2)

text \<open>The loop, until SE0 or until the buffer is full, and its start at \<open>haveTwoBitsK\<close>.\<close>

function rxLoop :: "(nat \<Rightarrow> u8) \<Rightarrow> bool \<times> receiver \<Rightarrow> rx_end" where
  "rxLoop line zs =
     (case rx_bits line zs of
        Inl e \<Rightarrow> e
      | Inr zs \<Rightarrow> rxLoop line (rx_bit0 line zs))"
  by pat_completeness auto
termination
proof (relation "measure (\<lambda>(line, zs). unat (rx_cnt (snd zs)))", simp)
  fix line zs zs'
  assume "rx_bits line zs = Inr zs'"
  from rx_bits_cnt[OF this] have "unat (rx_cnt (snd zs')) < unat (rx_cnt (snd zs))"
    by (simp add: unat_minus_one unat_gt_0)
  then show "((line, rx_bit0 line zs'), line, zs) \<in> measure (\<lambda>(line, zs). unat (rx_cnt (snd zs)))"
    by simp
qed

declare rxLoop.simps [simp del]

definition haveTwoBitsK :: "(nat \<Rightarrow> u8) \<Rightarrow> rx_end" where
  "haveTwoBitsK line =
     (let s = \<lparr>rx_shift = 0xff, rx_x1 = 0, rx_x2 = 0, rx_x3 = 0xff, rx_cnt = of_nat USB_BUFSIZE,
               rx_stored = [], rx_samples = 0\<rparr>;
          s = in_x1 line s;
          s = s\<lparr>rx_shift := bld 0 (bit (rx_x1 s) USBMINUS) (rx_shift s)\<rparr>
      in rxLoop line (False, s))"

section \<open>The signal of a packet\<close>

text \<open>
  From sample \<open>p\<close> on and after level \<open>l\<close>, \<open>line\<close> codes the bits and then stays at SE0 for two bit
  times.
\<close>

fun carries :: "(nat \<Rightarrow> u8) \<Rightarrow> nat \<Rightarrow> bool \<Rightarrow> bool list \<Rightarrow> bool" where
  "carries line p l [] = (drives_SE0 (line p) \<and> drives_SE0 (line (Suc p)))"
| "carries line p l (b # bs) = (drives (line p) (l = b) \<and> carries line (Suc p) (l = b) bs)"

lemma carries_nrzi:
  "carries line p l bs \<longleftrightarrow>
     list_all2 drives (map line [p..<p + length bs]) (nrzi l bs) \<and>
     drives_SE0 (line (p + length bs)) \<and> drives_SE0 (line (p + length bs + 1))"
proof (induction bs arbitrary: p l)
  case (Cons b bs)
  have "[p..<p + length (b # bs)] = p # [Suc p..<Suc p + length bs]"
    by (subst upt_rec) simp
  then show ?case using Cons.IH by simp
qed simp

text \<open>A run at the start does not matter when a 0 follows soon enough.\<close>

lemma stuff_Suc: "\<exists>i<5 - n. i < length xs \<and> \<not> xs ! i \<Longrightarrow> stuff (Suc n) xs = stuff n xs"
proof (induction xs arbitrary: n)
  case (Cons b bs)
  show ?case
  proof (cases b)
    case True
    from Cons.prems True obtain i where i: "i < 5 - n" "i < length (b # bs)" "\<not> (b # bs) ! i" by blast
    then obtain j where "i = Suc j" using True by (cases i) auto
    then have "\<exists>j<5 - Suc n. j < length bs \<and> \<not> bs ! j" using i by (intro exI[of _ j]) auto
    moreover from this have "n \<noteq> 5" "Suc n \<noteq> 5" by auto
    ultimately show ?thesis using True Cons.IH[of "Suc n"] by simp
  qed simp
qed simp

section \<open>The six places the tests look at\<close>

text \<open>
  \<open>recent k w\<close> are the last six bits put into \<open>shift\<close> when the newest is at \<open>k\<close>, and \<open>run_at\<close> the
  number of unchanged levels at the end. The masks of the source clear the two older places, so each test is
  for a run of six.
\<close>

definition recent :: "nat \<Rightarrow> u8 \<Rightarrow> bool list" where
  "recent k w = map (\<lambda>i. bit w ((k + 8 - i) mod 8)) [0..<6]"

definition run_at :: "nat \<Rightarrow> u8 \<Rightarrow> nat" where
  "run_at k w = length (takeWhile Not (recent k w))"

lemma length_recent [simp]: "length (recent k w) = 6"
  by (simp add: recent_def)

lemma takeWhile_butlast: "length (takeWhile P xs) < length xs \<Longrightarrow> takeWhile P (butlast xs) = takeWhile P xs"
  by (induction xs) auto

lemma takeWhile_all: "length (takeWhile P xs) = length xs \<longleftrightarrow> (\<forall>x\<in>set xs. P x)"
  by (induction xs) auto

lemma run_at_le: "run_at k w \<le> 6"
  using length_takeWhile_le[of Not "recent k w"] by (simp add: run_at_def)

lemma run_six: "run_at k w = 6 \<longleftrightarrow> (\<forall>b\<in>set (recent k w). \<not> b)"
  using takeWhile_all[of Not "recent k w"] by (simp add: run_at_def)

lemma run_at_push:
  assumes "recent k' w' = c # butlast (recent k w)" "run_at k w \<noteq> 6"
  shows "run_at k' w' = (if c then 0 else Suc (run_at k w))"
proof -
  have "length (takeWhile Not (recent k w)) < length (recent k w)"
    using assms(2) length_takeWhile_le[of Not "recent k w"] by (simp add: run_at_def)
  from takeWhile_butlast[OF this] show ?thesis using assms(1) by (simp add: run_at_def)
qed

lemma six_list: "[0..<6] = [0, 1, 2, 3, 4, 5 :: nat]"
  by (simp add: upt_rec)

lemma bit_bld [bit_simps]: "k < 8 \<Longrightarrow> bit (bld k c w) j = (if j = k then c else bit w j)"
  by (auto simp: bld_def bit_simps)

text \<open>Placing the next bit and masking: the older bits move on, the bits of this byte stay.\<close>

definition placed :: "nat \<Rightarrow> bool \<Rightarrow> u8 \<Rightarrow> u8 \<Rightarrow> bool" where
  "placed k c w w' \<longleftrightarrow>
     recent (Suc k) w' = c # butlast (recent k w) \<and> (\<forall>j<8. j \<le> k \<longrightarrow> bit w' j = bit w j) \<and> bit w' (Suc k) = c"

lemma placed_masks:
  "placed 0 c w (bld 1 c w AND 0xf3)" "placed 1 c w (bld 2 c w AND 0xe7)" "placed 2 c w (bld 3 c w AND 0xcf)"
  "placed 3 c w (bld 4 c w AND 0x9f)" "placed 4 c w (bld 5 c w AND 0x3f)" "placed 5 c w (bld 6 c w)"
  "placed 6 c w (bld 7 c w)"
  by (simp_all add: placed_def recent_def six_list bit_and_iff bit_bld all_less_8)

lemma placed_first: "recent 0 (bld 0 c w AND 0xf9) = c # butlast (recent 7 w)"
  by (simp_all add: recent_def six_list bit_and_iff bit_bld)

text \<open>What each test decides.\<close>

lemma tests_mask:
  "w AND 0xf9 = 0 \<longleftrightarrow> run_at 0 (w AND 0xf9) = 6" "w AND 0xf3 = 0 \<longleftrightarrow> run_at 1 (w AND 0xf3) = 6"
  "w AND 0xe7 = 0 \<longleftrightarrow> run_at 2 (w AND 0xe7) = 6" "w AND 0xcf = 0 \<longleftrightarrow> run_at 3 (w AND 0xcf) = 6"
  "w AND 0x9f = 0 \<longleftrightarrow> run_at 4 (w AND 0x9f) = 6" "w AND 0x3f = 0 \<longleftrightarrow> run_at 5 (w AND 0x3f) = 6" for w :: u8
  by (auto simp: run_six recent_def six_list u8_eq_iff all_less_8 bit_and_iff)

lemma test_7: "w < 0x04 \<longleftrightarrow> run_at 7 w = 6"
proof -
  have "w < 0x04 \<longleftrightarrow> unat w div 4 = 0"
    by (simp add: word_less_nat_alt) linarith
  also have "\<dots> \<longleftrightarrow> drop_bit 2 w = 0"
    by (simp add: word_unat_eq_iff unat_div drop_bit_eq_div)
  also have "\<dots> \<longleftrightarrow> run_at 7 w = 6"
    by (auto simp: run_six recent_def six_list u8_eq_iff all_less_8 bit_simps
        numeral_2_eq_2[symmetric] numeral_3_eq_3[symmetric])
  finally show ?thesis .
qed

lemma test_6:
  assumes "\<not> bit w 7"
  shows "w < 0x02 \<longleftrightarrow> run_at 6 w = 6"
proof -
  have "w < 0x02 \<longleftrightarrow> unat w div 2 = 0"
    by (simp add: word_less_nat_alt) linarith
  also have "\<dots> \<longleftrightarrow> drop_bit 1 w = 0"
    by (simp add: word_unat_eq_iff unat_div drop_bit_eq_div)
  also have "\<dots> \<longleftrightarrow> run_at 6 w = 6"
    using assms by (auto simp: run_six recent_def six_list u8_eq_iff all_less_8 bit_simps
        numeral_2_eq_2[symmetric] numeral_3_eq_3[symmetric])
  finally show ?thesis .
qed

section \<open>The invariant\<close>

text \<open>
  After bit \<open>k\<close> of a byte: \<open>D\<close> are its bits so far, \<open>ds\<close> the bits still to come, \<open>n\<close> the number of 1s
  at the end. The newest sample is in \<open>x1\<close> for the even bits and in \<open>x2\<close> for the odd ones. \<open>z\<close> says
  that a stuffed bit is next.
\<close>

definition newest :: "nat \<Rightarrow> receiver \<Rightarrow> bool" where
  "newest k s = bit (if even k then rx_x1 s else rx_x2 s) USBMINUS"

definition rx_inv :: "(nat \<Rightarrow> u8) \<Rightarrow> nat \<Rightarrow> nat \<Rightarrow> bool \<times> receiver \<Rightarrow> bool list \<Rightarrow> bool list \<Rightarrow> bool" where
  "rx_inv line k n zs D ds \<longleftrightarrow>
     (case zs of (z, s) \<Rightarrow>
        (z \<longleftrightarrow> n = 6) \<and> run_at k (rx_shift s) = n \<and>
        carries line (rx_samples s) (newest k s) (if z then False # stuff 0 ds else stuff n ds) \<and>
        length D = Suc k \<and> (z \<longrightarrow> D ! k) \<and>
        (\<forall>j<8. if j \<le> k then bit (rx_x3 s XOR rx_shift s) j = D ! j else bit (rx_x3 s) j))"

text \<open>A patch ends the run and leaves the bits of the byte as they are.\<close>

lemma rx_inv_unstuff:
  assumes inv: "rx_inv line k n (True, s) D ds"
    and s': "rx_shift s' = rx_shift s OR m" "rx_x3 s' = rx_x3 s AND NOT m" "rx_samples s' = Suc (rx_samples s)"
      "newest k s' = bit (line (rx_samples s)) USBMINUS"
    and m: "k < 8" "\<forall>j<8. bit m j = (j = k)"
  shows "rx_inv line k 0 (False, s') D ds"
proof -
  have first: "[0..<6] = 0 # [1..<6 :: nat]" by (simp add: upt_rec)
  have run: "run_at k (rx_shift s') = 0"
    using m by (simp add: run_at_def recent_def first s'(1) bit_simps)
  have "\<forall>b\<in>set (recent k (rx_shift s)). \<not> b"
    using inv by (auto simp: rx_inv_def run_six)
  then have clear: "\<not> bit (rx_shift s) k" using m(1) by (simp add: recent_def first)
  have "carries line (rx_samples s') (newest k s') (stuff 0 ds)"
    using inv by (auto simp: rx_inv_def s'(3,4) drives_def)
  moreover have "if j \<le> k then bit (rx_x3 s' XOR rx_shift s') j = D ! j else bit (rx_x3 s') j" if "j < 8" for j
  proof -
    have "if j \<le> k then bit (rx_x3 s XOR rx_shift s) j = D ! j else bit (rx_x3 s) j"
      using inv that by (simp add: rx_inv_def)
    moreover from this have "bit (rx_x3 s) k" if "j = k"
      using inv that clear by (simp add: rx_inv_def bit_simps)
    ultimately show ?thesis using m that clear by (auto simp: s'(1,2) bit_simps)
  qed
  ultimately show ?thesis using inv run by (simp add: rx_inv_def)
qed

text \<open>The change seen by the next sample is the complement of the next bit.\<close>

lemma rx_inv_change:
  assumes "rx_inv line k n (False, s) D (b # ds)"
  shows "bit (line (rx_samples s)) USBMINUS \<longleftrightarrow> newest k s = b"
  using assms by (auto simp: rx_inv_def drives_def)

lemma rx_inv_next:
  assumes inv: "rx_inv line k n (False, s) D (b # ds)" and "k < 7"
    and s': "placed k (\<not> b) (rx_shift s) (rx_shift s')" "rx_x3 s' = rx_x3 s" "rx_samples s' = Suc (rx_samples s)"
      "newest (Suc k) s' = bit (line (rx_samples s)) USBMINUS" "z \<longleftrightarrow> run_at (Suc k) (rx_shift s') = 6"
  shows "rx_inv line (Suc k) (if b then Suc n else 0) (z, s') (D @ [b]) ds"
proof -
  have n: "run_at k (rx_shift s) = n" "n \<noteq> 6" using inv by (simp_all add: rx_inv_def)
  then have n': "run_at (Suc k) (rx_shift s') = (if b then Suc n else 0)"
    using run_at_push[of "Suc k" "rx_shift s'" "\<not> b" k "rx_shift s"] s'(1) by (simp add: placed_def)
  have line: "carries line (rx_samples s) (newest k s) (stuff n (b # ds))"
    using inv by (simp add: rx_inv_def)
  have len: "length D = Suc k" using inv by (simp add: rx_inv_def)
  have "carries line (rx_samples s') (newest (Suc k) s')
      (if z then False # stuff 0 ds else stuff (if b then Suc n else 0) ds)"
    using line n(2) n' s'(3-5) by (auto simp: drives_def split: if_splits)
  moreover have "if j \<le> Suc k then bit (rx_x3 s' XOR rx_shift s') j = (D @ [b]) ! j else bit (rx_x3 s') j" if "j < 8" for j
  proof -
    have "if j \<le> k then bit (rx_x3 s XOR rx_shift s) j = D ! j else bit (rx_x3 s) j"
      using inv that by (simp add: rx_inv_def)
    then show ?thesis using s'(1,2) len that
      by (auto simp: placed_def nth_append bit_simps le_Suc_eq)
  qed
  ultimately show ?thesis using n' s'(5) len by (auto simp: rx_inv_def nth_append)
qed

text \<open>The two forms of a step: sample into \<open>x2\<close> or \<open>x1\<close>, compare, mask.\<close>

lemma rx_inv_x1:
  assumes inv: "rx_inv line k n (False, s) D (b # ds)" and "k < 7" "even k"
    and s': "s' = (eor_x1 (Suc k) (s\<lparr>rx_x2 := x, rx_samples := Suc (rx_samples s)\<rparr>))"
      "bit x USBMINUS = bit (line (rx_samples s)) USBMINUS"
    and w: "placed k (\<not> b) (rx_shift s) (bld (Suc k) (\<not> b) (rx_shift s) AND m)"
      "z \<longleftrightarrow> run_at (Suc k) (rx_shift s' AND m) = 6"
  shows "rx_inv line (Suc k) (if b then Suc n else 0) (z, s'\<lparr>rx_shift := rx_shift s' AND m\<rparr>) (D @ [b]) ds"
proof -
  have "newest k s = bit (rx_x1 s) USBMINUS" using \<open>even k\<close> by (simp add: newest_def)
  then have "bit (rx_x1 s XOR x) USBMINUS = (\<not> b)"
    using rx_inv_change[OF inv] s'(2) by (auto simp: bit_xor_iff)
  then show ?thesis using assms
    by (intro rx_inv_next[OF inv]) (simp_all add: eor_x1_def newest_def Let_def)
qed

lemma rx_inv_x2:
  assumes inv: "rx_inv line k n (False, s) D (b # ds)" and "k < 7" "odd k"
    and s': "s' = (eor_x2 (Suc k) (s\<lparr>rx_x1 := x, rx_samples := Suc (rx_samples s)\<rparr>))"
      "bit x USBMINUS = bit (line (rx_samples s)) USBMINUS"
    and w: "placed k (\<not> b) (rx_shift s) (bld (Suc k) (\<not> b) (rx_shift s) AND m)"
      "z \<longleftrightarrow> run_at (Suc k) (rx_shift s' AND m) = 6"
  shows "rx_inv line (Suc k) (if b then Suc n else 0) (z, s'\<lparr>rx_shift := rx_shift s' AND m\<rparr>) (D @ [b]) ds"
proof -
  have "newest k s = bit (rx_x2 s) USBMINUS" using \<open>odd k\<close> by (simp add: newest_def)
  then have "bit (rx_x2 s XOR x) USBMINUS = (\<not> b)"
    using rx_inv_change[OF inv] s'(2) by (auto simp: bit_xor_iff)
  then show ?thesis using assms
    by (intro rx_inv_next[OF inv]) (simp_all add: eor_x2_def newest_def Let_def)
qed

lemma rx_inv_pending:
  assumes "rx_inv line k n (z, s) D ds" "\<not> z \<Longrightarrow> u = s"
    and "z \<Longrightarrow> rx_shift u = rx_shift s OR m \<and> rx_x3 u = rx_x3 s AND NOT m \<and>
      rx_samples u = Suc (rx_samples s) \<and> newest k u = bit (line (rx_samples s)) USBMINUS"
    and "k < 8" "\<forall>j<8. bit m j = (j = k)"
  shows "rx_inv line k (n mod 6) (False, u) D ds"
proof (cases z)
  case True
  then have "n = 6" using assms(1) by (simp add: rx_inv_def)
  then show ?thesis using assms True by (auto intro: rx_inv_unstuff)
next
  case False
  then have "n < 6" using assms(1) run_at_le[of k "rx_shift s"] by (simp add: rx_inv_def)
  then show ?thesis using assms False by simp
qed

text \<open>The run after the next bit, a stuffed bit before it included.\<close>

definition next_run :: "nat \<Rightarrow> bool \<Rightarrow> nat" where
  "next_run n b = (if b then Suc (n mod 6) else 0)"

lemmas rx_defs = in_x1_def in_x2_def unstuff_def andi_shift_def Let_def newest_def

lemma rx_bit3_inv:
  assumes inv: "rx_inv line 2 n (z, s) D (b # ds)"
  shows "rx_inv line 3 (next_run n b) (rx_bit3 line (z, s)) (D @ [b]) ds"
proof -
  define u where "u = (if z then (unstuff 0x04 (in_x2 line s))\<lparr>rx_x1 := line (rx_samples s)\<rparr> else s)"
  have u: "rx_inv line 2 (n mod 6) (False, u) D (b # ds)"
    by (rule rx_inv_pending[OF inv, where m = "0x04"]) (simp_all add: u_def rx_defs all_less_8)
  have "rx_bit3 line (z, s) = andi_shift 0xcf (eor_x1 3 (in_x2 line u))"
    by (simp add: rx_bit3_def u_def rx_defs)
  then show ?thesis
    using rx_inv_x1[OF u _ _ refl, where x = "line (rx_samples u)" and m = "0xcf"] placed_masks(3)[of "\<not> b"]
    by (simp add: rx_defs tests_mask next_run_def)
qed

lemma rx_bit4_inv:
  assumes inv: "rx_inv line 3 n (z, s) D (b # ds)"
  shows "rx_inv line 4 (next_run n b) (rx_bit4 line (z, s)) (D @ [b]) ds"
proof -
  define u where "u = (if z then unstuff 0x08 (in_x2 line s) else s)"
  have u: "rx_inv line 3 (n mod 6) (False, u) D (b # ds)"
    by (rule rx_inv_pending[OF inv, where m = "0x08"]) (simp_all add: u_def rx_defs all_less_8)
  have "rx_bit4 line (z, s) = andi_shift 0x9f (eor_x2 4 (in_x1 line u))"
    by (simp add: rx_bit4_def u_def Let_def)
  then show ?thesis
    using rx_inv_x2[OF u _ _ refl, where x = "line (rx_samples u)" and m = "0x9f"] placed_masks(4)[of "\<not> b"]
    by (simp add: rx_defs tests_mask next_run_def)
qed

lemma rx_inv_mask4:
  assumes "rx_inv line 4 n (z, s) D ds"
  shows "rx_inv line 4 n (z, s\<lparr>rx_shift := rx_shift s AND 0x9f\<rparr>) D ds"
proof -
  have "run_at 4 (rx_shift s AND 0x9f) = run_at 4 (rx_shift s)"
    by (simp add: run_at_def recent_def six_list bit_and_iff)
  moreover have "newest 4 (s\<lparr>rx_shift := rx_shift s AND 0x9f\<rparr>) = newest 4 s"
    by (simp add: newest_def)
  ultimately show ?thesis
    using assms by (cases z) (auto simp: rx_inv_def all_less_8 bit_and_iff bit_xor_iff)
qed

lemma rx_bit5_inv:
  assumes inv: "rx_inv line 4 n (z, s) D (b # ds)"
  shows "rx_inv line 5 (next_run n b) (rx_bit5 line (z, s)) (D @ [b]) ds" "\<not> bit (rx_shift (snd (rx_bit5 line (z, s)))) 7"
proof -
  define v where "v = (if z then unstuff 0x10 (in_x1 line s) else s)"
  define u where "u = (if z then v\<lparr>rx_shift := rx_shift v AND 0x9f\<rparr> else v)"
  have "rx_inv line 4 (n mod 6) (False, v) D (b # ds)"
    by (rule rx_inv_pending[OF inv, where m = "0x10"]) (simp_all add: v_def rx_defs all_less_8)
  then have u: "rx_inv line 4 (n mod 6) (False, u) D (b # ds)"
    using rx_inv_mask4 by (simp add: u_def)
  have eq: "rx_bit5 line (z, s) = andi_shift 0x3f (eor_x1 5 (in_x2 line u))"
    by (simp add: rx_bit5_def u_def v_def Let_def andi_shift_def)
  then show "rx_inv line 5 (next_run n b) (rx_bit5 line (z, s)) (D @ [b]) ds"
    using rx_inv_x1[OF u _ _ refl, where x = "line (rx_samples u)" and m = "0x3f"] placed_masks(5)[of "\<not> b"]
    by (simp add: rx_defs tests_mask next_run_def)
  show "\<not> bit (rx_shift (snd (rx_bit5 line (z, s)))) 7"
    by (simp add: eq andi_shift_def bit_and_iff)
qed

lemma rx_bit6_inv:
  assumes inv: "rx_inv line 5 n (z, s) D (b # ds)" and clear: "\<not> bit (rx_shift s) 7"
  shows "rx_inv line 6 (next_run n b) (rx_bit6 line (z, s)) (D @ [b]) ds"
proof -
  define u where "u = (if z then (unstuff 0x20 (in_x1 line s))\<lparr>rx_x2 := line (rx_samples s)\<rparr> else s)"
  have u: "rx_inv line 5 (n mod 6) (False, u) D (b # ds)"
    by (rule rx_inv_pending[OF inv, where m = "0x20"]) (simp_all add: u_def rx_defs all_less_8)
  define v where "v = eor_x2 6 (in_x1 line u)"
  have "bit (rx_x2 u XOR line (rx_samples u)) USBMINUS = (\<not> b)"
    using rx_inv_change[OF u] by (auto simp: newest_def bit_xor_iff)
  then have shift: "rx_shift v = bld 6 (\<not> b) (rx_shift u)"
    by (simp add: v_def eor_x2_def in_x1_def Let_def)
  have six: "rx_shift v < 0x02 \<longleftrightarrow> run_at 6 (rx_shift v) = 6" if "\<not> z"
    using clear that by (intro test_6) (simp add: shift u_def bit_bld)
  have "run_at 5 (rx_shift u) = 0" if z
    using that by (simp add: u_def rx_defs run_at_def recent_def six_list bit_or_iff)
  moreover have "recent 6 (rx_shift v) = (\<not> b) # butlast (recent 5 (rx_shift u))"
    using placed_masks(6)[of "\<not> b" "rx_shift u"] by (simp add: placed_def shift)
  ultimately have no: "run_at 6 (rx_shift v) \<noteq> 6" if z
    using run_at_push[of 6 "rx_shift v" "\<not> b" 5 "rx_shift u"] that by simp
  have "rx_bit6 line (z, s) = (if z then False else rx_shift v < 0x02, v)"
    by (simp add: rx_bit6_def u_def v_def rx_defs)
  moreover have "(if z then False else rx_shift v < 0x02) \<longleftrightarrow> run_at 6 (rx_shift v) = 6"
    using six no by simp
  ultimately show ?thesis
    using rx_inv_x2[OF u _ _ refl, where x = "line (rx_samples u)" and m = "-1"] placed_masks(6)[of "\<not> b"]
    by (simp add: v_def rx_defs next_run_def)
qed

lemma rx_bit7_inv:
  assumes inv: "rx_inv line 6 n (z, s) D (b # ds)"
  shows "rx_inv line 7 (next_run n b) (rx_bit7 line (z, s)) (D @ [b]) ds"
proof -
  define u where "u = (if z then in_x1 line (unstuff 0x40 s) else s)"
  have u: "rx_inv line 6 (n mod 6) (False, u) D (b # ds)"
    by (rule rx_inv_pending[OF inv, where m = "0x40"]) (simp_all add: u_def rx_defs all_less_8)
  have "rx_bit7 line (z, s) = (let s = eor_x1 7 (in_x2 line u) in (rx_shift s < 0x04, s))"
    by (simp add: rx_bit7_def u_def Let_def)
  then show ?thesis
    using rx_inv_x1[OF u _ _ refl, where x = "line (rx_samples u)" and m = "-1"] placed_masks(7)[of "\<not> b"]
    by (simp add: rx_defs test_7 next_run_def)
qed

text \<open>Bit 1, where a level other than SE0 passes the check, and bit 2, where the count must last.\<close>

lemma drives_masked:
  assumes "drives p l"
  shows "p AND USBMASK \<noteq> 0" "bit (p AND USBMASK) USBMINUS = bit p USBMINUS"
proof -
  have "bit (p AND USBMASK) 3 = bit p 3" "bit (p AND USBMASK) 4 = bit p 4"
    by (simp_all add: USBMASK_def bit_and_iff)
  moreover have "bit p 3 \<or> bit p 4" using assms by (auto simp: drives_def USBMINUS_def USBPLUS_def)
  ultimately show "p AND USBMASK \<noteq> 0" "bit (p AND USBMASK) USBMINUS = bit p USBMINUS"
    by (auto simp: USBMINUS_def)
qed

lemma rx_inv_drives:
  assumes "rx_inv line k n (z, s) D ds" "z \<or> ds \<noteq> []"
  shows "\<exists>l. drives (line (rx_samples s)) l"
  using assms by (cases ds) (auto simp: rx_inv_def split: if_splits)

lemma rx_bit1_inv:
  assumes inv: "rx_inv line 0 n (z, s) D (b # ds)"
  shows "\<exists>zs. rx_bit1 line (z, s) = Inr zs \<and> rx_inv line 1 (next_run n b) zs (D @ [b]) ds"
proof -
  let ?p = "line (rx_samples s)"
  obtain l where l: "drives ?p l" using rx_inv_drives[OF inv] by auto
  define u where "u = (if z then (unstuff 0x01 (in_x2 line s))\<lparr>rx_x1 := ?p AND USBMASK\<rparr> else s)"
  define x where "x = (if z then line (rx_samples u) else ?p AND USBMASK)"
  have u: "rx_inv line 0 (n mod 6) (False, u) D (b # ds)"
    by (rule rx_inv_pending[OF inv, where m = "0x01"])
       (simp_all add: u_def rx_defs all_less_8 drives_masked(2)[OF l])
  have x: "bit x USBMINUS = bit (line (rx_samples u)) USBMINUS"
    by (simp add: x_def u_def drives_masked(2)[OF l])
  have "rx_bit1 line (z, s) =
      Inr (andi_shift 0xf3 (eor_x1 1 (u\<lparr>rx_x2 := x, rx_samples := Suc (rx_samples u)\<rparr>)))"
    using drives_masked(1)[OF l] by (cases s; cases z) (simp_all add: rx_bit1_def u_def x_def rx_defs)
  then show ?thesis
    using rx_inv_x1[OF u _ _ refl x, where m = "0xf3"] placed_masks(1)[of "\<not> b"]
    by (simp add: rx_defs tests_mask next_run_def)
qed

lemma rx_inv_cnt: "rx_inv line k n (z, s\<lparr>rx_cnt := c\<rparr>) D ds = rx_inv line k n (z, s) D ds"
proof -
  have "newest k (s\<lparr>rx_cnt := c\<rparr>) = newest k s" by (simp add: newest_def)
  then show ?thesis by (simp add: rx_inv_def split del: if_split cong: if_cong)
qed

lemma rx_bit2_inv:
  assumes inv: "rx_inv line 1 n (z, s) D (b # ds)" and "rx_cnt s \<noteq> 0"
  shows "\<exists>zs. rx_bit2 line (z, s) = Inr zs \<and> rx_inv line 2 (next_run n b) zs (D @ [b]) ds"
proof -
  define u where "u = (if z then (unstuff 0x02 (in_x1 line s))\<lparr>rx_x2 := line (rx_samples s)\<rparr> else s)"
  define v where "v = u\<lparr>rx_cnt := rx_cnt s - 1\<rparr>"
  have "rx_inv line 1 (n mod 6) (False, u) D (b # ds)"
    by (rule rx_inv_pending[OF inv, where m = "0x02"]) (simp_all add: u_def rx_defs all_less_8)
  then have v: "rx_inv line 1 (n mod 6) (False, v) D (b # ds)" by (simp add: v_def rx_inv_cnt)
  have "rx_bit2 line (z, s) = Inr (andi_shift 0xe7 (eor_x2 2 (in_x1 line v)))"
    using assms(2) by (cases s; cases z) (simp_all add: rx_bit2_def v_def u_def rx_defs subi_def)
  then show ?thesis
    using rx_inv_x2[OF v _ _ refl, where x = "line (rx_samples v)" and m = "0xe7"] placed_masks(2)[of "\<not> b"]
    by (simp add: rx_defs tests_mask next_run_def numeral_2_eq_2)
qed

text \<open>The end of a byte: it is stored, and the first bit of the next one sampled.\<close>

lemma rx_bit0_inv:
  assumes inv: "rx_inv line 7 n (z, s) (map (bit c) [0..<8]) ds"
  shows "rx_stored (snd (rx_bit0 line (z, s))) = rx_stored s @ [c]"
    and "ds = b # ds' \<Longrightarrow> rx_inv line 0 (next_run n b) (rx_bit0 line (z, s)) [b] ds'"
    and "ds = [] \<Longrightarrow> drives_SE0 (line (rx_samples (snd (rx_bit0 line (z, s)))))"
proof -
  define u where "u = (if z then in_x2 line (unstuff 0x80 s) else s)"
  have u: "rx_inv line 7 (n mod 6) (False, u) (map (bit c) [0..<8]) ds"
    by (rule rx_inv_pending[OF inv, where m = "0x80"]) (simp_all add: u_def rx_defs all_less_8)
  then have "\<forall>j<8. bit (rx_x3 u XOR rx_shift u) j = bit c j" by (simp add: rx_inv_def)
  then have c: "rx_x3 u XOR rx_shift u = c" by (simp only: u8_eq_iff)
  define t where "t = u\<lparr>rx_x3 := 0xff, rx_stored := rx_stored u @ [c]\<rparr>"
  have "rx_bit0 line (z, s) = rx_bit0 line (False, u)"
    by (simp add: rx_bit0_def u_def Let_def)
  also have "\<dots> = andi_shift 0xf9 (eor_x2 0 (in_x1 line t))"
    by (cases u) (simp add: rx_bit0_def t_def c[symmetric] in_x1_def eor_x2_def Let_def andi_shift_def)
  finally have eq: "rx_bit0 line (z, s) = andi_shift 0xf9 (eor_x2 0 (in_x1 line t))" .
  show "rx_stored (snd (rx_bit0 line (z, s))) = rx_stored s @ [c]"
    by (simp add: eq t_def u_def)
  have samples: "rx_samples (snd (rx_bit0 line (z, s))) = Suc (rx_samples u)"
    by (simp add: eq t_def andi_shift_def eor_x2_def in_x1_def Let_def)
  show "drives_SE0 (line (rx_samples (snd (rx_bit0 line (z, s)))))" if "ds = []"
    using u that by (simp add: samples rx_inv_def)
  show "rx_inv line 0 (next_run n b) (rx_bit0 line (z, s)) [b] ds'" if "ds = b # ds'"
  proof -
    let ?n = "n mod 6"
    obtain z' s' where zs: "rx_bit0 line (z, s) = (z', s')" by fastforce
    have line: "carries line (rx_samples u) (newest 7 u) (stuff ?n (b # ds'))" and n: "run_at 7 (rx_shift u) = ?n" "run_at 7 (rx_shift u) \<noteq> 6"
      using u that by (simp_all add: rx_inv_def)
    have "bit (rx_x2 u XOR line (rx_samples u)) USBMINUS = (\<not> b)"
      using rx_inv_change[OF u[unfolded that]] by (auto simp: newest_def bit_xor_iff)
    then have shift: "rx_shift s' = bld 0 (\<not> b) (rx_shift u) AND 0xf9"
      and s': "newest 0 s' = bit (line (rx_samples u)) USBMINUS" "rx_x3 s' = 0xff" "rx_samples s' = Suc (rx_samples u)"
      and z': "z' \<longleftrightarrow> run_at 0 (rx_shift s') = 6"
      using eq zs by (auto simp: t_def andi_shift_def eor_x2_def in_x1_def Let_def newest_def tests_mask)
    have run: "run_at 0 (rx_shift s') = next_run n b"
      using run_at_push[OF placed_first n(2), of "\<not> b"] n(1) by (simp add: shift next_run_def)
    have "carries line (rx_samples s') (newest 0 s')
        (if z' then False # stuff 0 ds' else stuff (next_run n b) ds')"
      using line n run s' z' unfolding next_run_def by (auto simp: drives_def split: if_splits)
    moreover have "\<forall>j<8. if j \<le> 0 then bit (rx_x3 s' XOR rx_shift s') j = [b] ! j else bit (rx_x3 s') j"
      using s' by (simp add: all_less_8 shift bit_xor_iff bit_and_iff bit_bld)
    moreover have "next_run n b = 6 \<Longrightarrow> b" by (simp add: next_run_def split: if_splits)
    ultimately show ?thesis using z' run by (auto simp: zs rx_inv_def)
  qed
qed

text \<open>A whole byte, and the two ways out of the loop.\<close>

lemma byte_bits: "map (bit c) [0..<8] = [bit c 0, bit c 1, bit c 2, bit c 3, bit c 4, bit c 5, bit c 6, bit c 7]"
  by (simp add: upt_rec eval_nat_numeral)

text \<open>The same for some run.\<close>

definition rx_at :: "(nat \<Rightarrow> u8) \<Rightarrow> nat \<Rightarrow> bool \<times> receiver \<Rightarrow> bool list \<Rightarrow> bool list \<Rightarrow> bool" where
  "rx_at line k zs D ds \<longleftrightarrow> (\<exists>n. rx_inv line k n zs D ds)"

lemma rx_bit1_at: "rx_at line 0 (z, s) D (b # ds) \<Longrightarrow> \<exists>zs. rx_bit1 line (z, s) = Inr zs \<and> rx_at line 1 zs (D @ [b]) ds"
  using rx_bit1_inv unfolding rx_at_def by blast

lemma rx_bit2_at:
  "rx_at line 1 (z, s) D (b # ds) \<Longrightarrow> rx_cnt s \<noteq> 0 \<Longrightarrow>
     \<exists>zs. rx_bit2 line (z, s) = Inr zs \<and> rx_at line 2 zs (D @ [b]) ds"
  using rx_bit2_inv unfolding rx_at_def by blast

lemma rx_bit3_at: "rx_at line 2 (z, s) D (b # ds) \<Longrightarrow> rx_at line 3 (rx_bit3 line (z, s)) (D @ [b]) ds"
  using rx_bit3_inv unfolding rx_at_def by blast

lemma rx_bit4_at: "rx_at line 3 (z, s) D (b # ds) \<Longrightarrow> rx_at line 4 (rx_bit4 line (z, s)) (D @ [b]) ds"
  using rx_bit4_inv unfolding rx_at_def by blast

lemma rx_bit5_at:
  assumes "rx_at line 4 (z, s) D (b # ds)"
  shows "rx_at line 5 (rx_bit5 line (z, s)) (D @ [b]) ds" "\<not> bit (rx_shift (snd (rx_bit5 line (z, s)))) 7"
  using rx_bit5_inv assms unfolding rx_at_def by blast+

lemma rx_bit6_at:
  "rx_at line 5 (z, s) D (b # ds) \<Longrightarrow> \<not> bit (rx_shift s) 7 \<Longrightarrow> rx_at line 6 (rx_bit6 line (z, s)) (D @ [b]) ds"
  using rx_bit6_inv unfolding rx_at_def by blast

lemma rx_bit7_at: "rx_at line 6 (z, s) D (b # ds) \<Longrightarrow> rx_at line 7 (rx_bit7 line (z, s)) (D @ [b]) ds"
  using rx_bit7_inv unfolding rx_at_def by blast

lemma rx_bit0_at:
  assumes "rx_at line 7 (z, s) (map (bit c) [0..<8]) ds"
  shows "rx_stored (snd (rx_bit0 line (z, s))) = rx_stored s @ [c]"
    and "ds = b # ds' \<Longrightarrow> rx_at line 0 (rx_bit0 line (z, s)) [b] ds'"
    and "ds = [] \<Longrightarrow> drives_SE0 (line (rx_samples (snd (rx_bit0 line (z, s)))))"
  using rx_bit0_inv assms unfolding rx_at_def by blast+

lemma byte_split: "map (bit c) [0..<8] = bit c 0 # map (bit c) [1..<8]"
  by (simp add: upt_conv_Cons)

lemma rx_bits_inv:
  assumes inv: "rx_at line 0 (z, s) [bit c 0] (map (bit c) [1..<8] @ ds)" and "rx_cnt s \<noteq> 0"
  shows "\<exists>zs. rx_bits line (z, s) = Inr zs \<and> rx_at line 7 zs (map (bit c) [0..<8]) ds \<and>
    rx_stored (snd zs) = rx_stored s \<and> rx_cnt (snd zs) = rx_cnt s - 1"
proof -
  have "rx_at line 0 (z, s) [bit c 0]
      (bit c 1 # [bit c 2, bit c 3, bit c 4, bit c 5, bit c 6, bit c 7] @ ds)"
    using inv byte_split[of c] unfolding byte_bits by (metis append.simps(2) list.inject)
  from rx_bit1_at[OF this] obtain z1 s1 where 1: "rx_bit1 line (z, s) = Inr (z1, s1)"
      "rx_at line 1 (z1, s1) [bit c 0, bit c 1] (bit c 2 # [bit c 3, bit c 4, bit c 5, bit c 6, bit c 7] @ ds)"
    by (metis append.simps prod.exhaust)
  have s1: "rx_cnt s1 = rx_cnt s" "rx_stored s1 = rx_stored s"
    using rx_cnt_bit1[OF 1(1)] rx_stored_bit1[OF 1(1)] by simp_all
  obtain z2 s2 where 2: "rx_bit2 line (z1, s1) = Inr (z2, s2)"
      "rx_at line 2 (z2, s2) [bit c 0, bit c 1, bit c 2] ([bit c 3, bit c 4, bit c 5, bit c 6, bit c 7] @ ds)"
    using rx_bit2_at[OF 1(2)] s1(1) assms(2) by (metis append.simps prod.exhaust)
  have s2: "rx_cnt s2 = rx_cnt s - 1" "rx_stored s2 = rx_stored s"
    using rx_cnt_bit2[OF 2(1)] rx_stored_bit2[OF 2(1)] s1 by simp_all
  obtain z3 s3 where 3: "rx_bit3 line (z2, s2) = (z3, s3)" by fastforce
  obtain z4 s4 where 4: "rx_bit4 line (z3, s3) = (z4, s4)" by fastforce
  obtain z5 s5 where 5: "rx_bit5 line (z4, s4) = (z5, s5)" by fastforce
  obtain z6 s6 where 6: "rx_bit6 line (z5, s5) = (z6, s6)" by fastforce
  have "rx_at line 3 (z3, s3) (map (bit c) [0, 1, 2, 3]) ([bit c 4, bit c 5, bit c 6, bit c 7] @ ds)"
    using rx_bit3_at[OF 2(2)[unfolded append.simps]] by (simp add: 3)
  then have i4: "rx_at line 4 (z4, s4) (map (bit c) [0, 1, 2, 3, 4]) ([bit c 5, bit c 6, bit c 7] @ ds)"
    using rx_bit4_at[of line z3 s3 "map (bit c) [0, 1, 2, 3]" "bit c 4"] by (simp add: 4)
  then have "rx_at line 5 (z5, s5) (map (bit c) [0, 1, 2, 3, 4, 5]) ([bit c 6, bit c 7] @ ds)"
    using rx_bit5_at(1)[of line z4 s4 "map (bit c) [0, 1, 2, 3, 4]" "bit c 5"] by (simp add: 5)
  moreover have "\<not> bit (rx_shift s5) 7"
    using rx_bit5_at(2)[of line z4 s4 "map (bit c) [0, 1, 2, 3, 4]" "bit c 5"] i4 by (simp add: 5)
  ultimately have "rx_at line 6 (z6, s6) (map (bit c) [0, 1, 2, 3, 4, 5, 6]) ([bit c 7] @ ds)"
    using rx_bit6_at[of line z5 s5 "map (bit c) [0, 1, 2, 3, 4, 5]" "bit c 6"] by (simp add: 6)
  then have "rx_at line 7 (rx_bit7 line (z6, s6)) (map (bit c) [0..<8]) ds"
    using rx_bit7_at[of line z6 s6 "map (bit c) [0, 1, 2, 3, 4, 5, 6]" "bit c 7"] by (simp add: byte_bits)
  moreover have "rx_bits line (z, s) = Inr (rx_bit7 line (z6, s6))"
    by (simp add: rx_bits_def 1(1) 2(1) 3 4 5 6)
  moreover have "rx_stored (snd (rx_bit7 line (z6, s6))) = rx_stored s"
    using 3 4 5 6 s2(2) rx_stored_bits by (metis snd_conv)
  moreover have "rx_cnt (snd (rx_bit7 line (z6, s6))) = rx_cnt s - 1"
    using 3 4 5 6 s2(1) rx_cnt_bits by (metis snd_conv)
  ultimately show ?thesis by blast
qed

lemma rx_bits_overflow:
  assumes "rx_at line 0 (z, s) D (b # ds)" "rx_cnt s = 0"
  shows "\<exists>s'. rx_bits line (z, s) = Inl (Overflow s') \<and> rx_stored s' = rx_stored s"
proof -
  obtain zs where 1: "rx_bit1 line (z, s) = Inr zs" using rx_bit1_at[OF assms(1)] by blast
  have "rx_cnt (snd zs) = 0" "rx_stored (snd zs) = rx_stored s"
    using rx_cnt_bit1[OF 1] rx_stored_bit1[OF 1] assms(2) by simp_all
  then show ?thesis
    by (auto simp: rx_bits_def 1 rx_bit2_def subi_def Let_def split_beta)
qed

lemma rx_bits_end:
  assumes "drives_SE0 (line (rx_samples (snd zs)))"
  shows "\<exists>s'. rx_bits line zs = Inl (SE0 s') \<and> rx_stored s' = rx_stored (snd zs) \<and> rx_cnt s' = rx_cnt (snd zs)"
  using assms by (cases zs) (simp add: rx_bits_def rx_bit1_def drives_SE0_def in_x2_def Let_def)

text \<open>
  The interface of a loop over bytes: \<open>at k\<close> holds after bit \<open>k\<close>, \<open>bits\<close> takes it from bit 0 to bit 7 or
  leaves the loop, \<open>bit0\<close> stores the byte and takes the first bit of the next one.
\<close>

locale byte_loop =
  fixes bits :: "bool \<times> 's \<Rightarrow> 'e + bool \<times> 's"
    and bit0 :: "bool \<times> 's \<Rightarrow> bool \<times> 's"
    and loop :: "bool \<times> 's \<Rightarrow> 'e"
    and at :: "nat \<Rightarrow> bool \<times> 's \<Rightarrow> bool list \<Rightarrow> bool list \<Rightarrow> bool"
    and regs :: "'s \<Rightarrow> receiver"
    and full :: "u8 list \<Rightarrow> 'e \<Rightarrow> bool"
    and ended :: "u8 list \<Rightarrow> 'e \<Rightarrow> bool"
  assumes loop: "loop zs = (case bits zs of Inl e \<Rightarrow> e | Inr zs \<Rightarrow> loop (bit0 zs))"
    and overflow: "at 0 zs D ds \<Longrightarrow> ds \<noteq> [] \<Longrightarrow> rx_cnt (regs (snd zs)) = 0 \<Longrightarrow>
      \<exists>e. bits zs = Inl e \<and> full (rx_stored (regs (snd zs))) e"
    and byte: "at 0 zs [bit c 0] (map (bit (c :: u8)) [1..<8] @ ds) \<Longrightarrow> rx_cnt (regs (snd zs)) \<noteq> 0 \<Longrightarrow>
      \<exists>zs'. bits zs = Inr zs' \<and> at 7 zs' (map (bit c) [0..<8]) ds \<and>
        rx_stored (regs (snd zs')) = rx_stored (regs (snd zs)) \<and> rx_cnt (regs (snd zs')) = rx_cnt (regs (snd zs)) - 1"
    and count: "rx_cnt (regs (snd (bit0 zs))) = rx_cnt (regs (snd zs))"
    and stored: "at 7 zs (map (bit c) [0..<8]) ds \<Longrightarrow>
      rx_stored (regs (snd (bit0 zs))) = rx_stored (regs (snd zs)) @ [c]"
    and first: "at 7 zs (map (bit c) [0..<8]) (b # ds) \<Longrightarrow> at 0 (bit0 zs) [b] ds"
    and ending: "at 7 zs (map (bit c) [0..<8]) [] \<Longrightarrow>
      \<exists>e. bits (bit0 zs) = Inl e \<and> ended (rx_stored (regs (snd (bit0 zs)))) e"
begin

text \<open>What the loop leaves for bytes on the line: all of them, or as many as there is room for.\<close>

lemma loop_overflow:
  assumes "at 0 zs [bit c 0] (map (bit (c :: u8)) [1..<8] @ ds)" "rx_cnt (regs (snd zs)) = 0"
  shows "full (rx_stored (regs (snd zs))) (loop zs)"
  using overflow[OF assms(1) _ assms(2)] by (auto simp: loop[of zs])

lemma loop_receives:
  assumes "at 0 zs [bit c 0] (map (bit c) [1..<8] @ bits_of_bytes bytes)"
  shows "if length (c # bytes) \<le> unat (rx_cnt (regs (snd zs)))
    then ended (rx_stored (regs (snd zs)) @ c # bytes) (loop zs)
    else full (rx_stored (regs (snd zs)) @ take (unat (rx_cnt (regs (snd zs)))) (c # bytes)) (loop zs)"
  using assms
proof (induction bytes arbitrary: c zs)
  case (Nil c zs)
  show ?case
  proof (cases "rx_cnt (regs (snd zs)) = 0")
    case False
    then obtain zs' where 7: "bits zs = Inr zs'" "at 7 zs' (map (bit c) [0..<8]) []"
        "rx_stored (regs (snd zs')) = rx_stored (regs (snd zs))"
      using byte[of zs c "[]"] Nil by auto
    moreover have "1 \<le> unat (rx_cnt (regs (snd zs)))" using False by (simp add: unat_gt_0 Suc_le_eq)
    ultimately show ?thesis
      using ending[OF 7(2)] stored[OF 7(2)] by (auto simp: loop[of zs] loop[of "bit0 zs'"])
  qed (use loop_overflow[OF Nil] in simp)
next
  case (Cons d bytes c zs)
  show ?case
  proof (cases "rx_cnt (regs (snd zs)) = 0")
    case False
    have d: "bits_of_bytes (d # bytes) = bit d 0 # map (bit d) [1..<8] @ bits_of_bytes bytes"
      by (simp add: bits_of_bytes_Cons byte_split)
    obtain zs' where 7: "bits zs = Inr zs'" "at 7 zs' (map (bit c) [0..<8]) (bits_of_bytes (d # bytes))"
        "rx_stored (regs (snd zs')) = rx_stored (regs (snd zs))" "rx_cnt (regs (snd zs')) = rx_cnt (regs (snd zs)) - 1"
      using byte[OF Cons.prems False] by blast
    note IH = Cons.IH[OF first[OF 7(2)[unfolded d]]]
    obtain n where n: "unat (rx_cnt (regs (snd zs))) = Suc n"
      using False by (metis not0_implies_Suc unat_eq_zero)
    then have "unat (rx_cnt (regs (snd (bit0 zs')))) = n" using False by (simp add: count 7(4) unat_minus_one)
    moreover have "loop zs = loop (bit0 zs')" by (simp add: loop[of zs] 7(1))
    ultimately show ?thesis using IH n by (simp add: stored[OF 7(2)] 7(3) split: if_splits)
  qed (use loop_overflow[OF Cons.prems] in simp)
qed

end

definition rx_full :: "u8 list \<Rightarrow> rx_end \<Rightarrow> bool" where
  "rx_full bytes e \<longleftrightarrow> (\<exists>s. e = Overflow s \<and> rx_stored s = bytes)"

definition rx_ended :: "u8 list \<Rightarrow> rx_end \<Rightarrow> bool" where
  "rx_ended bytes e \<longleftrightarrow> (\<exists>s. e = SE0 s \<and> rx_stored s = bytes)"

interpretation rx_loop: byte_loop "rx_bits line" "rx_bit0 line" "rxLoop line" "rx_at line" "\<lambda>s. s" rx_full rx_ended for line
proof
  show "rxLoop line zs = (case rx_bits line zs of Inl e \<Rightarrow> e | Inr zs \<Rightarrow> rxLoop line (rx_bit0 line zs))" for zs
    by (rule rxLoop.simps)
  show "\<exists>e. rx_bits line zs = Inl e \<and> rx_full (rx_stored (snd zs)) e"
    if "rx_at line 0 zs D ds" "ds \<noteq> []" "rx_cnt (snd zs) = 0" for zs D ds
    using rx_bits_overflow[of line "fst zs" "snd zs" D "hd ds" "tl ds"] that by (auto simp: rx_full_def)
  show "\<exists>zs'. rx_bits line zs = Inr zs' \<and> rx_at line 7 zs' (map (bit c) [0..<8]) ds \<and>
      rx_stored (snd zs') = rx_stored (snd zs) \<and> rx_cnt (snd zs') = rx_cnt (snd zs) - 1"
    if "rx_at line 0 zs [bit c 0] (map (bit c) [1..<8] @ ds)" "rx_cnt (snd zs) \<noteq> 0" for zs ds and c :: u8
    using rx_bits_inv[of line "fst zs" "snd zs"] that by simp
  show "\<exists>e. rx_bits line (rx_bit0 line zs) = Inl e \<and> rx_ended (rx_stored (snd (rx_bit0 line zs))) e"
    if "rx_at line 7 zs (map (bit c) [0..<8]) []" for zs and c :: u8
    using rx_bits_end[of line "rx_bit0 line zs"] rx_bit0_at(3)[of line "fst zs" "snd zs" c "[]"] that
    by (auto simp: rx_ended_def)
  show "rx_stored (snd (rx_bit0 line zs)) = rx_stored (snd zs) @ [c]"
    if "rx_at line 7 zs (map (bit c) [0..<8]) ds" for zs ds and c :: u8
    using rx_bit0_at(1)[of line "fst zs" "snd zs"] that by simp
  show "rx_at line 0 (rx_bit0 line zs) [b] ds"
    if "rx_at line 7 zs (map (bit c) [0..<8]) (b # ds)" for zs b ds and c :: u8
    using rx_bit0_at(2)[of line "fst zs" "snd zs" c "b # ds"] that by simp
qed simp

section \<open>The receiver is right\<close>

text \<open>
  The signal of a packet of \<open>bytes\<close> from the end of its sync pattern on, whose last bit is a 1,
  and the format of the first byte: four bits and their complement.
\<close>

definition packet_on :: "(nat \<Rightarrow> u8) \<Rightarrow> u8 list \<Rightarrow> bool" where
  "packet_on line bytes \<longleftrightarrow> carries line 0 False (stuff 1 (bits_of_bytes bytes))"

definition valid_pid :: "u8 \<Rightarrow> bool" where
  "valid_pid pid \<longleftrightarrow> drop_bit 4 pid = NOT pid AND 0x0f"

lemma valid_pid_low: "valid_pid pid \<Longrightarrow> \<exists>i<5. \<not> bit pid i"
proof (rule ccontr)
  assume pid: "valid_pid pid" "\<not> (\<exists>i<5. \<not> bit pid i)"
  then have "bit pid 0" "bit pid 4" by auto
  moreover have "bit (drop_bit 4 pid) 0 = bit (NOT pid AND 0x0f) 0"
    using pid(1) by (simp only: valid_pid_def)
  ultimately show False by (simp add: bit_simps)
qed

lemma stuff_pid:
  assumes "valid_pid pid"
  shows "stuff 1 (bits_of_bytes (pid # bytes)) = stuff 0 (bits_of_bytes (pid # bytes))"
proof -
  obtain i where "i < 5" "\<not> bit pid i" using valid_pid_low[OF assms] by blast
  then have "stuff (Suc 0) (bits_of_bytes (pid # bytes)) = stuff 0 (bits_of_bytes (pid # bytes))"
    by (intro stuff_Suc exI[of _ i]) (simp add: bits_of_bytes_Cons nth_append)
  then show ?thesis by simp
qed

text \<open>The first bit, sampled as \<open>x\<close>.\<close>

definition rx_first :: "u8 \<Rightarrow> receiver" where
  "rx_first x =
     \<lparr>rx_shift = bld 0 (bit x USBMINUS) 0xff, rx_x1 = x, rx_x2 = 0, rx_x3 = 0xff,
      rx_cnt = of_nat USB_BUFSIZE, rx_stored = [], rx_samples = 1\<rparr>"

lemma rx_first_regs [simp]:
  "rx_stored (rx_first x) = []" "unat (rx_cnt (rx_first x)) = USB_BUFSIZE" "rx_samples (rx_first x) = 1"
  by (simp_all add: rx_first_def)

lemma rx_first_inv:
  assumes "packet_on line (pid # bytes)" "valid_pid pid" "bit x USBMINUS = bit (line 0) USBMINUS"
  shows "rx_inv line 0 (if bit pid 0 then 1 else 0) (False, rx_first x) [bit pid 0]
    (map (bit pid) [1..<8] @ bits_of_bytes bytes)"
proof -
  let ?ds = "map (bit pid) [1..<8] @ bits_of_bytes bytes"
  have ds: "bits_of_bytes (pid # bytes) = bit pid 0 # ?ds"
    by (simp add: bits_of_bytes_Cons byte_split)
  have line: "carries line 0 False (stuff 0 (bit pid 0 # ?ds))"
    using assms(1) ds stuff_pid[OF assms(2), of bytes] by (simp add: packet_on_def)
  then have b: "bit x USBMINUS = (\<not> bit pid 0)" using assms(3) by (auto simp: drives_def)
  have "run_at 0 (rx_shift (rx_first x)) = (if bit pid 0 then 1 else 0)"
    by (simp add: rx_first_def b run_at_def recent_def six_list bit_bld)
  moreover have "newest 0 (rx_first x) = (\<not> bit pid 0)" by (simp add: rx_first_def newest_def b)
  ultimately show ?thesis
    using line by (cases "bit pid 0") (simp_all add: rx_inv_def rx_first_def b all_less_8 bit_bld bit_xor_iff)
qed

lemma haveTwoBitsK_receives:
  assumes "packet_on line (pid # bytes)" "valid_pid pid"
  shows "if length (pid # bytes) \<le> USB_BUFSIZE
    then \<exists>s. haveTwoBitsK line = SE0 s \<and> rx_stored s = pid # bytes
    else \<exists>s. haveTwoBitsK line = Overflow s \<and> rx_stored s = take USB_BUFSIZE (pid # bytes)"
proof -
  have start: "haveTwoBitsK line = rxLoop line (False, rx_first (line 0))"
    by (simp add: haveTwoBitsK_def rx_first_def in_x1_def Let_def)
  have "rx_at line 0 (False, rx_first (line 0)) [bit pid 0] (map (bit pid) [1..<8] @ bits_of_bytes bytes)"
    using rx_first_inv[OF assms refl] unfolding rx_at_def by blast
  from rx_loop.loop_receives[OF this] show ?thesis by (simp add: start rx_full_def rx_ended_def split: if_splits)
qed

text \<open>
  The interrupt routine from the bits on: the bytes go to \<open>usbRxBuf\<close> as they come, and the packet is
  handled from \<open>se0\<close> on or ignored from \<open>overflow\<close> on.
\<close>

fun usb_rx_end :: "rx_end \<Rightarrow> usbdrv \<Rightarrow> usbdrv \<times> usb_answer" where
  "usb_rx_end (SE0 s) u = usb_rx_packet (rx_stored s) u"
| "usb_rx_end (Overflow s) u =
     (u\<lparr>usbRxBuf := rx_stored s @ drop (length (rx_stored s)) (usbRxBuf u), usbCurrentTok := 0\<rparr>, No_Answer)"

definition usb_rx_line :: "(nat \<Rightarrow> u8) \<Rightarrow> usbdrv \<Rightarrow> usbdrv \<times> usb_answer" where
  "usb_rx_line line u = usb_rx_end (haveTwoBitsK line) u"

lemma usb_rx_end_packet:
  assumes "if length pkt \<le> USB_BUFSIZE then \<exists>s. e = SE0 s \<and> rx_stored s = pkt
    else \<exists>s. e = Overflow s \<and> rx_stored s = take USB_BUFSIZE pkt"
  shows "usb_rx_end e u = usb_rx_packet pkt u"
  using assms by (auto simp: usb_rx_packet_def Let_def split: if_splits)

lemma usb_rx_line_packet:
  assumes "packet_on line (pid # bytes)" "valid_pid pid"
  shows "usb_rx_line line u = usb_rx_packet (pid # bytes) u"
  unfolding usb_rx_line_def by (rule usb_rx_end_packet[OF haveTwoBitsK_receives[OF assms]])

text \<open>
  One call of the routine on the signals that follow each other, as \<open>USB_INTR_VECTOR\<close> is for packets.
\<close>

fun usb_intr_line :: "(nat \<Rightarrow> u8) list \<Rightarrow> usbdrv \<Rightarrow> usbdrv \<times> usb_answer list" where
  "usb_intr_line [] u = (u, [])"
| "usb_intr_line (line # lines) u =
     (let (u, a) = usb_rx_line line u;
          (u, as) = usb_intr_line lines u
      in (u, a # as))"

text \<open>
  From signals that code packets with a well-formed first byte, the routine has the same effect and gives the
  same answers as the model of whole packets.
\<close>

lemma line_refines_packet:
  assumes "list_all2 (\<lambda>line pkt. packet_on line pkt \<and> pkt \<noteq> [] \<and> valid_pid (hd pkt)) lines pkts"
  shows "usb_intr_line lines u = USB_INTR_VECTOR pkts u"
  using assms
proof (induction lines pkts arbitrary: u rule: list_all2_induct)
  case (Cons line lines pkt pkts)
  then have "usb_rx_line line u = usb_rx_packet pkt u"
    using usb_rx_line_packet[of line "hd pkt" "tl pkt" u] by simp
  then show ?case by (simp add: Cons.IH split: prod.split)
qed simp

end
