(* ===== verification/Usb_Clock.thy ===== *)
theory Usb_Clock
  imports Usb_Receiver
begin

unbundle bit_operations_syntax

text \<open>
  The receive loop of \<open>firmware/src/usbdrv/usbdrvasm165.inc\<close> at the clock: when each bit is sampled.
  \<open>pin\<close> gives the value of \<open>USBIN\<close> at each CPU clock. A bit takes 11 clocks, and so do the steps
  of the loop, except from bit 5 to bit 6: 10 clocks, or 12 when \<open>phase\<close> says that the samples come too
  early. For that every step compares its sample with one taken 5 clocks before.
\<close>

section \<open>The loop with its clock\<close>

text \<open>
  The registers of the receiver, the two of the phase comparison, and the clock of the next
  sample.
\<close>

record pll =
  pl_rx :: receiver
  pl_r0 :: u8
  pl_phase :: u8
  pl_next :: nat

definition sampler :: "(nat \<Rightarrow> u8) \<Rightarrow> pll \<Rightarrow> nat \<Rightarrow> u8" where
  "sampler pin q i = pin (pl_next q + 11 * (i - rx_samples (pl_rx q)))"

text \<open>
  \<open>eor r0, x\<close>, \<open>or phase, r0\<close> with the sample \<open>x\<close> of clock \<open>c\<close>, and \<open>in r0, USBIN\<close> six clocks after it.
  Only the bit \<open>USBMINUS\<close> of \<open>phase\<close> is ever tested; the mask that bit 1 gets for the SE0 check
  before its comparison keeps that bit and is left out here.
\<close>

definition eor_phase :: "(nat \<Rightarrow> u8) \<Rightarrow> nat \<Rightarrow> u8 \<times> u8 \<Rightarrow> u8 \<times> u8" where
  "eor_phase pin c rp =
     (let (r0, phase) = rp;
          r0 = r0 XOR pin c;
          phase = phase OR r0
      in (pin (c + 6), phase))"

text \<open>
  A step that samples a bit, after the stuffed bit where \<open>z\<close> asks for one, and compares the phase for
  both: all but the ones for bits 6 and 7. (After bit 5, \<open>r0\<close> is not sampled; it is set again before it is
  read.)
\<close>

definition pll_after :: "(nat \<Rightarrow> u8) \<Rightarrow> bool \<Rightarrow> pll \<Rightarrow> receiver \<Rightarrow> pll" where
  "pll_after pin z q s =
     (let c = pl_next q;
          rp = eor_phase pin c (pl_r0 q, pl_phase q);
          (rp, c) = (if z then (eor_phase pin (c + 11) rp, c + 11) else (rp, c))
      in \<lparr>pl_rx = s, pl_r0 = fst rp, pl_phase = snd rp, pl_next = c + 11\<rparr>)"

definition pll_step ::
  "(nat \<Rightarrow> u8) \<Rightarrow> ((nat \<Rightarrow> u8) \<Rightarrow> bool \<times> receiver \<Rightarrow> 'e + bool \<times> receiver) \<Rightarrow>
   bool \<times> pll \<Rightarrow> 'e + bool \<times> pll" where
  "pll_step pin f zq =
     (let (z, q) = zq
      in case f (sampler pin q) (z, pl_rx q) of
           Inl e \<Rightarrow> Inl e
         | Inr (z', s) \<Rightarrow> Inr (z', pll_after pin z q s))"

text \<open>
  Bit 6 with \<open>unstuff5\<close>: \<open>sbrc phase\<close> and \<open>lpm\<close> decide when the next bit is sampled, and \<open>phase\<close> starts
  again with the comparison for that bit.
\<close>

definition pll_bit6 :: "(nat \<Rightarrow> u8) \<Rightarrow> bool \<times> pll \<Rightarrow> bool \<times> pll" where
  "pll_bit6 pin zq =
     (let (z, q) = zq;
          c = (if bit (pl_phase q) USBMINUS then pl_next q + 1 else pl_next q - 1);
          phase = pin (c - 5);
          (z', s) = rx_bit6 (sampler pin (q\<lparr>pl_next := c\<rparr>)) (z, pl_rx q);
          phase = phase XOR pin c;
          rp = (pin (c + 6), phase);
          (rp, c) = (if z then (eor_phase pin (c + 11) rp, c + 11) else (rp, c))
      in (z', \<lparr>pl_rx = s, pl_r0 = fst rp, pl_phase = snd rp, pl_next = c + 11\<rparr>))"

text \<open>Bit 7 with \<open>unstuff6\<close>, which samples \<open>r0\<close> again without comparing it.\<close>

definition pll_bit7 :: "(nat \<Rightarrow> u8) \<Rightarrow> bool \<times> pll \<Rightarrow> bool \<times> pll" where
  "pll_bit7 pin zq =
     (let (z, q) = zq;
          c = pl_next q;
          (z', s) = rx_bit7 (sampler pin q) (z, pl_rx q);
          (r0, c) = (if z then (pin (c + 6), c + 11) else (pl_r0 q, c));
          rp = eor_phase pin c (r0, pl_phase q)
      in (z', \<lparr>pl_rx = s, pl_r0 = fst rp, pl_phase = snd rp, pl_next = c + 11\<rparr>))"

text \<open>
  Leaving the loop takes \<open>n\<close> clocks from the sample on, or \<open>n'\<close> after a stuffed bit: \<open>se0\<close> or \<open>overflow\<close> is
  entered then.
\<close>

definition leave :: "nat \<Rightarrow> nat \<Rightarrow> bool \<times> pll \<Rightarrow> rx_end + 'a \<Rightarrow> (rx_end \<times> nat) + 'a" where
  "leave n n' zq x =
     (case x of
        Inl e \<Rightarrow> Inl (e, pl_next (snd zq) + (if fst zq then n' else n))
      | Inr y \<Rightarrow> Inr y)"

definition next_step :: "'e + 'a \<Rightarrow> ('a \<Rightarrow> 'e + 'b) \<Rightarrow> 'e + 'b" where
  "next_step x f = (case x of Inl e \<Rightarrow> Inl e | Inr y \<Rightarrow> f y)"

definition pll_bits :: "(nat \<Rightarrow> u8) \<Rightarrow> bool \<times> pll \<Rightarrow> (rx_end \<times> nat) + bool \<times> pll" where
  "pll_bits pin zq =
     next_step (leave 5 11 zq (pll_step pin rx_bit1 zq)) (\<lambda>zq.
     next_step (leave 7 18 zq (pll_step pin rx_bit2 zq)) (\<lambda>zq.
     next_step (pll_step pin (\<lambda>line zs. Inr (rx_bit3 line zs)) zq) (\<lambda>zq.
     next_step (pll_step pin (\<lambda>line zs. Inr (rx_bit4 line zs)) zq) (\<lambda>zq.
     next_step (pll_step pin (\<lambda>line zs. Inr (rx_bit5 line zs)) zq) (\<lambda>zq.
     Inr (pll_bit7 pin (pll_bit6 pin zq)))))))"

definition pll_bit0 :: "(nat \<Rightarrow> u8) \<Rightarrow> bool \<times> pll \<Rightarrow> bool \<times> pll" where
  "pll_bit0 pin zq =
     (let (z, q) = zq;
          (z', s) = rx_bit0 (sampler pin q) (z, pl_rx q)
      in (z', pll_after pin z q s))"

lemma pl_rx_step [simp]:
  "pl_rx (pll_after pin z q s) = s"
  "pl_rx (snd (pll_bit6 pin (z, q))) =
     snd (rx_bit6 (sampler pin (q\<lparr>pl_next := if bit (pl_phase q) USBMINUS then pl_next q + 1 else pl_next q - 1\<rparr>)) (z, pl_rx q))"
  "pl_rx (snd (pll_bit7 pin (z, q))) = snd (rx_bit7 (sampler pin q) (z, pl_rx q))"
  "pl_rx (snd (pll_bit0 pin (z, q))) = snd (rx_bit0 (sampler pin q) (z, pl_rx q))"
  by (auto simp: pll_after_def pll_bit6_def pll_bit7_def pll_bit0_def Let_def split: prod.splits)

lemma pll_step_InrD:
  "pll_step pin f (z, q) = Inr (z', q') \<Longrightarrow>
     f (sampler pin q) (z, pl_rx q) = Inr (z', pl_rx q') \<and> q' = pll_after pin z q (pl_rx q')"
  by (auto simp: pll_step_def split: sum.splits)

text \<open>The receivers that a whole byte goes through, as steps on registers.\<close>

lemma pll_bits_regs:
  assumes "pll_bits pin zq = Inr zq'"
  shows "rx_cnt (pl_rx (snd zq)) \<noteq> 0" "rx_cnt (pl_rx (snd zq')) = rx_cnt (pl_rx (snd zq)) - 1"
    "rx_stored (pl_rx (snd zq')) = rx_stored (pl_rx (snd zq))"
proof -
  obtain z q where zq: "zq = (z, q)" by fastforce
  from assms obtain z1 q1 z2 q2 z3 q3 z4 q4 z5 q5 where
    1: "pll_step pin rx_bit1 (z, q) = Inr (z1, q1)" and 2: "pll_step pin rx_bit2 (z1, q1) = Inr (z2, q2)" and
    3: "pll_step pin (\<lambda>line zs. Inr (rx_bit3 line zs)) (z2, q2) = (Inr (z3, q3) :: (rx_end \<times> nat) + bool \<times> pll)" and
    4: "pll_step pin (\<lambda>line zs. Inr (rx_bit4 line zs)) (z3, q3) = (Inr (z4, q4) :: (rx_end \<times> nat) + bool \<times> pll)" and
    5: "pll_step pin (\<lambda>line zs. Inr (rx_bit5 line zs)) (z4, q4) = (Inr (z5, q5) :: (rx_end \<times> nat) + bool \<times> pll)" and
    7: "zq' = pll_bit7 pin (pll_bit6 pin (z5, q5))"
    by (auto simp: pll_bits_def next_step_def leave_def zq split: sum.splits)
  note steps = pll_step_InrD[OF 1] pll_step_InrD[OF 2] pll_step_InrD[OF 3] pll_step_InrD[OF 4] pll_step_InrD[OF 5]
  have 2: "rx_cnt (pl_rx q) \<noteq> 0" "rx_cnt (pl_rx q2) = rx_cnt (pl_rx q) - 1" "rx_stored (pl_rx q2) = rx_stored (pl_rx q)"
    using rx_cnt_bit1[OF steps(1)[THEN conjunct1]] rx_cnt_bit2[OF steps(2)[THEN conjunct1]]
      rx_stored_bit1[OF steps(1)[THEN conjunct1]] rx_stored_bit2[OF steps(2)[THEN conjunct1]] by simp_all
  have 5: "rx_cnt (pl_rx q5) = rx_cnt (pl_rx q2)" "rx_stored (pl_rx q5) = rx_stored (pl_rx q2)"
    using steps(3-5) rx_cnt_bits(1-3) rx_stored_bits(1-3) by (metis Inr_inject snd_conv)+
  have 7: "rx_cnt (pl_rx (snd zq')) = rx_cnt (pl_rx q5)" "rx_stored (pl_rx (snd zq')) = rx_stored (pl_rx q5)"
    unfolding 7 by (cases "pll_bit6 pin (z5, q5)", metis pl_rx_step(2,3) rx_cnt_bits(4,5) rx_stored_bits(4,5) snd_conv)+
  show "rx_cnt (pl_rx (snd zq)) \<noteq> 0" "rx_cnt (pl_rx (snd zq')) = rx_cnt (pl_rx (snd zq)) - 1"
    "rx_stored (pl_rx (snd zq')) = rx_stored (pl_rx (snd zq))"
    using 2 5 7 by (simp_all add: zq)
qed

function pllLoop :: "(nat \<Rightarrow> u8) \<Rightarrow> bool \<times> pll \<Rightarrow> rx_end \<times> nat" where
  "pllLoop pin zq =
     (case pll_bits pin zq of
        Inl e \<Rightarrow> e
      | Inr zq \<Rightarrow> pllLoop pin (pll_bit0 pin zq))"
  by pat_completeness auto
termination
proof (relation "measure (\<lambda>(pin, zq). unat (rx_cnt (pl_rx (snd zq))))", simp)
  fix pin zq zq'
  assume "pll_bits pin zq = Inr zq'"
  from pll_bits_regs[OF this] have "unat (rx_cnt (pl_rx (snd zq'))) < unat (rx_cnt (pl_rx (snd zq)))"
    by (simp add: unat_minus_one unat_gt_0)
  then show "((pin, pll_bit0 pin zq'), pin, zq) \<in> measure (\<lambda>(pin, zq). unat (rx_cnt (pl_rx (snd zq))))"
    by (cases zq') simp
qed

declare pllLoop.simps [simp del]

text \<open>
  From \<open>haveTwoBitsK\<close> on, with the first bit sampled at clock \<open>c\<close> and \<open>r0\<close> as it was left before.
\<close>

definition pll_haveTwoBitsK :: "(nat \<Rightarrow> u8) \<Rightarrow> nat \<Rightarrow> u8 \<Rightarrow> rx_end \<times> nat" where
  "pll_haveTwoBitsK pin c r0 =
     (let s = \<lparr>rx_shift = 0xff, rx_x1 = 0, rx_x2 = 0, rx_x3 = 0xff, rx_cnt = of_nat USB_BUFSIZE,
               rx_stored = [], rx_samples = 0\<rparr>;
          s = in_x1 (\<lambda>_. pin c) s;
          s = s\<lparr>rx_shift := bld 0 (bit (rx_x1 s) USBMINUS) (rx_shift s)\<rparr>
      in pllLoop pin (False, \<lparr>pl_rx = s, pl_r0 = r0, pl_phase = 0, pl_next = c + 11\<rparr>))"

section \<open>Only the levels of the samples matter\<close>

definition same_levels :: "(nat \<Rightarrow> u8) \<Rightarrow> (nat \<Rightarrow> u8) \<Rightarrow> bool" where
  "same_levels line line' \<longleftrightarrow> (\<forall>i. line i AND USBMASK = line' i AND USBMASK)"

lemma mask_bits: "bit (p AND USBMASK) 3 = bit p 3" "bit (p AND USBMASK) 4 = bit p 4"
  by (simp_all add: USBMASK_def bit_and_iff)

lemma mask_minus: "p AND USBMASK = p' AND USBMASK \<Longrightarrow> bit p USBMINUS = bit p' USBMINUS"
  using mask_bits[of p] mask_bits[of p'] by (simp add: USBMINUS_def)

lemma mask_drives: "p AND USBMASK = p' AND USBMASK \<Longrightarrow> drives p = drives p'"
  using mask_bits[of p] mask_bits[of p'] by (auto simp: drives_def USBMINUS_def USBPLUS_def)

lemma carries_same: "same_levels line line' \<Longrightarrow> carries line p l bs = carries line' p l bs"
  by (induction bs arbitrary: p l) (simp_all add: same_levels_def drives_SE0_def mask_drives[of "line _" "line' _"])

lemma rx_inv_same: "same_levels line line' \<Longrightarrow> rx_inv line k n zs D ds = rx_inv line' k n zs D ds"
  by (simp add: rx_inv_def carries_same[of line line'])

text \<open>The samples a step reads, in a signal that is \<open>line\<close> elsewhere.\<close>

definition mixed :: "(nat \<Rightarrow> u8) \<Rightarrow> (nat \<Rightarrow> u8) \<Rightarrow> bool \<Rightarrow> nat \<Rightarrow> nat \<Rightarrow> u8" where
  "mixed read line z m i = (if i = m \<or> z \<and> i = Suc m then read i else line i)"

lemma mixed_levels:
  assumes "read m AND USBMASK = line m AND USBMASK"
    "z \<Longrightarrow> read (Suc m) AND USBMASK = line (Suc m) AND USBMASK"
  shows "same_levels (mixed read line z m) line"
  using assms by (auto simp: same_levels_def mixed_def)

lemma mixed_read: "mixed read line z m m = read m" "z \<Longrightarrow> mixed read line z m (Suc m) = read (Suc m)"
  by (simp_all add: mixed_def)

text \<open>
  The interface of a step: it reads the next sample, and the one after it when a stuffed bit is
  pending; the last sample it reads becomes the newest; and it keeps the invariant.
\<close>

locale bit_step =
  fixes f :: "(nat \<Rightarrow> u8) \<Rightarrow> bool \<times> receiver \<Rightarrow> 'e + bool \<times> receiver"
    and k k' :: nat
    and pre :: "receiver \<Rightarrow> bool"
  assumes reads: "line (rx_samples s) = line' (rx_samples s) \<Longrightarrow>
      (z \<Longrightarrow> line (Suc (rx_samples s)) = line' (Suc (rx_samples s))) \<Longrightarrow> f line (z, s) = f line' (z, s)"
    and samples: "f line (z, s) = Inr (z', s') \<Longrightarrow> rx_samples s' = rx_samples s + (if z then 2 else 1)"
    and newest: "f line (z, s) = Inr (z', s') \<Longrightarrow> newest k' s' = bit (line (rx_samples s' - 1)) USBMINUS"
    and inv: "rx_inv line k n (z, s) D (b # ds) \<Longrightarrow> pre s \<Longrightarrow>
      \<exists>z' s'. f line (z, s) = Inr (z', s') \<and> rx_inv line k' (next_run n b) (z', s') (if k' = 0 then [b] else D @ [b]) ds"

context bit_step
begin

text \<open>The same when the next sample, or the next two, have the levels of \<open>line\<close>.\<close>

lemma step_levels:
  assumes at: "rx_inv line k n (z, s) D (b # ds)" and "pre s"
    and same: "read (rx_samples s) AND USBMASK = line (rx_samples s) AND USBMASK"
      "z \<Longrightarrow> read (Suc (rx_samples s)) AND USBMASK = line (Suc (rx_samples s)) AND USBMASK"
  shows "\<exists>z' s'. f read (z, s) = Inr (z', s') \<and>
    rx_inv line k' (next_run n b) (z', s') (if k' = 0 then [b] else D @ [b]) ds \<and>
    rx_samples s' = rx_samples s + (if z then 2 else 1) \<and> newest k' s' = bit (line (rx_samples s' - 1)) USBMINUS"
proof -
  let ?mixed = "mixed read line z (rx_samples s)"
  have mixed: "same_levels ?mixed line"
    using mixed_levels[OF same] .
  have "rx_inv ?mixed k n (z, s) D (b # ds)"
    using at by (simp only: rx_inv_same[OF mixed])
  from inv[OF this \<open>pre s\<close>] obtain z' s' where step: "f ?mixed (z, s) = Inr (z', s')"
      "rx_inv ?mixed k' (next_run n b) (z', s') (if k' = 0 then [b] else D @ [b]) ds"
    by blast
  have "f read (z, s) = Inr (z', s')"
    unfolding step(1)[symmetric] by (rule reads) (simp_all add: mixed_read)
  moreover have "bit (?mixed i) USBMINUS = bit (line i) USBMINUS" for i
    by (rule mask_minus) (use mixed in \<open>simp add: same_levels_def\<close>)
  moreover have "rx_inv line k' (next_run n b) (z', s') (if k' = 0 then [b] else D @ [b]) ds"
    using step(2) by (simp only: rx_inv_same[OF mixed])
  ultimately show ?thesis
    using samples[OF step(1)] newest[OF step(1)] by blast
qed

end

lemmas step_defs = in_x1_def in_x2_def unstuff_def andi_shift_def eor_x1_def eor_x2_def newest_def Let_def

interpretation bit1: bit_step rx_bit1 0 1 "\<lambda>_. True"
proof
  fix line line' :: "nat \<Rightarrow> u8" and s z z' s'
  show "rx_bit1 line (z, s) = rx_bit1 line' (z, s)"
    if "line (rx_samples s) = line' (rx_samples s)" "z \<Longrightarrow> line (Suc (rx_samples s)) = line' (Suc (rx_samples s))"
    using that by (simp add: rx_bit1_def step_defs)
  show "rx_samples s' = rx_samples s + (if z then 2 else 1)" "newest 1 s' = bit (line (rx_samples s' - 1)) USBMINUS"
    if "rx_bit1 line (z, s) = Inr (z', s')"
    using that mask_bits by (auto simp: rx_bit1_def step_defs USBMINUS_def split: if_splits)
next
  fix line n z s D b ds
  assume "rx_inv line 0 n (z, s) D (b # ds)"
  from rx_bit1_inv[OF this] show "\<exists>z' s'. rx_bit1 line (z, s) = Inr (z', s') \<and>
      rx_inv line 1 (next_run n b) (z', s') (if (1 :: nat) = 0 then [b] else D @ [b]) ds" by auto
qed

interpretation bit2: bit_step rx_bit2 1 2 "\<lambda>s. rx_cnt s \<noteq> 0"
proof
  fix line line' :: "nat \<Rightarrow> u8" and s z z' s'
  show "rx_bit2 line (z, s) = rx_bit2 line' (z, s)"
    if "line (rx_samples s) = line' (rx_samples s)" "z \<Longrightarrow> line (Suc (rx_samples s)) = line' (Suc (rx_samples s))"
    using that by (simp add: rx_bit2_def step_defs subi_def)
  show "rx_samples s' = rx_samples s + (if z then 2 else 1)" "newest 2 s' = bit (line (rx_samples s' - 1)) USBMINUS"
    if "rx_bit2 line (z, s) = Inr (z', s')"
    using that by (auto simp: rx_bit2_def step_defs subi_def split: if_splits)
next
  fix line n z s D b ds
  assume "rx_inv line 1 n (z, s) D (b # ds)" "rx_cnt s \<noteq> 0"
  from rx_bit2_inv[OF this] show "\<exists>z' s'. rx_bit2 line (z, s) = Inr (z', s') \<and>
      rx_inv line 2 (next_run n b) (z', s') (if (2 :: nat) = 0 then [b] else D @ [b]) ds" by auto
qed

interpretation bit3: bit_step "\<lambda>line zs. Inr (rx_bit3 line zs)" 2 3 "\<lambda>_. True"
proof
  fix line line' :: "nat \<Rightarrow> u8" and s z z' s'
  show "Inr (rx_bit3 line (z, s)) = Inr (rx_bit3 line' (z, s))"
    if "line (rx_samples s) = line' (rx_samples s)" "z \<Longrightarrow> line (Suc (rx_samples s)) = line' (Suc (rx_samples s))"
    using that by (simp add: rx_bit3_def step_defs)
  show "rx_samples s' = rx_samples s + (if z then 2 else 1)" "newest 3 s' = bit (line (rx_samples s' - 1)) USBMINUS"
    if "Inr (rx_bit3 line (z, s)) = Inr (z', s')"
    using that by (auto simp: rx_bit3_def step_defs split: if_splits)
next
  fix line n z s D b ds
  assume "rx_inv line 2 n (z, s) D (b # ds)"
  from rx_bit3_inv[OF this] show "\<exists>z' s'. Inr (rx_bit3 line (z, s)) = Inr (z', s') \<and>
      rx_inv line 3 (next_run n b) (z', s') (if (3 :: nat) = 0 then [b] else D @ [b]) ds"
    by (cases "rx_bit3 line (z, s)") auto
qed

interpretation bit4: bit_step "\<lambda>line zs. Inr (rx_bit4 line zs)" 3 4 "\<lambda>_. True"
proof
  fix line line' :: "nat \<Rightarrow> u8" and s z z' s'
  show "Inr (rx_bit4 line (z, s)) = Inr (rx_bit4 line' (z, s))"
    if "line (rx_samples s) = line' (rx_samples s)" "z \<Longrightarrow> line (Suc (rx_samples s)) = line' (Suc (rx_samples s))"
    using that by (simp add: rx_bit4_def step_defs)
  show "rx_samples s' = rx_samples s + (if z then 2 else 1)" "newest 4 s' = bit (line (rx_samples s' - 1)) USBMINUS"
    if "Inr (rx_bit4 line (z, s)) = Inr (z', s')"
    using that by (auto simp: rx_bit4_def step_defs split: if_splits)
next
  fix line n z s D b ds
  assume "rx_inv line 3 n (z, s) D (b # ds)"
  from rx_bit4_inv[OF this] show "\<exists>z' s'. Inr (rx_bit4 line (z, s)) = Inr (z', s') \<and>
      rx_inv line 4 (next_run n b) (z', s') (if (4 :: nat) = 0 then [b] else D @ [b]) ds"
    by (cases "rx_bit4 line (z, s)") auto
qed

interpretation bit5: bit_step "\<lambda>line zs. Inr (rx_bit5 line zs)" 4 5 "\<lambda>_. True"
proof
  fix line line' :: "nat \<Rightarrow> u8" and s z z' s'
  show "Inr (rx_bit5 line (z, s)) = Inr (rx_bit5 line' (z, s))"
    if "line (rx_samples s) = line' (rx_samples s)" "z \<Longrightarrow> line (Suc (rx_samples s)) = line' (Suc (rx_samples s))"
    using that by (simp add: rx_bit5_def step_defs)
  show "rx_samples s' = rx_samples s + (if z then 2 else 1)" "newest 5 s' = bit (line (rx_samples s' - 1)) USBMINUS"
    if "Inr (rx_bit5 line (z, s)) = Inr (z', s')"
    using that by (auto simp: rx_bit5_def step_defs split: if_splits)
next
  fix line n z s D b ds
  assume "rx_inv line 4 n (z, s) D (b # ds)"
  from rx_bit5_inv(1)[OF this] show "\<exists>z' s'. Inr (rx_bit5 line (z, s)) = Inr (z', s') \<and>
      rx_inv line 5 (next_run n b) (z', s') (if (5 :: nat) = 0 then [b] else D @ [b]) ds"
    by (cases "rx_bit5 line (z, s)") auto
qed

interpretation bit6: bit_step "\<lambda>line zs. Inr (rx_bit6 line zs)" 5 6 "\<lambda>s. \<not> bit (rx_shift s) 7"
proof
  fix line line' :: "nat \<Rightarrow> u8" and s z z' s'
  show "Inr (rx_bit6 line (z, s)) = Inr (rx_bit6 line' (z, s))"
    if "line (rx_samples s) = line' (rx_samples s)" "z \<Longrightarrow> line (Suc (rx_samples s)) = line' (Suc (rx_samples s))"
    using that by (simp add: rx_bit6_def step_defs)
  show "rx_samples s' = rx_samples s + (if z then 2 else 1)" "newest 6 s' = bit (line (rx_samples s' - 1)) USBMINUS"
    if "Inr (rx_bit6 line (z, s)) = Inr (z', s')"
    using that by (auto simp: rx_bit6_def step_defs split: if_splits)
next
  fix line n z s D b ds
  assume "rx_inv line 5 n (z, s) D (b # ds)" "\<not> bit (rx_shift s) 7"
  from rx_bit6_inv[OF this] show "\<exists>z' s'. Inr (rx_bit6 line (z, s)) = Inr (z', s') \<and>
      rx_inv line 6 (next_run n b) (z', s') (if (6 :: nat) = 0 then [b] else D @ [b]) ds"
    by (cases "rx_bit6 line (z, s)") auto
qed

interpretation bit7: bit_step "\<lambda>line zs. Inr (rx_bit7 line zs)" 6 7 "\<lambda>_. True"
proof
  fix line line' :: "nat \<Rightarrow> u8" and s z z' s'
  show "Inr (rx_bit7 line (z, s)) = Inr (rx_bit7 line' (z, s))"
    if "line (rx_samples s) = line' (rx_samples s)" "z \<Longrightarrow> line (Suc (rx_samples s)) = line' (Suc (rx_samples s))"
    using that by (simp add: rx_bit7_def step_defs)
  show "rx_samples s' = rx_samples s + (if z then 2 else 1)" "newest 7 s' = bit (line (rx_samples s' - 1)) USBMINUS"
    if "Inr (rx_bit7 line (z, s)) = Inr (z', s')"
    using that by (auto simp: rx_bit7_def step_defs split: if_splits)
next
  fix line n z s D b ds
  assume "rx_inv line 6 n (z, s) D (b # ds)"
  from rx_bit7_inv[OF this] show "\<exists>z' s'. Inr (rx_bit7 line (z, s)) = Inr (z', s') \<and>
      rx_inv line 7 (next_run n b) (z', s') (if (7 :: nat) = 0 then [b] else D @ [b]) ds"
    by (cases "rx_bit7 line (z, s)") auto
qed

text \<open>After the eighth bit, what was read is some byte.\<close>

lemma some_byte:
  assumes "length D = 8"
  shows "\<exists>c :: u8. D = map (bit c) [0..<8]"
proof (intro exI nth_equalityI)
  show "D ! i = map (bit (horner_sum of_bool 2 D :: u8)) [0..<8] ! i" if "i < length D" for i
    using that assms by (simp add: bit_horner_sum_bit_iff)
qed (simp add: assms)

interpretation bit0: bit_step "\<lambda>line zs. Inr (rx_bit0 line zs)" 7 0 "\<lambda>_. True"
proof
  fix line line' :: "nat \<Rightarrow> u8" and s z z' s'
  show "Inr (rx_bit0 line (z, s)) = Inr (rx_bit0 line' (z, s))"
    if "line (rx_samples s) = line' (rx_samples s)" "z \<Longrightarrow> line (Suc (rx_samples s)) = line' (Suc (rx_samples s))"
    using that by (simp add: rx_bit0_def step_defs)
  show "rx_samples s' = rx_samples s + (if z then 2 else 1)" "newest 0 s' = bit (line (rx_samples s' - 1)) USBMINUS"
    if "Inr (rx_bit0 line (z, s)) = Inr (z', s')"
    using that by (auto simp: rx_bit0_def step_defs split: if_splits)
next
  fix line n z s D b ds
  assume inv: "rx_inv line 7 n (z, s) D (b # ds)"
  then have "length D = 8" by (simp add: rx_inv_def)
  then obtain c :: u8 where "D = map (bit c) [0..<8]" using some_byte by blast
  from rx_bit0_inv(2)[OF inv[unfolded this] refl] show "\<exists>z' s'. Inr (rx_bit0 line (z, s)) = Inr (z', s') \<and>
      rx_inv line 0 (next_run n b) (z', s') (if (0 :: nat) = 0 then [b] else D @ [b]) ds"
    by (cases "rx_bit0 line (z, s)") auto
qed

end
