(* ===== verification/Usb_Recovery.thy ===== *)
theory Usb_Recovery
  imports Usb_Clock
begin

unbundle bit_operations_syntax

text \<open>
  The phase-locked loop keeps the samples inside the bits. The sender's bits need not take 11 clocks:
  bit \<open>i\<close> of \<open>N\<close> is on the bus from clock \<open>B i\<close> to clock \<open>B (Suc i)\<close>, and over any ten bits the two
  clocks may differ by one. A drift of 0.9 percent, read at whole clocks, stays within that.
\<close>

section \<open>The sender's clock\<close>

definition in_bit :: "(nat \<Rightarrow> nat) \<Rightarrow> nat \<Rightarrow> nat \<Rightarrow> bool" where
  "in_bit B i c \<longleftrightarrow> B i \<le> c \<and> c < B (Suc i)"

definition cells :: "(nat \<Rightarrow> u8) \<Rightarrow> (nat \<Rightarrow> nat) \<Rightarrow> nat \<Rightarrow> bool" where
  "cells pin B N \<longleftrightarrow> (\<forall>i<N. \<forall>c. in_bit B i c \<longrightarrow> pin c AND USBMASK = pin (B i) AND USBMASK)"

definition steady :: "(nat \<Rightarrow> nat) \<Rightarrow> nat \<Rightarrow> bool" where
  "steady B N \<longleftrightarrow>
     (\<forall>i. \<forall>k\<le>10. i + k \<le> N \<longrightarrow> B i + 11 * k \<le> B (i + k) + 1 \<and> B (i + k) \<le> B i + 11 * k + 1)"

lemma steady_bounds:
  assumes "steady B N" "k \<le> 10" "i + k \<le> N"
  shows "B i + 11 * k \<le> B (i + k) + 1" "B (i + k) \<le> B i + 11 * k + 1"
  using assms by (simp_all add: steady_def)

text \<open>A clock that is off by a constant factor, its edges seen at the next clock of the CPU.\<close>

lemma steady_drift:
  fixes p q b :: nat
  assumes q: "0 < q" and "109 * q \<le> 10 * p" "10 * p \<le> 111 * q"
  shows "steady (\<lambda>i. b + i * p div q) N"
  unfolding steady_def
proof (intro allI impI)
  fix i k :: nat
  assume k: "k \<le> 10"
  have "109 * (k * q) \<le> 10 * (k * p)" "10 * (k * p) \<le> 111 * (k * q)"
    using mult_le_mono2[OF assms(2), of k] mult_le_mono2[OF assms(3), of k] by (simp_all only: mult.left_commute)
  moreover have "k * q \<le> 10 * q" using k by simp
  ultimately have kp: "11 * (k * q) \<le> k * p + q" "k * p \<le> 11 * (k * q) + q"
    by linarith+
  let ?r = "i * p mod q"
  have r: "?r < q" using q by simp
  have ip: "(i + k) * p = i * p div q * q + (?r + k * p)"
    by (simp add: algebra_simps)
  then have "(i + k) * p div q = i * p div q + (?r + k * p) div q"
    using q by (metis div_mult_self3 add.commute less_not_refl)
  moreover have "(?r + k * p) div q \<le> 11 * k + 1"
  proof -
    have "?r + k * p < (11 * k + 2) * q"
      using r kp(2) by (simp add: algebra_simps)
    then show ?thesis using q by (simp add: less_mult_imp_div_less less_Suc_eq_le[symmetric])
  qed
  moreover have "11 * k \<le> (?r + k * p) div q + 1"
  proof -
    have "11 * k * q \<le> (?r + k * p) + q" using kp(1) by (simp add: algebra_simps)
    then have "11 * k * q div q \<le> (?r + k * p + q) div q" by (rule div_le_mono)
    then show ?thesis using q by (simp add: div_add_self2)
  qed
  ultimately show "b + i * p div q + 11 * k \<le> b + (i + k) * p div q + 1 \<and>
      b + (i + k) * p div q \<le> b + i * p div q + 11 * k + 1"
    by simp
qed

definition level :: "(nat \<Rightarrow> u8) \<Rightarrow> (nat \<Rightarrow> nat) \<Rightarrow> nat \<Rightarrow> bool" where
  "level pin B i = bit (pin (B i)) USBMINUS"

lemma cells_level: "cells pin B N \<Longrightarrow> i < N \<Longrightarrow> in_bit B i c \<Longrightarrow> bit (pin c) USBMINUS = level pin B i"
  unfolding level_def by (rule mask_minus) (simp add: cells_def)

section \<open>Where the samples are\<close>

text \<open>
  A segment is what lies between two corrections: it starts with bit 6, or with bit 0 of the first
  byte. Of its bits, \<open>i\<close> are data and \<open>u\<close> stuffed; \<open>m\<close> is the number of the first and \<open>c\<close> the clock of its
  sample. What matters is \<open>c - B m\<close>. When that is 7 or more, the sample and the one for
  the phase are taken in the same bit, so the phase shows nothing. When it is 2 or less, the phase shows every change
  of the level, and there is one at the latest after seven bits.
\<close>

definition seg :: "nat \<Rightarrow> nat" where
  "seg k = (if 6 \<le> k then k - 5 else k + 3)"

definition timed_from :: "(nat \<Rightarrow> u8) \<Rightarrow> (nat \<Rightarrow> nat) \<Rightarrow> nat \<Rightarrow> nat \<Rightarrow> nat \<Rightarrow> nat \<Rightarrow> nat \<Rightarrow> nat \<Rightarrow> pll \<Rightarrow> bool" where
  "timed_from pin B k n m c i u q \<longleftrightarrow>
     rx_samples (pl_rx q) = m + i + u \<and> pl_next q = c + 11 * (i + u) \<and>
     6 * u + n \<le> i + 6 \<and> 1 \<le> i \<and> i \<le> seg k \<and> B m + 1 \<le> c \<and> c \<le> B m + 8 \<and>
     (B m + 7 \<le> c \<longrightarrow> \<not> bit (pl_phase q) USBMINUS) \<and>
     (c \<le> B m + 2 \<longrightarrow> i = seg k \<and> (bit (pl_phase q) USBMINUS \<or> i \<le> n + 1)) \<and>
     (c \<le> B m + 2 \<or> B m + 7 \<le> c \<longrightarrow> pl_r0 q = pin (pl_next q - 5))"

definition timed :: "(nat \<Rightarrow> u8) \<Rightarrow> (nat \<Rightarrow> nat) \<Rightarrow> nat \<Rightarrow> nat \<Rightarrow> pll \<Rightarrow> bool" where
  "timed pin B k n q \<longleftrightarrow> (\<exists>m c i u. timed_from pin B k n m c i u q)"

lemma seg_le: "k < 8 \<Longrightarrow> seg k \<le> 8"
  by (auto simp: seg_def)

text \<open>Sampling up to eleven bits after the start of the segment.\<close>

lemma sample_in_bit:
  assumes "steady B N" "B m + 1 \<le> c" "c \<le> B m + 8" "j \<le> 10" "m + j < N"
  shows "in_bit B (m + j) (c + 11 * j)"
  using steady_bounds[OF assms(1,4), of m] steady_bounds[OF assms(1), of 1 "m + j"] assms(2-5)
  by (simp add: in_bit_def)

lemma early_in_bit:
  assumes "steady B N" "B m + 7 \<le> c" "c \<le> B m + 8" "j \<le> 10" "m + j < N"
  shows "in_bit B (m + j) (c + 11 * j - 5)"
  using steady_bounds[OF assms(1,4), of m] steady_bounds[OF assms(1), of 1 "m + j"] assms(2-5)
  by (simp add: in_bit_def) linarith

lemma early_in_last_bit:
  assumes "steady B N" "B m + 1 \<le> c" "c \<le> B m + 2" "j \<le> 9" "m + j < N"
  shows "in_bit B (m + j) (c + 11 * Suc j - 5)"
  using steady_bounds[OF assms(1), of "Suc j" m] steady_bounds[OF assms(1), of 1 "m + j"] assms(2-5)
  by (simp add: in_bit_def)

text \<open>The levels the samples of a step meet, after a stuffed bit where \<open>z\<close> says so.\<close>

definition levels_next :: "(nat \<Rightarrow> u8) \<Rightarrow> (nat \<Rightarrow> nat) \<Rightarrow> nat \<Rightarrow> bool \<Rightarrow> bool \<Rightarrow> bool" where
  "levels_next pin B m z b \<longleftrightarrow>
     (if z then level pin B m \<noteq> level pin B (m - 1) \<and> level pin B (Suc m) = (level pin B m = b)
      else level pin B m = (level pin B (m - 1) = b))"

text \<open>How one comparison changes the phase.\<close>

lemma eor_phase_minus:
  "bit (snd (eor_phase pin c (r0, phase))) USBMINUS \<longleftrightarrow>
     bit phase USBMINUS \<or> bit r0 USBMINUS \<noteq> bit (pin c) USBMINUS"
  "fst (eor_phase pin c (r0, phase)) = pin (c + 6)"
  by (auto simp: eor_phase_def Let_def bit_or_iff bit_xor_iff)

text \<open>What the samples of a step see, and the ones for the phase.\<close>

lemma timed_levels:
  assumes B: "cells pin B N" "steady B N"
    and q: "timed_from pin B k n m c i u q" and z: "z \<longleftrightarrow> n = 6" and k: "k < 8"
    and room: "m + (i + u) < N" "z \<Longrightarrow> Suc (m + (i + u)) < N"
  shows "in_bit B (m + (i + u)) (pl_next q)"
    and "bit (pin (pl_next q)) USBMINUS = level pin B (m + (i + u))"
    and "z \<Longrightarrow> in_bit B (Suc (m + (i + u))) (pl_next q + 11)"
    and "z \<Longrightarrow> bit (pin (pl_next q + 11)) USBMINUS = level pin B (Suc (m + (i + u)))"
    and "B m + 7 \<le> c \<Longrightarrow> bit (pin (pl_next q - 5)) USBMINUS = level pin B (m + (i + u))"
    and "B m + 7 \<le> c \<Longrightarrow> z \<Longrightarrow> bit (pin (pl_next q + 6)) USBMINUS = level pin B (Suc (m + (i + u)))"
    and "c \<le> B m + 2 \<Longrightarrow> bit (pin (pl_next q - 5)) USBMINUS = level pin B (m + (i + u) - 1)"
    and "c \<le> B m + 2 \<Longrightarrow> z \<Longrightarrow> bit (pin (pl_next q + 6)) USBMINUS = level pin B (m + (i + u))"
proof -
  let ?j = "i + u"
  have q: "pl_next q = c + 11 * ?j" "6 * u + n \<le> i + 6" "1 \<le> i" "i \<le> seg k" "B m + 1 \<le> c" "c \<le> B m + 8"
    using q by (auto simp: timed_from_def)
  have j: "?j \<le> 10" "z \<Longrightarrow> Suc ?j \<le> 10"
    using q(2-4) z seg_le[OF k] by auto
  have m: "m + ?j - 1 = m + (?j - 1)" "Suc (?j - 1) = ?j" using q(3) by simp_all
  have last: "m + (?j - 1) < N" using room(1) by simp
  show now: "in_bit B (m + ?j) (pl_next q)"
    using sample_in_bit[OF B(2) q(5,6) j(1) room(1)] by (simp only: q(1))
  then show "bit (pin (pl_next q)) USBMINUS = level pin B (m + ?j)" by (rule cells_level[OF B(1) room(1)])
  show after: "in_bit B (Suc (m + ?j)) (pl_next q + 11)" if z
    using sample_in_bit[OF B(2) q(5,6) j(2)[OF that]] room(2)[OF that] by (simp add: q(1) algebra_simps)
  then show "bit (pin (pl_next q + 11)) USBMINUS = level pin B (Suc (m + ?j))" if z
    using cells_level[OF B(1)] room(2) that by blast
  show "bit (pin (pl_next q - 5)) USBMINUS = level pin B (m + ?j)" if "B m + 7 \<le> c"
    using cells_level[OF B(1) room(1) early_in_bit[OF B(2) that q(6) j(1) room(1)]] by (simp only: q(1))
  show "bit (pin (pl_next q + 6)) USBMINUS = level pin B (Suc (m + ?j))" if "B m + 7 \<le> c" z
    using cells_level[OF B(1) _ early_in_bit[OF B(2) that(1) q(6) j(2)[OF that(2)]]] room(2)[OF that(2)]
    by (simp add: q(1) algebra_simps)
  show "bit (pin (pl_next q - 5)) USBMINUS = level pin B (m + ?j - 1)" if "c \<le> B m + 2"
    using cells_level[OF B(1) last early_in_last_bit[OF B(2) q(5) that _ last]] j by (simp only: m q(1))
  show "bit (pin (pl_next q + 6)) USBMINUS = level pin B (m + ?j)" if "c \<le> B m + 2" z
    using cells_level[OF B(1) room(1) early_in_last_bit[OF B(2) q(5) that(1) _ room(1)]] j that(2)
    by (simp add: q(1) algebra_simps)
qed

lemma timed_after:
  assumes B: "cells pin B N" "steady B N"
    and timed: "timed_from pin B k n m c i u q" and z: "z \<longleftrightarrow> n = 6" "n \<le> 6"
    and k: "seg k' = Suc (seg k)" "k < 8"
    and lv: "levels_next pin B (m + (i + u)) z b"
    and s: "rx_samples s = m + (i + u) + (if z then 2 else 1)"
    and room: "m + (i + u) < N" "z \<Longrightarrow> Suc (m + (i + u)) < N"
  shows "timed_from pin B k' (next_run n b) m c (Suc i) (if z then Suc u else u) (pll_after pin z q s)"
proof -
  let ?c = "pl_next q"
  have q: "rx_samples (pl_rx q) = m + i + u" "?c = c + 11 * (i + u)" "6 * u + n \<le> i + 6" "1 \<le> i" "i \<le> seg k"
    "B m + 1 \<le> c" "c \<le> B m + 8" "B m + 7 \<le> c \<Longrightarrow> \<not> bit (pl_phase q) USBMINUS"
    "c \<le> B m + 2 \<Longrightarrow> i = seg k" "c \<le> B m + 2 \<Longrightarrow> bit (pl_phase q) USBMINUS \<or> i \<le> n + 1"
    "c \<le> B m + 2 \<or> B m + 7 \<le> c \<Longrightarrow> pl_r0 q = pin (?c - 5)"
    using timed by (auto simp: timed_from_def)
  let ?j = "i + u"
  note at = timed_levels[OF B timed z(1) k(2) room]
  let ?q = "pll_after pin z q s"
  have phase: "bit (pl_phase ?q) USBMINUS \<longleftrightarrow>
      bit (pl_phase q) USBMINUS \<or> bit (pl_r0 q) USBMINUS \<noteq> level pin B (m + ?j) \<or>
      (z \<and> bit (pin (?c + 6)) USBMINUS \<noteq> level pin B (Suc (m + ?j)))"
    by (cases "eor_phase pin ?c (pl_r0 q, pl_phase q)")
       (use eor_phase_minus[of pin ?c "pl_r0 q" "pl_phase q"] eor_phase_minus in
         \<open>auto simp: pll_after_def Let_def at(2,4)\<close>)
  have rest: "pl_rx ?q = s" "pl_next ?q = ?c + (if z then 22 else 11)" "pl_r0 ?q = pin (pl_next ?q - 5)"
    by (auto simp: pll_after_def Let_def eor_phase_def add.commute)
  have high: "\<not> bit (pl_phase ?q) USBMINUS" if "B m + 7 \<le> c"
    using q(8,11) at(5,6) that by (simp add: phase)
  have low: "bit (pl_phase ?q) USBMINUS \<or> Suc i \<le> next_run n b + 1" if "c \<le> B m + 2"
  proof -
    have "bit (pl_r0 q) USBMINUS = level pin B (m + ?j - 1)" using q(11) at(7) that by simp
    then have "bit (pl_phase ?q) USBMINUS" if "bit (pl_phase q) USBMINUS \<or> z \<or> \<not> b"
      using that lv unfolding phase levels_next_def by (auto split: if_splits)
    then show ?thesis using q(10)[OF that] z by (auto simp: next_run_def)
  qed
  have "6 * (if z then Suc u else u) + next_run n b \<le> Suc i + 6"
    using q(3) z by (auto simp: next_run_def)
  then show ?thesis
    unfolding timed_from_def using q(2,5-7,9) rest s k(1) high low by auto
qed

text \<open>Bit 7, where a stuffed bit is not compared; a segment has only just begun.\<close>

lemma timed_bit7:
  assumes B: "cells pin B N" "steady B N"
    and timed: "timed_from pin B 6 n m c i u q" and z: "z \<longleftrightarrow> n = 6" "n \<le> 6"
    and lv: "levels_next pin B (m + (i + u)) z b"
    and s: "rx_samples (snd (rx_bit7 (sampler pin q) (z, pl_rx q))) = m + (i + u) + (if z then 2 else 1)"
    and room: "m + (i + u) < N" "z \<Longrightarrow> Suc (m + (i + u)) < N"
  shows "timed_from pin B 7 (next_run n b) m c (Suc i) (if z then Suc u else u) (snd (pll_bit7 pin (z, q)))"
proof -
  let ?c = "pl_next q"
  let ?j = "i + u"
  have q: "?c = c + 11 * ?j" "6 * u + n \<le> i + 6" "i = 1" "B m + 1 \<le> c" "c \<le> B m + 8"
    "B m + 7 \<le> c \<Longrightarrow> \<not> bit (pl_phase q) USBMINUS"
    "c \<le> B m + 2 \<Longrightarrow> bit (pl_phase q) USBMINUS \<or> i \<le> n + 1"
    "c \<le> B m + 2 \<or> B m + 7 \<le> c \<Longrightarrow> pl_r0 q = pin (?c - 5)"
    using timed by (auto simp: timed_from_def seg_def)
  note at = timed_levels[OF B timed z(1) _ room, simplified]
  let ?q = "snd (pll_bit7 pin (z, q))"
  have phase: "bit (pl_phase ?q) USBMINUS \<longleftrightarrow>
      bit (pl_phase q) USBMINUS \<or>
      (if z then bit (pin (?c + 6)) USBMINUS \<noteq> level pin B (Suc (m + ?j))
       else bit (pl_r0 q) USBMINUS \<noteq> level pin B (m + ?j))"
    by (auto simp: pll_bit7_def Let_def eor_phase_minus at(2,4) split: prod.split)
  have rest: "rx_samples (pl_rx ?q) = m + ?j + (if z then 2 else 1)" "pl_next ?q = ?c + (if z then 22 else 11)"
      "pl_r0 ?q = pin (pl_next ?q - 5)"
    using s by (auto simp: pll_bit7_def Let_def eor_phase_def add.commute split: prod.split)
  have high: "\<not> bit (pl_phase ?q) USBMINUS" if "B m + 7 \<le> c"
    using q(6,8) at(5,6) that by (simp add: phase)
  have low: "bit (pl_phase ?q) USBMINUS \<or> Suc i \<le> next_run n b + 1" if "c \<le> B m + 2"
  proof -
    have "bit (pl_phase ?q) USBMINUS" if "\<not> b"
      using q(8) at(7,8) \<open>c \<le> B m + 2\<close> that lv unfolding phase levels_next_def by (cases z) auto
    then show ?thesis using q(3,7) z by (auto simp: next_run_def)
  qed
  have "6 * (if z then Suc u else u) + next_run n b \<le> Suc i + 6"
    using q(2) z by (auto simp: next_run_def)
  then show ?thesis
    unfolding timed_from_def using q(1,3-5) rest high low by (auto simp: seg_def)
qed

lemma next_run_le: "next_run n b \<le> 6"
  by (simp add: next_run_def Suc_le_eq)

text \<open>The correction, which brings the next sample back towards the middle of its bit.\<close>

definition corrected :: "pll \<Rightarrow> nat" where
  "corrected q = (if bit (pl_phase q) USBMINUS then pl_next q + 1 else pl_next q - 1)"

lemma corrected_bounds:
  assumes "steady B N" and timed: "timed_from pin B 5 n m c i u q" and "n \<le> 6" "m + (i + u) < N"
  shows "B (m + (i + u)) + 1 \<le> corrected q" "corrected q \<le> B (m + (i + u)) + 8"
proof -
  have q: "pl_next q = c + 11 * (i + u)" "6 * u + n \<le> i + 6" "i \<le> 8" "B m + 1 \<le> c" "c \<le> B m + 8"
    "B m + 7 \<le> c \<Longrightarrow> \<not> bit (pl_phase q) USBMINUS" "c \<le> B m + 2 \<Longrightarrow> bit (pl_phase q) USBMINUS"
    using timed assms(3) by (auto simp: timed_from_def seg_def)
  have "i + u \<le> 10" using q(2,3) by simp
  note drift = steady_bounds[OF assms(1) this, of m, OF less_imp_le[OF assms(4)]]
  have "c \<le> B m + 6" if "bit (pl_phase q) USBMINUS" using q(6) that by linarith
  moreover have "B m + 3 \<le> c" if "\<not> bit (pl_phase q) USBMINUS" using q(7) that by linarith
  ultimately show "B (m + (i + u)) + 1 \<le> corrected q" "corrected q \<le> B (m + (i + u)) + 8"
    using drift q(1,4,5) by (auto simp: corrected_def split: if_splits)
qed

text \<open>Bit 6, which starts the next segment.\<close>

lemma timed_bit6:
  assumes B: "cells pin B N" "steady B N"
    and timed: "timed_from pin B 5 n m c i u q" and z: "z \<longleftrightarrow> n = 6" "n \<le> 6"
    and s: "rx_samples (snd (rx_bit6 (sampler pin (q\<lparr>pl_next := corrected q\<rparr>)) (z, pl_rx q))) =
      m + (i + u) + (if z then 2 else 1)"
    and room: "m + (i + u) < N" "z \<Longrightarrow> Suc (m + (i + u)) < N"
  shows "timed_from pin B 6 (next_run n b) (m + (i + u)) (corrected q) 1 (if z then 1 else 0) (snd (pll_bit6 pin (z, q)))"
proof -
  let ?m = "m + (i + u)"
  let ?d = "corrected q"
  note d = corrected_bounds[OF B(2) timed z(2) room(1)]
  have in_d: "bit (pin ?d) USBMINUS = level pin B ?m" "z \<Longrightarrow> bit (pin (?d + 11)) USBMINUS = level pin B (Suc ?m)"
    using cells_level[OF B(1)] room sample_in_bit[OF B(2) d, of 0] sample_in_bit[OF B(2) d, of 1] by simp_all
  have early: "bit (pin (?d - 5)) USBMINUS = level pin B ?m" "z \<Longrightarrow> bit (pin (?d + 6)) USBMINUS = level pin B (Suc ?m)"
    if "B ?m + 7 \<le> ?d"
    using cells_level[OF B(1)] room early_in_bit[OF B(2) that d(2), of 0] early_in_bit[OF B(2) that d(2), of 1]
    by (simp_all add: add.commute)
  let ?q = "snd (pll_bit6 pin (z, q))"
  have phase: "bit (pl_phase ?q) USBMINUS \<longleftrightarrow>
      bit (pin (?d - 5)) USBMINUS \<noteq> bit (pin ?d) USBMINUS \<or>
      z \<and> bit (pin (?d + 6)) USBMINUS \<noteq> bit (pin (?d + 11)) USBMINUS"
    by (auto simp: pll_bit6_def Let_def eor_phase_minus bit_xor_iff corrected_def split: prod.split)
  have rest: "rx_samples (pl_rx ?q) = ?m + (if z then 2 else 1)" "pl_next ?q = ?d + (if z then 22 else 11)"
      "pl_r0 ?q = pin (pl_next ?q - 5)"
    using s by (auto simp: pll_bit6_def Let_def eor_phase_def corrected_def add.commute split: prod.split)
  have "\<not> bit (pl_phase ?q) USBMINUS" if "B ?m + 7 \<le> ?d"
    using early[OF that] in_d by (auto simp: phase)
  then show ?thesis
    unfolding timed_from_def using d rest next_run_le[of n b] z by (auto simp: seg_def next_run_def)
qed

section \<open>The loop reads the bits\<close>

text \<open>The number of bits still on the bus, stuffed ones included.\<close>

definition left :: "nat \<Rightarrow> bool list \<Rightarrow> nat" where
  "left n ds = length (if n = 6 then False # stuff 0 ds else stuff n ds)"

lemma left_next: "n \<le> 6 \<Longrightarrow> left n (b # ds) = (if n = 6 then 2 else 1) + left (next_run n b) ds"
  by (auto simp: left_def next_run_def)

text \<open>
  The invariant of the receive loop on the levels of the bits, with the samples where they should be, and
  two bits of SE0 to come.
\<close>

definition pll_inv ::
  "(nat \<Rightarrow> u8) \<Rightarrow> (nat \<Rightarrow> nat) \<Rightarrow> nat \<Rightarrow> nat \<Rightarrow> bool \<times> pll \<Rightarrow> bool list \<Rightarrow> bool list \<Rightarrow> bool" where
  "pll_inv pin B N k zq D ds \<longleftrightarrow>
     (case zq of (z, q) \<Rightarrow>
        \<exists>n m c i u. rx_inv (\<lambda>i. pin (B i)) k n (z, pl_rx q) D ds \<and>
          newest k (pl_rx q) = level pin B (rx_samples (pl_rx q) - 1) \<and> timed_from pin B k n m c i u q \<and>
          rx_samples (pl_rx q) + left n ds + 2 = N)"

lemma rx_inv_levels:
  assumes "rx_inv (\<lambda>i. pin (B i)) k n (z, s) D (b # ds)" "newest k s = level pin B (rx_samples s - 1)"
  shows "levels_next pin B (rx_samples s) z b" "z \<longleftrightarrow> n = 6" "n \<le> 6"
  using assms run_at_le[of k "rx_shift s"] by (auto simp: rx_inv_def levels_next_def level_def drives_def)

lemma left_room:
  assumes "z \<longleftrightarrow> n = 6" "n \<le> 6" "x + left n (b # ds) + 2 = N"
  shows "x < N" "z \<Longrightarrow> Suc x < N" "x + (if z then 2 else 1) + left (next_run n b) ds + 2 = N"
  using assms left_next[of n b ds] by (auto split: if_splits)

text \<open>What a step reads has the levels of the bits.\<close>

lemma sampler_levels:
  assumes "cells pin B N" "steady B N" "timed_from pin B k n m c i u q" "z \<longleftrightarrow> n = 6" "k < 8"
    and "m + (i + u) < N" "z \<Longrightarrow> Suc (m + (i + u)) < N"
  shows "sampler pin q (rx_samples (pl_rx q)) AND USBMASK = pin (B (rx_samples (pl_rx q))) AND USBMASK"
    and "z \<Longrightarrow> sampler pin q (Suc (rx_samples (pl_rx q))) AND USBMASK = pin (B (Suc (rx_samples (pl_rx q)))) AND USBMASK"
proof -
  have "rx_samples (pl_rx q) = m + (i + u)" using assms(3) by (simp add: timed_from_def)
  then show "sampler pin q (rx_samples (pl_rx q)) AND USBMASK = pin (B (rx_samples (pl_rx q))) AND USBMASK"
      "z \<Longrightarrow> sampler pin q (Suc (rx_samples (pl_rx q))) AND USBMASK = pin (B (Suc (rx_samples (pl_rx q)))) AND USBMASK"
    using timed_levels(1,3)[OF assms] assms(1,6,7) by (simp_all add: sampler_def cells_def)
qed

context bit_step
begin

lemma pll_step_inv:
  assumes B: "cells pin B N" "steady B N"
    and inv: "pll_inv pin B N k (z, q) D (b # ds)" "pre (pl_rx q)" and k: "seg k' = Suc (seg k)" "k < 8"
  shows "\<exists>z' q'. pll_step pin f (z, q) = Inr (z', q') \<and> pll_inv pin B N k' (z', q') (if k' = 0 then [b] else D @ [b]) ds"
proof -
  let ?s = "pl_rx q"
  obtain n m c i u where n: "rx_inv (\<lambda>i. pin (B i)) k n (z, ?s) D (b # ds)"
      "newest k ?s = level pin B (rx_samples ?s - 1)" and timed: "timed_from pin B k n m c i u q"
      and len: "rx_samples ?s + left n (b # ds) + 2 = N"
    using inv(1) by (auto simp: pll_inv_def)
  note lv = rx_inv_levels[OF n]
  have m: "rx_samples ?s = m + (i + u)" using timed by (simp add: timed_from_def)
  note room' = left_room[OF lv(2,3) len]
  note room = room'[unfolded m]
  obtain z' s' where step: "f (sampler pin q) (z, ?s) = Inr (z', s')"
      "rx_inv (\<lambda>i. pin (B i)) k' (next_run n b) (z', s') (if k' = 0 then [b] else D @ [b]) ds"
      "rx_samples s' = rx_samples ?s + (if z then 2 else 1)" "newest k' s' = level pin B (rx_samples s' - 1)"
    using step_levels[OF n(1) inv(2) sampler_levels[OF B timed lv(2) k(2) room(1,2)]] unfolding level_def by blast
  have "timed_from pin B k' (next_run n b) m c (Suc i) (if z then Suc u else u) (pll_after pin z q s')"
    using timed_after[OF B timed lv(2,3) k _ _ room(1,2)] lv(1) step(3) by (simp only: m)
  then have "pll_inv pin B N k' (z', pll_after pin z q s') (if k' = 0 then [b] else D @ [b]) ds"
    unfolding pll_inv_def using step(2-4) room'(3) by (auto intro!: exI)
  then show ?thesis using step(1) by (simp add: pll_step_def)
qed

end

lemma pll_bit7_inv:
  assumes B: "cells pin B N" "steady B N" and inv: "pll_inv pin B N 6 (z, q) D (b # ds)"
  shows "pll_inv pin B N 7 (pll_bit7 pin (z, q)) (D @ [b]) ds"
proof -
  let ?s = "pl_rx q"
  obtain n m c i u where n: "rx_inv (\<lambda>i. pin (B i)) 6 n (z, ?s) D (b # ds)"
      "newest 6 ?s = level pin B (rx_samples ?s - 1)" and timed: "timed_from pin B 6 n m c i u q"
      and len: "rx_samples ?s + left n (b # ds) + 2 = N"
    using inv by (auto simp: pll_inv_def)
  note lv = rx_inv_levels[OF n]
  have m: "rx_samples ?s = m + (i + u)" using timed by (simp add: timed_from_def)
  note room' = left_room[OF lv(2,3) len]
  note room = room'[unfolded m]
  obtain z' s' where step: "rx_bit7 (sampler pin q) (z, ?s) = (z', s')"
      "rx_inv (\<lambda>i. pin (B i)) 7 (next_run n b) (z', s') (D @ [b]) ds"
      "rx_samples s' = rx_samples ?s + (if z then 2 else 1)" "newest 7 s' = level pin B (rx_samples s' - 1)"
    using bit7.step_levels[OF n(1) _ sampler_levels[OF B timed lv(2) _ room(1,2)]] unfolding level_def by auto
  have "timed_from pin B 7 (next_run n b) m c (Suc i) (if z then Suc u else u) (snd (pll_bit7 pin (z, q)))"
    using timed_bit7[OF B timed lv(2,3) _ _ room(1,2)] lv(1) step(3) by (simp add: step(1) m)
  moreover have "pl_rx (snd (pll_bit7 pin (z, q))) = s'" "fst (pll_bit7 pin (z, q)) = z'"
    using step(1) by (simp, simp add: pll_bit7_def Let_def split_beta)
  ultimately show ?thesis
    unfolding pll_inv_def using step(2-4) room'(3) by (cases "pll_bit7 pin (z, q)") (auto intro!: exI)
qed

lemma pll_bit6_inv:
  assumes B: "cells pin B N" "steady B N"
    and inv: "pll_inv pin B N 5 (z, q) D (b # ds)" "\<not> bit (rx_shift (pl_rx q)) 7"
  shows "pll_inv pin B N 6 (pll_bit6 pin (z, q)) (D @ [b]) ds"
proof -
  let ?s = "pl_rx q"
  let ?read = "sampler pin (q\<lparr>pl_next := corrected q\<rparr>)"
  obtain n m c i u where n: "rx_inv (\<lambda>i. pin (B i)) 5 n (z, ?s) D (b # ds)"
      "newest 5 ?s = level pin B (rx_samples ?s - 1)" and timed: "timed_from pin B 5 n m c i u q"
      and len: "rx_samples ?s + left n (b # ds) + 2 = N"
    using inv(1) by (auto simp: pll_inv_def)
  note lv = rx_inv_levels[OF n]
  
  have m: "rx_samples ?s = m + (i + u)" using timed by (simp add: timed_from_def)
  note room' = left_room[OF lv(2,3) len]
  note room = room'[unfolded m]
  note d = corrected_bounds[OF B(2) timed lv(3) room(1)]
  have "?read (rx_samples ?s) AND USBMASK = pin (B (rx_samples ?s)) AND USBMASK"
      "z \<Longrightarrow> ?read (Suc (rx_samples ?s)) AND USBMASK = pin (B (Suc (rx_samples ?s))) AND USBMASK"
    using sample_in_bit[OF B(2) d, of 0] sample_in_bit[OF B(2) d, of 1] B(1) room(1,2)
    by (simp_all add: sampler_def m cells_def)
  from bit6.step_levels[OF n(1) inv(2) this]
  obtain z' s' where step: "rx_bit6 ?read (z, ?s) = (z', s')"
      "rx_inv (\<lambda>i. pin (B i)) 6 (next_run n b) (z', s') (D @ [b]) ds"
      "rx_samples s' = rx_samples ?s + (if z then 2 else 1)" "newest 6 s' = level pin B (rx_samples s' - 1)"
    unfolding level_def by auto
  have "timed_from pin B 6 (next_run n b) (m + (i + u)) (corrected q) 1 (if z then 1 else 0) (snd (pll_bit6 pin (z, q)))"
    using timed_bit6[OF B timed lv(2,3) _ room(1,2)] step(3) by (simp add: step(1) m)
  moreover have "pl_rx (snd (pll_bit6 pin (z, q))) = s'" "fst (pll_bit6 pin (z, q)) = z'"
    using step(1) by (simp_all add: pll_bit6_def corrected_def Let_def split_beta)
  ultimately show ?thesis
    unfolding pll_inv_def using step(2-4) room'(3) by (cases "pll_bit6 pin (z, q)") (auto intro!: exI)
qed

text \<open>A whole byte.\<close>

lemma rx_bit5_clear: "\<not> bit (rx_shift (snd (rx_bit5 line zs))) 7"
  by (simp add: rx_bit5_def andi_shift_def Let_def split_beta bit_and_iff)

lemma pll_bits_inv:
  assumes B: "cells pin B N" "steady B N"
    and inv: "pll_inv pin B N 0 (z, q) [bit c 0] (map (bit c) [1..<8] @ ds)" and cnt: "rx_cnt (pl_rx q) \<noteq> 0"
  shows "\<exists>zq. pll_bits pin (z, q) = Inr zq \<and> pll_inv pin B N 7 zq (map (bit c) [0..<8]) ds"
proof -
  have "pll_inv pin B N 0 (z, q) [bit c 0] (bit c 1 # [bit c 2, bit c 3, bit c 4, bit c 5, bit c 6, bit c 7] @ ds)"
    using inv byte_split[of c] unfolding byte_bits by (metis append.simps(2) list.inject)
  from bit1.pll_step_inv[OF B this] obtain z1 q1 where 1: "pll_step pin rx_bit1 (z, q) = Inr (z1, q1)"
      "pll_inv pin B N 1 (z1, q1) [bit c 0, bit c 1] (bit c 2 # [bit c 3, bit c 4, bit c 5, bit c 6, bit c 7] @ ds)"
    by (auto simp: seg_def)
  have "rx_cnt (pl_rx q1) \<noteq> 0"
    using rx_cnt_bit1[OF pll_step_InrD[OF 1(1), THEN conjunct1]] cnt by simp
  from bit2.pll_step_inv[OF B 1(2) this] obtain z2 q2 where 2: "pll_step pin rx_bit2 (z1, q1) = Inr (z2, q2)"
      "pll_inv pin B N 2 (z2, q2) [bit c 0, bit c 1, bit c 2] (bit c 3 # [bit c 4, bit c 5, bit c 6, bit c 7] @ ds)"
    by (auto simp: seg_def)
  from bit3.pll_step_inv[OF B 2(2)] obtain z3 q3 where
    3: "pll_step pin (\<lambda>line zs. Inr (rx_bit3 line zs)) (z2, q2) = (Inr (z3, q3) :: (rx_end \<times> nat) + bool \<times> pll)"
      "pll_inv pin B N 3 (z3, q3) [bit c 0, bit c 1, bit c 2, bit c 3] (bit c 4 # [bit c 5, bit c 6, bit c 7] @ ds)"
    by (auto simp: seg_def)
  from bit4.pll_step_inv[OF B 3(2)] obtain z4 q4 where
    4: "pll_step pin (\<lambda>line zs. Inr (rx_bit4 line zs)) (z3, q3) = (Inr (z4, q4) :: (rx_end \<times> nat) + bool \<times> pll)"
      "pll_inv pin B N 4 (z4, q4) [bit c 0, bit c 1, bit c 2, bit c 3, bit c 4] (bit c 5 # [bit c 6, bit c 7] @ ds)"
    by (auto simp: seg_def)
  from bit5.pll_step_inv[OF B 4(2)] obtain z5 q5 where
    5: "pll_step pin (\<lambda>line zs. Inr (rx_bit5 line zs)) (z4, q4) = (Inr (z5, q5) :: (rx_end \<times> nat) + bool \<times> pll)"
      "pll_inv pin B N 5 (z5, q5) [bit c 0, bit c 1, bit c 2, bit c 3, bit c 4, bit c 5] (bit c 6 # [bit c 7] @ ds)"
    by (auto simp: seg_def)
  have "\<not> bit (rx_shift (pl_rx q5)) 7"
    using pll_step_InrD[OF 5(1)] rx_bit5_clear by (metis Inr_inject snd_conv)
  from pll_bit6_inv[OF B 5(2) this] obtain z6 q6 where 6: "pll_bit6 pin (z5, q5) = (z6, q6)"
      "pll_inv pin B N 6 (z6, q6) [bit c 0, bit c 1, bit c 2, bit c 3, bit c 4, bit c 5, bit c 6] (bit c 7 # ds)"
    by (cases "pll_bit6 pin (z5, q5)") simp
  have "pll_inv pin B N 7 (pll_bit7 pin (z6, q6)) (map (bit c) [0..<8]) ds"
    using pll_bit7_inv[OF B 6(2)] by (simp add: byte_bits)
  then show ?thesis
    by (simp add: pll_bits_def next_step_def leave_def 1(1) 2(1) 3(1) 4(1) 5(1) 6(1))
qed

text \<open>
  How the loop ends: after SE0 it goes to \<open>se0\<close> 5 clocks after a sample in the second bit of SE0, or 11 when
  that sample was taken for a stuffed bit first.
\<close>

definition pll_full :: "u8 list \<Rightarrow> rx_end \<times> nat \<Rightarrow> bool" where
  "pll_full bytes e \<longleftrightarrow> rx_full bytes (fst e)"

definition pll_ended :: "(nat \<Rightarrow> nat) \<Rightarrow> nat \<Rightarrow> u8 list \<Rightarrow> rx_end \<times> nat \<Rightarrow> bool" where
  "pll_ended B N bytes e \<longleftrightarrow> rx_ended bytes (fst e) \<and> B (N - 1) + 5 \<le> snd e \<and> snd e \<le> B N + 10"

lemma pll_bits_overflow:
  assumes B: "cells pin B N" "steady B N"
    and inv: "pll_inv pin B N 0 (z, q) D (b # ds)" and cnt: "rx_cnt (pl_rx q) = 0"
  shows "\<exists>e. pll_bits pin (z, q) = Inl e \<and> pll_full (rx_stored (pl_rx q)) e"
proof -
  obtain z1 q1 where 1: "pll_step pin rx_bit1 (z, q) = Inr (z1, q1)"
    using bit1.pll_step_inv[OF B inv] by (auto simp: seg_def)
  note step = pll_step_InrD[OF this, THEN conjunct1]
  have "rx_cnt (pl_rx q1) = 0" "rx_stored (pl_rx q1) = rx_stored (pl_rx q)"
    using rx_cnt_bit1[OF step] rx_stored_bit1[OF step] cnt by simp_all
  then have "\<exists>s. pll_step pin rx_bit2 (z1, q1) = Inl (Overflow s) \<and> rx_stored s = rx_stored (pl_rx q)"
    by (simp add: pll_step_def rx_bit2_def subi_def Let_def)
  then show ?thesis
    by (auto simp: pll_bits_def next_step_def leave_def pll_full_def rx_full_def 1)
qed

text \<open>The first bit of the next byte, or SE0.\<close>

lemma pll_bit0_step: "pll_step pin (\<lambda>line zs. Inr (rx_bit0 line zs)) zq = Inr (pll_bit0 pin zq)"
  by (simp add: pll_step_def pll_bit0_def Let_def split_beta)

lemma pll_bit0_inv:
  assumes B: "cells pin B N" "steady B N" and inv: "pll_inv pin B N 7 (z, q) D (b # ds)"
  shows "pll_inv pin B N 0 (pll_bit0 pin (z, q)) [b] ds"
  using bit0.pll_step_inv[OF B inv] by (auto simp: pll_bit0_step seg_def)

lemma pll_bit0_end:
  assumes B: "cells pin B N" "steady B N" and inv: "pll_inv pin B N 7 (z, q) (map (bit c) [0..<8]) ds"
  shows "rx_stored (pl_rx (snd (pll_bit0 pin (z, q)))) = rx_stored (pl_rx q) @ [c]"
    and "ds = [] \<Longrightarrow> \<exists>e. pll_bits pin (pll_bit0 pin (z, q)) = Inl e \<and> pll_ended B N (rx_stored (pl_rx q) @ [c]) e"
proof -
  let ?s = "pl_rx q"
  let ?line = "\<lambda>i. pin (B i)"
  obtain n m t i u where n: "rx_inv ?line 7 n (z, ?s) (map (bit c) [0..<8]) ds"
      and timed: "timed_from pin B 7 n m t i u q" and len: "rx_samples ?s + left n ds + 2 = N"
    using inv by (auto simp: pll_inv_def)
  then have z: "z \<longleftrightarrow> n = 6" by (simp add: rx_inv_def)
  have room: "m + (i + u) + (if z then 2 else 1) < N"
    using len z timed by (auto simp: left_def timed_from_def)
  then have room': "m + (i + u) < N" "z \<Longrightarrow> Suc (m + (i + u)) < N" by (auto split: if_splits)
  let ?mixed = "mixed (sampler pin q) ?line z (rx_samples ?s)"
  have same: "same_levels ?mixed ?line"
    using mixed_levels[OF sampler_levels[OF B timed z _ room']] by simp
  obtain z' s' where s': "rx_bit0 ?mixed (z, ?s) = (z', s')" by fastforce
  have "Inr (rx_bit0 (sampler pin q) (z, ?s)) = (Inr (rx_bit0 ?mixed (z, ?s)) :: rx_end + bool \<times> receiver)"
    by (rule bit0.reads) (simp_all add: mixed_read)
  then have q': "pll_bit0 pin (z, q) = (z', pll_after pin z q s')"
    by (simp add: pll_bit0_def s')
  have inv': "rx_inv ?mixed 7 n (z, ?s) (map (bit c) [0..<8]) ds"
    using n by (simp only: rx_inv_same[OF same])
  show stored: "rx_stored (pl_rx (snd (pll_bit0 pin (z, q)))) = rx_stored ?s @ [c]"
    using rx_bit0_inv(1)[OF inv'] by (simp add: q' s')
  assume "ds = []"
  with rx_bit0_inv(3)[OF inv'] have "drives_SE0 (?mixed (rx_samples s'))" by (simp add: s')
  then have se0: "?line (rx_samples s') AND USBMASK = 0"
    using same by (simp add: drives_SE0_def same_levels_def)
  let ?q = "pll_after pin z q s'"
  have t: "rx_samples ?s = m + (i + u)" "pl_next q = t + 11 * (i + u)" "6 * u + n \<le> i + 6" "i \<le> 2"
      "B m + 1 \<le> t" "t \<le> B m + 8"
    using timed by (auto simp: timed_from_def seg_def)
  let ?j = "i + u + (if z then 2 else 1)"
  have "rx_samples s' = rx_samples ?s + (if z then 2 else 1)"
    using bit0.samples[OF arg_cong[OF s', of Inr]] .
  then have next_sample: "rx_samples s' = m + ?j" "pl_next ?q = t + 11 * ?j"
    using t(1,2) by (simp_all add: pll_after_def Let_def)
  have at: "in_bit B (m + ?j) (t + 11 * ?j)"
    using t(3,4) room by (intro sample_in_bit[OF B(2) t(5,6)]) (simp_all split: if_splits)
  then have "sampler pin ?q (rx_samples (pl_rx ?q)) AND USBMASK = 0"
    using B(1) se0 room next_sample by (simp add: sampler_def cells_def split: if_splits)
  then have "\<exists>s. pll_step pin rx_bit1 (z', ?q) = Inl (SE0 s) \<and> rx_stored s = rx_stored s'"
    by (simp add: pll_step_def rx_bit1_def in_x2_def Let_def)
  then obtain s where s: "pll_step pin rx_bit1 (z', ?q) = Inl (SE0 s)" "rx_stored s = rx_stored ?s @ [c]"
    using stored by (auto simp: q')
  have "m + ?j = N - 1" "Suc (m + ?j) = N"
    using len t(1) \<open>ds = []\<close> z by (auto simp: left_def)
  then have "B (N - 1) \<le> pl_next ?q" "pl_next ?q < B N"
    using at unfolding in_bit_def next_sample(2) by simp_all
  then show "\<exists>e. pll_bits pin (pll_bit0 pin (z, q)) = Inl e \<and> pll_ended B N (rx_stored ?s @ [c]) e"
    using s by (auto simp: q' pll_bits_def next_step_def leave_def pll_ended_def rx_ended_def)
qed

section \<open>Whole packets\<close>

definition pll_at ::
  "(nat \<Rightarrow> u8) \<Rightarrow> (nat \<Rightarrow> nat) \<Rightarrow> nat \<Rightarrow> nat \<Rightarrow> bool \<times> pll \<Rightarrow> bool list \<Rightarrow> bool list \<Rightarrow> bool" where
  "pll_at pin B N k zq D ds \<longleftrightarrow> cells pin B N \<and> steady B N \<and> pll_inv pin B N k zq D ds"

interpretation pll_loop: byte_loop "pll_bits pin" "pll_bit0 pin" "pllLoop pin" "pll_at pin B N" pl_rx pll_full "pll_ended B N"
  for pin B N
proof
  show "pllLoop pin zs = (case pll_bits pin zs of Inl e \<Rightarrow> e | Inr zs \<Rightarrow> pllLoop pin (pll_bit0 pin zs))" for zs
    by (rule pllLoop.simps)
  show "\<exists>e. pll_bits pin zs = Inl e \<and> pll_full (rx_stored (pl_rx (snd zs))) e"
    if "pll_at pin B N 0 zs D ds" "ds \<noteq> []" "rx_cnt (pl_rx (snd zs)) = 0" for zs D ds
    using pll_bits_overflow[of pin B N "fst zs" "snd zs" D "hd ds" "tl ds"] that by (simp add: pll_at_def)
  show "\<exists>zs'. pll_bits pin zs = Inr zs' \<and> pll_at pin B N 7 zs' (map (bit c) [0..<8]) ds \<and>
      rx_stored (pl_rx (snd zs')) = rx_stored (pl_rx (snd zs)) \<and> rx_cnt (pl_rx (snd zs')) = rx_cnt (pl_rx (snd zs)) - 1"
    if "pll_at pin B N 0 zs [bit c 0] (map (bit c) [1..<8] @ ds)" "rx_cnt (pl_rx (snd zs)) \<noteq> 0" for zs ds and c :: u8
    using pll_bits_inv[of pin B N "fst zs" "snd zs" c ds] pll_bits_regs[of pin zs] that unfolding pll_at_def by fastforce
  show "rx_cnt (pl_rx (snd (pll_bit0 pin zs))) = rx_cnt (pl_rx (snd zs))" for zs
    using pl_rx_step(4)[of pin "fst zs" "snd zs"] by simp
  show "rx_stored (pl_rx (snd (pll_bit0 pin zs))) = rx_stored (pl_rx (snd zs)) @ [c]"
    if "pll_at pin B N 7 zs (map (bit c) [0..<8]) ds" for zs ds and c :: u8
    using pll_bit0_end(1)[of pin B N "fst zs" "snd zs" c ds] that by (simp add: pll_at_def)
  show "pll_at pin B N 0 (pll_bit0 pin zs) [b] ds"
    if "pll_at pin B N 7 zs (map (bit c) [0..<8]) (b # ds)" for zs b ds and c :: u8
    using pll_bit0_inv[of pin B N "fst zs" "snd zs" "map (bit c) [0..<8]" b ds] that by (simp add: pll_at_def)
  show "\<exists>e. pll_bits pin (pll_bit0 pin zs) = Inl e \<and> pll_ended B N (rx_stored (pl_rx (snd (pll_bit0 pin zs)))) e"
    if "pll_at pin B N 7 zs (map (bit c) [0..<8]) []" for zs and c :: u8
    using pll_bit0_end[of pin B N "fst zs" "snd zs" c "[]"] that by (simp add: pll_at_def)
qed

text \<open>From the first bit on, sampled 3 to 6 clocks after its start, whatever was left in \<open>r0\<close>.\<close>

lemma pll_haveTwoBitsK_receives:
  assumes B: "cells pin B N" "steady B N" and packet: "packet_on (\<lambda>i. pin (B i)) (pid # bytes)" "valid_pid pid"
    and c: "B 0 + 3 \<le> c" "c \<le> B 0 + 6" and len: "length (stuff 1 (bits_of_bytes (pid # bytes))) + 2 = N"
  shows "if length (pid # bytes) \<le> USB_BUFSIZE
    then pll_ended B N (pid # bytes) (pll_haveTwoBitsK pin c r0)
    else pll_full (take USB_BUFSIZE (pid # bytes)) (pll_haveTwoBitsK pin c r0)"
proof -
  let ?q = "\<lparr>pl_rx = rx_first (pin c), pl_r0 = r0, pl_phase = 0, pl_next = c + 11\<rparr>"
  have start: "pll_haveTwoBitsK pin c r0 = pllLoop pin (False, ?q)"
    by (simp add: pll_haveTwoBitsK_def rx_first_def in_x1_def Let_def)
  have "in_bit B 0 c" using steady_bounds[OF B(2), of 1 0] c len by (simp add: in_bit_def)
  then have first: "bit (pin c) USBMINUS = bit (pin (B 0)) USBMINUS"
    using cells_level[OF B(1)] len by (simp add: level_def)
  have "timed_from pin B 0 (if bit pid 0 then 1 else 0) 0 c 1 0 ?q"
    using c by (simp add: timed_from_def seg_def)
  moreover have "newest 0 (pl_rx ?q) = level pin B (rx_samples (pl_rx ?q) - 1)"
    using first by (simp add: newest_def rx_first_def level_def)
  moreover have "rx_inv (\<lambda>i. pin (B i)) 0 (if bit pid 0 then 1 else 0) (False, pl_rx ?q) [bit pid 0]
      (map (bit pid) [1..<8] @ bits_of_bytes bytes)"
    using rx_first_inv[OF packet first] by simp
  moreover have "rx_samples (pl_rx ?q) + left (if bit pid 0 then 1 else 0) (map (bit pid) [1..<8] @ bits_of_bytes bytes) + 2 = N"
    using len stuff_pid[OF packet(2), of bytes] by (simp add: bits_of_bytes_Cons byte_split left_def split: if_splits)
  ultimately have "pll_at pin B N 0 (False, ?q) [bit pid 0] (map (bit pid) [1..<8] @ bits_of_bytes bytes)"
    unfolding pll_at_def pll_inv_def prod.case using B by blast
  from pll_loop.loop_receives[OF this] show ?thesis by (simp add: start split: if_splits)
qed

end
