(* ===== verification/Usb_Answer.thy ===== *)
theory Usb_Answer
  imports Usb_Clock
begin

unbundle bit_operations_syntax

text \<open>
  What the interrupt routine sends after a packet, and when: the handlers of
  \<open>firmware/src/usbdrv/asmcommon.inc\<close> once more, with their clocks from \<open>se0\<close> on, up to the send routine
  of \<open>usbdrvasm165.inc\<close>. The models of the same handlers in \<open>Usb_Transceiver\<close> say what they do to the
  state of the driver and what they answer.
\<close>

section \<open>The way to the send routine\<close>

text \<open>What the routine finds when it sends: where \<open>usbTxBuf\<close> is, the port, a register and the carry.\<close>

record tx_env =
  env_txbuf :: nat
  env_port :: u8
  env_x2 :: u8
  env_carry :: bool

definition sendCnt :: "tx_env \<Rightarrow> u8 \<Rightarrow> nat \<Rightarrow> (nat \<times> u8) list" where
  "sendCnt env cnt t = sendCntAndReti (\<lambda>_. 0) cnt (env_port env) (env_x2 env) (env_carry env) t"

definition sendAckAndReti :: "tx_env \<Rightarrow> nat \<Rightarrow> (nat \<times> u8) list" where
  "sendAckAndReti env t = sendCnt env USBPID_ACK (t + 1)"

definition sendNakAndReti :: "tx_env \<Rightarrow> nat \<Rightarrow> (nat \<times> u8) list" where
  "sendNakAndReti env t = sendCnt env USBPID_NAK (t + 3)"

definition usbSend :: "tx_env \<Rightarrow> usbdrv \<Rightarrow> nat \<Rightarrow> (nat \<times> u8) list" where
  "usbSend env u t =
     usbSendAndReti (\<lambda>a. usbTxBuf u ! (a - env_txbuf env)) (env_txbuf env) (usbTxLen u)
       (env_port env) (env_x2 env) (env_carry env) t"

text \<open>The handlers, entered at clock \<open>t\<close>; a branch that is taken and a jump take two clocks.\<close>

definition handleData_sends :: "tx_env \<Rightarrow> u8 \<Rightarrow> usbdrv \<Rightarrow> nat \<Rightarrow> (nat \<times> u8) list" where
  "handleData_sends env cnt u t =
     (if usbCurrentTok u = 0 then []
      else (let t = t + 4
            in if usbRxLen u \<noteq> 0 then sendNakAndReti env (t + 5)
               else (let t = t + 4
                     in if cnt < 4 then sendAckAndReti env (t + 3)
                        else sendAckAndReti env (t + 8))))"

definition handleIn_sends :: "tx_env \<Rightarrow> usbdrv \<Rightarrow> nat \<Rightarrow> (nat \<times> u8) list" where
  "handleIn_sends env u t =
     (if 1 \<le> sint (usbRxLen u) then sendNakAndReti env (t + 5)
      else (let t = t + 7
            in if usbTxLen u AND 0x10 \<noteq> 0 then sendCnt env (usbTxLen u) (t + 3)
               else usbSend env u (t + 8)))"

text \<open>From \<open>se0\<close> on, with \<open>cnt\<close> bytes in \<open>usbRxBuf\<close>.\<close>

definition se0_sends :: "tx_env \<Rightarrow> u8 \<Rightarrow> usbdrv \<Rightarrow> nat \<Rightarrow> (nat \<times> u8) list" where
  "se0_sends env cnt u t =
     (let token = usbRxBuf u ! 0;
          t = t + 8
      in if token = USBPID_DATA0 then handleData_sends env cnt u (t + 3)
         else if token = USBPID_DATA1 then handleData_sends env cnt u (t + 5)
         else if push_bit 1 (usbRxBuf u ! 1) \<noteq> usbDeviceAddr u then []
         else if token = USBPID_IN then handleIn_sends env u (t + 14)
         else [])"

definition rx_end_sends :: "tx_env \<Rightarrow> rx_end \<times> nat \<Rightarrow> usbdrv \<Rightarrow> (nat \<times> u8) list" where
  "rx_end_sends env e u =
     (case fst e of
        SE0 s \<Rightarrow>
          se0_sends env (of_nat (length (rx_stored s)))
            (u\<lparr>usbRxBuf := rx_stored s @ drop (length (rx_stored s)) (usbRxBuf u)\<rparr>) (snd e)
      | Overflow s \<Rightarrow> [])"

section \<open>It is the answer of the packet level, on the bus in time\<close>

text \<open>A packet of \<open>bytes\<close> whose first bit is on the bus at clock \<open>t\<close>.\<close>

definition codes :: "u8 list \<Rightarrow> nat \<Rightarrow> (nat \<times> u8) list \<Rightarrow> bool" where
  "codes bytes t out \<longleftrightarrow>
     (\<exists>ps se0 idle stored. out = packet_out t ps se0 idle stored \<and>
        list_all2 drives ps (nrzi True (stuff 0 (bits_of_bytes (0x80 # bytes)))) \<and>
        drives_SE0 se0 \<and> drives idle True)"

fun answered :: "usb_answer \<Rightarrow> nat \<Rightarrow> nat \<Rightarrow> (nat \<times> u8) list \<Rightarrow> bool" where
  "answered No_Answer t t' out = (out = [])"
| "answered (Handshake h) t t' out = (\<exists>k\<in>{t..t'}. codes [h] k out)"
| "answered (Data_Packet bytes) t t' out = (\<exists>k\<in>{t..t'}. codes bytes k out)"

text \<open>What sending relies on: the length of the packet to send, its buffer, and D+ low at the port.\<close>

definition can_send :: "tx_env \<Rightarrow> usbdrv \<Rightarrow> bool" where
  "can_send env u \<longleftrightarrow>
     \<not> bit (env_port env) USBPLUS \<and> length (usbTxBuf u) = USB_BUFSIZE \<and>
     (usbTxLen u AND 0x10 = 0 \<longrightarrow> 0 < usbTxLen u \<and> usbTxLen u \<le> 12)"

lemma sendCnt_answered:
  assumes "can_send env u" "lo \<le> t + 15" "t + 15 \<le> hi"
  shows "answered (Handshake h) lo hi (sendCnt env h t)"
proof -
  have "\<not> bit (env_port env) USBPLUS" using assms(1) by (simp add: can_send_def)
  from usbSendAndReti_sends[OF _ _ this, of 2 "(\<lambda>_. 0)(0 := h)" 0 "env_x2 env" "env_carry env" "t + 4", simplified]
  have "codes [h] (t + 15) (sendCnt env h t)"
    unfolding codes_def sendCnt_def sendCntAndReti_def Let_def by (simp add: add.commute) blast
  then show ?thesis using assms(2,3) by auto
qed

lemma usbSend_answered:
  assumes "can_send env u" "usbTxLen u AND 0x10 = 0" "lo \<le> t + 11" "t + 11 \<le> hi"
  shows "answered (Data_Packet (take (unat (usbTxLen u) - 1) (usbTxBuf u))) lo hi (usbSend env u t)"
proof -
  have len: "0 < usbTxLen u" "usbTxLen u \<le> 12" "\<not> bit (env_port env) USBPLUS" "length (usbTxBuf u) = 11"
    using assms by (simp_all add: can_send_def)
  then have "unat (usbTxLen u) \<le> 12" by (simp add: word_le_nat_alt)
  then have "map (\<lambda>i. usbTxBuf u ! (env_txbuf env + i - env_txbuf env)) [0..<unat (usbTxLen u) - 1] =
      take (unat (usbTxLen u) - 1) (usbTxBuf u)"
    using len(4) by (intro nth_equalityI) simp_all
  then have "codes (take (unat (usbTxLen u) - 1) (usbTxBuf u)) (t + 11) (usbSend env u t)"
    using usbSendAndReti_sends[OF len(1-3), of "\<lambda>a. usbTxBuf u ! (a - env_txbuf env)" "env_txbuf env" "env_x2 env"
        "env_carry env" t]
    unfolding codes_def usbSend_def by fastforce
  then show ?thesis using assms(3,4) by auto
qed

lemma handleData_answered:
  assumes "can_send env u" "lo \<le> t + 27" "t + 32 \<le> hi"
  shows "answered (snd (handleData cnt u)) lo hi (handleData_sends env cnt u t)"
  using assms
  by (auto simp: handleData_def handleData_sends_def sendAckAndReti_def sendNakAndReti_def Let_def
      simp del: answered.simps(2) intro!: sendCnt_answered[OF assms(1)])

lemma handleIn_answered:
  assumes "can_send env u" "lo \<le> t + 23" "t + 26 \<le> hi"
  shows "answered (snd (handleIn u)) lo hi (handleIn_sends env u t)"
  using assms
  by (auto simp: handleIn_def handleIn_sends_def sendNakAndReti_def Let_def
      simp del: answered.simps(2,3) One_nat_def intro!: sendCnt_answered[OF assms(1)] usbSend_answered[OF assms(1)])

text \<open>Whatever the packet, the first bit of the answer is on the bus 38 to 48 clocks after \<open>se0\<close>.\<close>

lemma rx_end_answered:
  assumes "can_send env u" "if length pkt \<le> USB_BUFSIZE then rx_ended pkt (fst e) else rx_full (take USB_BUFSIZE pkt) (fst e)"
    and "lo \<le> snd e + 38" "snd e + 48 \<le> hi"
  shows "answered (snd (usb_rx_packet pkt u)) lo hi (rx_end_sends env e u)"
proof (cases "length pkt \<le> USB_BUFSIZE")
  case True
  then obtain s where s: "fst e = SE0 s" "rx_stored s = pkt" using assms(2) by (auto simp: rx_ended_def)
  let ?u = "u\<lparr>usbRxBuf := pkt @ drop (length pkt) (usbRxBuf u)\<rparr>"
  have u: "can_send env ?u" using assms(1) by (simp add: can_send_def)
  have sends: "rx_end_sends env e u = se0_sends env (of_nat (length pkt)) ?u (snd e)"
    by (simp add: rx_end_sends_def s)
  show ?thesis
    unfolding sends using True assms(3,4)
    by (auto simp: se0_sends_def usb_rx_packet_def Let_def
        intro!: handleData_answered[OF u] handleIn_answered[OF u])
next
  case False
  then obtain s where "fst e = Overflow s" using assms(2) by (auto simp: rx_full_def)
  then show ?thesis using False by (simp add: rx_end_sends_def usb_rx_packet_def Let_def)
qed

end
