(* ===== verification/Usb_Sync.thy ===== *)
theory Usb_Sync
  imports Usb_Recovery Usb_Answer
begin

unbundle bit_operations_syntax

text \<open>
  The interrupt routine from its entry at \<open>waitForJ\<close>: the search for the end of the sync pattern in
  \<open>firmware/src/usbdrv/usbdrvasm165.inc\<close> at the clock, the receive loop it starts, and what becomes of the
  packet.
\<close>

section \<open>The search for the two bits K\<close>

text \<open>
  \<open>waitForJ\<close> at clock \<open>c\<close>: three clocks to \<open>waitForK\<close> when J is seen or \<open>YL\<close> has run over, four
  for another turn.
\<close>

function waitForJ :: "(nat \<Rightarrow> u8) \<Rightarrow> u8 \<Rightarrow> nat \<Rightarrow> nat" where
  "waitForJ pin yl c =
     (let yl = yl + 1
      in if bit (pin (c + 1)) USBMINUS then c + 3
         else if yl \<noteq> 0 then waitForJ pin yl (c + 4)
         else c + 3)"
  by pat_completeness auto
termination
proof (relation "measure (\<lambda>(pin, yl, c). 255 - unat yl)", simp)
  fix pin :: "nat \<Rightarrow> u8" and yl yl' :: u8 and c :: nat
  assume "yl' = yl + 1" "yl' \<noteq> 0"
  then have "unat yl' = unat yl + 1" using unatSuc[of yl] by (simp add: add.commute)
  moreover have "unat yl' < 256" using unsigned_less[of yl'] by simp
  ultimately show "((pin, yl', c + 4), pin, yl, c) \<in> measure (\<lambda>(pin, yl, c). 255 - unat yl)" by simp
qed

declare waitForJ.simps [simp del]

text \<open>
  \<open>waitForK\<close> at clock \<open>c\<close>: six looks at the line, two clocks apart. \<open>foundK\<close> looks again 13 clocks after
  the one that saw K, and 26 clocks after that one the first bit is sampled, or the search is back at
  \<open>waitForK\<close> after 21.
\<close>

definition sixLooks :: "(nat \<Rightarrow> u8) \<Rightarrow> nat \<Rightarrow> nat option" where
  "sixLooks pin c = List.find (\<lambda>t. \<not> bit (pin t) USBMINUS) [c, c + 2, c + 4, c + 6, c + 8, c + 10]"

datatype sync = SofError | TwoBitsK nat

partial_function (option) waitForK :: "(nat \<Rightarrow> u8) \<Rightarrow> nat \<Rightarrow> sync option" where
  "waitForK pin c =
     (case sixLooks pin c of
        None \<Rightarrow> Some SofError
      | Some t \<Rightarrow> if \<not> bit (pin (t + 13)) USBMINUS then Some (TwoBitsK (t + 26)) else waitForK pin (t + 21))"

text \<open>
  One packet through the interrupt routine, entered at clock \<open>c\<close>: the state of the driver, the answer, and what
  is written to the port. \<open>sofError\<close> returns at once.
\<close>

definition usb_rx_clock ::
  "(nat \<Rightarrow> u8) \<Rightarrow> u8 \<Rightarrow> nat \<Rightarrow> u8 \<Rightarrow> tx_env \<Rightarrow> usbdrv \<Rightarrow>
   ((usbdrv \<times> usb_answer) \<times> (nat \<times> u8) list) option" where
  "usb_rx_clock pin yl c x2 env u =
     (case waitForK pin (waitForJ pin yl c) of
        None \<Rightarrow> None
      | Some SofError \<Rightarrow> Some ((u, No_Answer), [])
      | Some (TwoBitsK c) \<Rightarrow>
          (let e = pll_haveTwoBitsK pin c x2
           in Some (usb_rx_end (fst e) u, rx_end_sends env e u)))"

text \<open>On an idle line the search gives up at once, and nothing has changed.\<close>

lemma idle_line_ignored:
  assumes "\<And>t. c \<le> t \<Longrightarrow> bit (pin t) USBMINUS"
  shows "usb_rx_clock pin yl c x2 env u = Some ((u, No_Answer), [])"
proof -
  have "waitForJ pin yl c = c + 3" by (simp add: waitForJ.simps[of pin yl c] assms)
  moreover have "sixLooks pin (c + 3) = None" by (simp add: sixLooks_def assms)
  ultimately show ?thesis by (simp add: usb_rx_clock_def waitForK.simps[of pin "c + 3"])
qed

section \<open>The search ends at the right bit\<close>

text \<open>A whole packet on the bus, its sync byte first.\<close>

definition sync_packet_on :: "(nat \<Rightarrow> u8) \<Rightarrow> u8 list \<Rightarrow> bool" where
  "sync_packet_on line bytes \<longleftrightarrow> carries line 0 True (stuff 0 (bits_of_bytes (0x80 # bytes)))"

text \<open>The number of its bits, the two of SE0 included.\<close>

definition packet_bits :: "u8 list \<Rightarrow> nat" where
  "packet_bits bytes = length (stuff 0 (bits_of_bytes (0x80 # bytes))) + 2"

lemma stuff_sync: "stuff 0 (bits_of_bytes (0x80 # bytes)) = map (bit (0x80 :: u8)) [0..<8] @ stuff 1 (bits_of_bytes bytes)"
  by (simp add: bits_of_bytes_Cons byte_bits)

lemma packet_bits_eq: "packet_bits bytes = length (stuff 1 (bits_of_bytes bytes)) + 10"
  by (simp add: packet_bits_def stuff_sync)

lemma carries_shift: "carries line (p + k) l bs = carries (\<lambda>i. line (i + k)) p l bs"
  by (induction bs arbitrary: p l) (simp_all flip: add_Suc)

lemma sync_packet:
  assumes "sync_packet_on line bytes"
  shows "i < 8 \<Longrightarrow> bit (line i) USBMINUS \<longleftrightarrow> i \<in> {1, 3, 5}" "packet_on (\<lambda>i. line (i + 8)) bytes"
  using assms carries_shift[of line 0 8]
  by (auto simp: sync_packet_on_def packet_on_def stuff_sync byte_bits drives_def eval_nat_numeral less_Suc_eq)

lemma find_second:
  fixes w n :: nat
  assumes "n < 6" "P (w + 2 * n)" "\<forall>k<n. \<not> P (w + 2 * k)"
  shows "List.find P [w, w + 2, w + 4, w + 6, w + 8, w + 10] = Some (w + 2 * n)"
proof -
  have "n \<in> {0, 1, 2, 3, 4, 5}" using assms(1) by auto
  then show ?thesis using assms(2,3) by (auto simp: All_less_Suc eval_nat_numeral)
qed

text \<open>
  The looks at the line start in the J before bit \<open>j\<close>, or with that bit; they find its start.
\<close>

definition looking :: "(nat \<Rightarrow> nat) \<Rightarrow> nat \<Rightarrow> nat \<Rightarrow> bool" where
  "looking B j w \<longleftrightarrow> B (j - 1) + 2 \<le> w \<and> w \<le> B j + 1"

lemma looking_finds:
  assumes B: "cells pin B N" "steady B N" "10 \<le> N" and sync: "sync_packet_on (\<lambda>i. pin (B i)) bytes"
    and j: "j \<in> {2, 4, 6}" and w: "looking B j w"
  shows "\<exists>t. sixLooks pin w = Some t \<and>
    B j \<le> t \<and> t \<le> B j + 1"
proof -
  have j1: "Suc (j - 1) = j" using j by auto
  have len: "B j \<le> B (j - 1) + 12" "B j + 10 \<le> B (Suc j)"
    using steady_bounds[OF B(2), of 1 "j - 1"] steady_bounds[OF B(2), of 1 j] B(3) j j1 by auto
  have J: "bit (pin t) USBMINUS" if "B (j - 1) \<le> t" "t < B j" for t
    using cells_level[OF B(1), of "j - 1" t] sync_packet(1)[OF sync, of "j - 1"] that j j1 B(3)
    by (auto simp: in_bit_def level_def)
  have K: "\<not> bit (pin t) USBMINUS" if "B j \<le> t" "t \<le> B j + 1" for t
    using cells_level[OF B(1), of j t] sync_packet(1)[OF sync, of j] that j len B(3)
    by (auto simp: in_bit_def level_def)
  define n where "n = (B j + 1 - w) div 2"
  have t: "B j \<le> w + 2 * n" "w + 2 * n \<le> B j + 1" "n < 6"
    using w len unfolding n_def looking_def by linarith+
  have "sixLooks pin w = Some (w + 2 * n)"
    unfolding sixLooks_def
  proof (rule find_second[OF t(3)])
    show "\<not> bit (pin (w + 2 * n)) USBMINUS" by (rule K[OF t(1,2)])
    show "\<forall>k<n. \<not> \<not> bit (pin (w + 2 * k)) USBMINUS"
      using w t(2) by (auto simp: looking_def intro!: J)
  qed
  then show ?thesis using t by blast
qed

lemma waitForK_retry:
  assumes B: "cells pin B N" "steady B N" "10 \<le> N" and sync: "sync_packet_on (\<lambda>i. pin (B i)) bytes"
    and j: "j \<in> {2, 4}" and w: "looking B j w"
  shows "\<exists>w'. waitForK pin w = waitForK pin w' \<and> looking B (j + 2) w'"
proof -
  obtain t where t: "sixLooks pin w = Some t"
      "B j \<le> t" "t \<le> B j + 1"
    using looking_finds[OF B sync _ w] j by auto
  have steady: "B (j + 1) \<le> B j + 12" "B j + 21 \<le> B (j + 2)"
    using steady_bounds[OF B(2), of 1 j] steady_bounds[OF B(2), of 2 j] B(3) j by auto
  have "bit (pin (t + 13)) USBMINUS"
    using cells_level[OF B(1), of "j + 1" "t + 13"] sync_packet(1)[OF sync, of "j + 1"] j t(2,3) steady B(3)
    by (auto simp: in_bit_def level_def)
  then have "waitForK pin w = waitForK pin (t + 21)"
    by (subst waitForK.simps) (simp add: t(1))
  moreover have "looking B (j + 2) (t + 21)"
    using t(2,3) steady by (simp add: looking_def)
  ultimately show ?thesis by blast
qed

lemma waitForK_last:
  assumes B: "cells pin B N" "steady B N" "10 \<le> N" and sync: "sync_packet_on (\<lambda>i. pin (B i)) bytes" and w: "looking B 6 w"
  shows "\<exists>c. waitForK pin w = Some (TwoBitsK c) \<and> B 8 + 3 \<le> c \<and> c \<le> B 8 + 6"
proof -
  obtain t where t: "sixLooks pin w = Some t"
      "B 6 \<le> t" "t \<le> B 6 + 1"
    using looking_finds[OF B sync _ w] by auto
  have steady: "B 7 \<le> B 6 + 12" "B 6 + 21 \<le> B 8" "B 8 \<le> B 6 + 23"
    using steady_bounds[OF B(2), of 1 6] steady_bounds[OF B(2), of 2 6] B(3) by simp_all
  have "\<not> bit (pin (t + 13)) USBMINUS"
    using cells_level[OF B(1), of 7 "t + 13"] sync_packet(1)[OF sync, of 7] t(2,3) steady B(3)
    by (auto simp: in_bit_def level_def)
  then have "waitForK pin w = Some (TwoBitsK (t + 26))"
    by (subst waitForK.simps) (simp add: t(1))
  then show ?thesis using t(2,3) steady by auto
qed

lemma waitForK_finds:
  assumes "cells pin B N" "steady B N" "10 \<le> N" "sync_packet_on (\<lambda>i. pin (B i)) bytes" "j \<in> {2, 4, 6}" "looking B j w"
  shows "\<exists>c. waitForK pin w = Some (TwoBitsK c) \<and> B 8 + 3 \<le> c \<and> c \<le> B 8 + 6"
  using assms(5,6)
proof (elim insertE emptyE)
  show ?thesis if "looking B j w" "j = 6" for j using waitForK_last[OF assms(1-4)] that by simp
  then have from_4: "\<exists>c. waitForK pin w = Some (TwoBitsK c) \<and> B 8 + 3 \<le> c \<and> c \<le> B 8 + 6" if "looking B 4 w" for w
    using waitForK_retry[OF assms(1-4), of 4 w] waitForK_last[OF assms(1-4)] that by fastforce
  show ?thesis if "looking B j w" "j = 4" for j using from_4 that by simp
  show ?thesis if "looking B j w" "j = 2" for j
    using waitForK_retry[OF assms(1-4), of 2 w] from_4 that by fastforce
qed

lemma waitForJ_leaves:
  assumes K: "\<And>t. c + 1 \<le> t \<Longrightarrow> t < e \<Longrightarrow> \<not> bit (pin t) USBMINUS"
    and J: "\<And>t. e \<le> t \<Longrightarrow> t < e + 4 \<Longrightarrow> bit (pin t) USBMINUS"
    and "e \<le> c + 1 + 4 * n" "c + 1 < e + 4" "unat yl + n < 255"
  shows "e + 2 \<le> waitForJ pin yl c \<and> waitForJ pin yl c < e + 6"
  using assms(1,3-5)
proof (induction n arbitrary: c yl)
  case 0
  then show ?case using J[of "c + 1"] by (simp add: waitForJ.simps[of pin yl c])
next
  case (Suc n)
  show ?case
  proof (cases "e \<le> c + 1")
    case True
    then show ?thesis using J[of "c + 1"] Suc.prems by (simp add: waitForJ.simps[of pin yl c])
  next
    case False
    have "unat (yl + 1) = Suc (unat yl)" "yl + 1 \<noteq> 0"
      using Suc.prems(4) by (simp_all add: unat_word_ariths flip: unat_eq_zero)
    moreover have "waitForJ pin yl c = waitForJ pin (yl + 1) (c + 4)" if "yl + 1 \<noteq> 0"
      using Suc.prems(1)[of "c + 1"] False that by (simp add: waitForJ.simps[of pin yl c] Let_def)
    ultimately show ?thesis
      using Suc.IH[of "c + 4" "yl + 1"] Suc.prems False by simp
  qed
qed

lemma waitForJ_finds:
  assumes B: "cells pin B N" "steady B N" "10 \<le> N" and sync: "sync_packet_on (\<lambda>i. pin (B i)) bytes"
    and c: "in_bit B i (c + 1)" "i < 6" and yl: "yl < 0x80"
  shows "\<exists>j\<in>{2, 4, 6}. looking B j (waitForJ pin yl c)"
proof (cases "odd i")
  case True
  have "i \<in> {0, 1, 2, 3, 4, 5}" using c(2) by auto
  then have i: "i \<in> {1, 3, 5}" using True by auto
  then have "bit (pin (c + 1)) USBMINUS"
    using cells_level[OF B(1) _ c(1)] sync_packet(1)[OF sync, of i] c(2) B(3) by (auto simp: level_def)
  then have "waitForJ pin yl c = c + 3" by (simp add: waitForJ.simps[of pin yl c])
  moreover have "looking B (Suc i) (c + 3)" using c(1) by (simp add: looking_def in_bit_def)
  moreover have "Suc i \<in> {2, 4, 6}" using i by auto
  ultimately show ?thesis by metis
next
  case False
  have "i \<in> {0, 1, 2, 3, 4, 5}" using c(2) by auto
  then have i: "i \<in> {0, 2, 4}" using False by auto
  have len: "B (Suc i) \<le> B i + 12" "B (Suc i) + 10 \<le> B (Suc (Suc i))"
    using steady_bounds[OF B(2), of 1 i] steady_bounds[OF B(2), of 1 "Suc i"] B(3) c(2) by simp_all
  have K: "\<not> bit (pin t) USBMINUS" if "in_bit B i t" for t
    using cells_level[OF B(1) _ that] sync_packet(1)[OF sync, of i] i B(3) by (auto simp: level_def)
  have J: "bit (pin t) USBMINUS" if "in_bit B (Suc i) t" for t
    using cells_level[OF B(1) _ that] sync_packet(1)[OF sync, of "Suc i"] i B(3) by (auto simp: level_def)
  have "unat yl < 128" using yl by (simp add: word_less_nat_alt)
  then have "B (Suc i) + 2 \<le> waitForJ pin yl c \<and> waitForJ pin yl c < B (Suc i) + 6"
    using c(1) len by (intro waitForJ_leaves[where n = 3] K J) (simp_all add: in_bit_def)
  then have "looking B (Suc (Suc i)) (waitForJ pin yl c)" using len by (simp add: looking_def)
  moreover have "Suc (Suc i) \<in> {2, 4, 6}" using i by auto
  ultimately show ?thesis by metis
qed

section \<open>The routine is right at the clock\<close>

lemma steady_shift: "steady B (N + m) \<Longrightarrow> steady (\<lambda>i. B (i + m)) N"
  using steady_bounds[of B "N + m" _ "_ + m"] unfolding steady_def by (simp add: add.assoc add.commute[of m])

lemma cells_shift: "cells pin B (N + m) \<Longrightarrow> cells pin (\<lambda>i. B (i + m)) N"
  by (simp add: cells_def in_bit_def)

text \<open>Entered during the first six bits, the routine ends the search with the right bit and the loop after SE0.\<close>

lemma packet_clock:
  assumes "cells pin B (packet_bits (pid # bytes))" "steady B (packet_bits (pid # bytes))"
    and "sync_packet_on (\<lambda>i. pin (B i)) (pid # bytes)" "valid_pid pid"
    and "in_bit B i (c + 1)" "i < 6" "yl < 0x80"
  defines "N \<equiv> packet_bits (pid # bytes)"
  obtains e where
    "usb_rx_clock pin yl c x2 env u = Some (usb_rx_packet (pid # bytes) u, rx_end_sends env e u)"
    "if length (pid # bytes) \<le> USB_BUFSIZE then rx_ended (pid # bytes) (fst e) \<and> B (N - 1) + 5 \<le> snd e \<and> snd e \<le> B N + 10
     else rx_full (take USB_BUFSIZE (pid # bytes)) (fst e)"
proof -
  let ?n = "length (stuff 1 (bits_of_bytes (pid # bytes))) + 2"
  have n: "packet_bits (pid # bytes) = ?n + 8" by (simp add: packet_bits_eq)
  have B: "cells pin B (?n + 8)" "steady B (?n + 8)" "10 \<le> ?n + 8"
    using assms(1,2) unfolding n by simp_all
  obtain j where "j \<in> {2, 4, 6}" "looking B j (waitForJ pin yl c)"
    using waitForJ_finds[OF B assms(3,5-7)] by blast
  then obtain k where k: "waitForK pin (waitForJ pin yl c) = Some (TwoBitsK k)" "B 8 + 3 \<le> k" "k \<le> B 8 + 6"
    using waitForK_finds[OF B assms(3)] by blast
  let ?e = "pll_haveTwoBitsK pin k x2"
  note loop = pll_haveTwoBitsK_receives[OF cells_shift[OF B(1)] steady_shift[OF B(2)] sync_packet(2)[OF assms(3)] assms(4),
      of k x2, simplified, OF k(2,3)]
  have "usb_rx_end (fst ?e) u = usb_rx_packet (pid # bytes) u"
    using loop by (intro usb_rx_end_packet)
      (auto simp: pll_ended_def pll_full_def rx_ended_def rx_full_def split: if_splits)
  then have "usb_rx_clock pin yl c x2 env u = Some (usb_rx_packet (pid # bytes) u, rx_end_sends env ?e u)"
    by (simp add: usb_rx_clock_def k(1) Let_def)
  moreover have "N - 1 = ?n - 1 + 8" "N = ?n + 8" by (simp_all add: N_def n)
  then have "if length (pid # bytes) \<le> USB_BUFSIZE then rx_ended (pid # bytes) (fst ?e) \<and> B (N - 1) + 5 \<le> snd ?e \<and> snd ?e \<le> B N + 10
     else rx_full (take USB_BUFSIZE (pid # bytes)) (fst ?e)"
    using loop by (simp add: pll_ended_def pll_full_def split: if_splits)
  ultimately show thesis by (rule that)
qed

text \<open>
  C11. Entered while the first six bits of a sync pattern are on the bus, the interrupt routine ends
  the search with the right bit and reads exactly the bytes of the packet that follows, although each bit is
  sampled only by counting clocks and the sender's clock may be off by 0.9 percent; it goes on as the
  model of whole packets does, with the same state of the driver and the same answer.
\<close>

theorem packet_received_at_clock:
  assumes "cells pin B (packet_bits (pid # bytes))" "steady B (packet_bits (pid # bytes))"
    and "sync_packet_on (\<lambda>i. pin (B i)) (pid # bytes)" "valid_pid pid"
    and "in_bit B i (c + 1)" "i < 6" "yl < 0x80"
  shows "map_option fst (usb_rx_clock pin yl c x2 env u) = Some (usb_rx_packet (pid # bytes) u)"
  using packet_clock[OF assms, of x2 env u] by (metis fst_conv option.map(2))

text \<open>The levels of a packet, from a sender whose bits take 10.95 clocks.\<close>

definition signal :: "u8 list \<Rightarrow> nat \<Rightarrow> u8" where
  "signal bytes i =
     (let ls = nrzi True (stuff 0 (bits_of_bytes (0x80 # bytes)))
      in if i < length ls then (if ls ! i then 0x08 else 0x10) else 0)"

lemma signal_packet: "sync_packet_on (signal bytes) bytes"
proof -
  let ?ls = "nrzi True (stuff 0 (bits_of_bytes (0x80 # bytes)))"
  have "list_all2 drives (map (signal bytes) [0..<length ?ls]) ?ls"
    by (auto simp: list_all2_conv_all_nth signal_def Let_def drives_def USBMINUS_def USBPLUS_def simp del: length_nrzi)
  then show ?thesis
    by (simp add: sync_packet_on_def carries_nrzi) (simp add: signal_def Let_def drives_SE0_def)
qed

definition drifting :: "nat \<Rightarrow> nat" where
  "drifting i = i * 219 div 20"

lemma drifting_bit:
  assumes "in_bit drifting i t"
  shows "(20 * t + 19) div 219 = i"
proof (rule div_nat_eqI)
  have "i * 219 div 20 \<le> t" "t < Suc i * 219 div 20" using assms by (simp_all add: in_bit_def drifting_def)
  moreover have "i * 219 < 20 * (i * 219 div 20) + 20" "20 * (Suc i * 219 div 20) \<le> Suc i * 219" by simp_all
  ultimately show "219 * i \<le> 20 * t + 19" "20 * t + 19 < 219 * Suc i" by linarith+
qed

definition drifting_signal :: "u8 list \<Rightarrow> nat \<Rightarrow> u8" where
  "drifting_signal bytes t = signal bytes ((20 * t + 19) div 219)"

lemma drifting_signal:
  "steady drifting N" "cells (drifting_signal bytes) drifting N"
  "sync_packet_on (\<lambda>i. drifting_signal bytes (drifting i)) bytes"
proof -
  show steady: "steady drifting N" for N
    using steady_drift[of 20 219 0] by (simp add: drifting_def[abs_def])
  have start: "in_bit drifting i (drifting i)" for i
    using steady_bounds[OF steady[of "Suc i"], of 1 i] by (simp add: in_bit_def)
  have pin: "drifting_signal bytes (drifting i) = signal bytes i" for i
    using drifting_bit[OF start] by (simp add: drifting_signal_def)
  show "cells (drifting_signal bytes) drifting N"
    using drifting_bit pin by (simp add: cells_def drifting_signal_def)
  show "sync_packet_on (\<lambda>i. drifting_signal bytes (drifting i)) bytes"
    by (simp only: pin signal_packet)
qed

definition some_env :: tx_env where
  "some_env = \<lparr>env_txbuf = 0x60, env_port = 0, env_x2 = 0, env_carry = False\<rparr>"

theorem packet_received_at_clock_witness:
  "map_option fst (usb_rx_clock (drifting_signal [USBPID_ACK]) 0x20 3 0xff some_env usbdrv_init) =
    Some (usb_rx_packet [USBPID_ACK] usbdrv_init)"
proof (rule packet_received_at_clock[OF drifting_signal(2,1,3)])
  show "valid_pid USBPID_ACK" by (simp add: valid_pid_def)
  show "in_bit drifting 0 (3 + 1)" by (simp add: in_bit_def drifting_def)
qed simp_all

text \<open>
  C10. The answer to a packet is on the bus in time and codes what the model of whole packets answers: its
  first bit appears 31 to 58 clocks, that is 2.8 to 5.3 bit times, after the end of the packet's SE0,
  where the specification allows 2 to 6.5, whichever way the routine takes; without an answer
  the port is not touched.
\<close>

theorem answer_on_time:
  assumes "cells pin B (packet_bits (pid # bytes))" "steady B (packet_bits (pid # bytes))"
    and "sync_packet_on (\<lambda>i. pin (B i)) (pid # bytes)" "valid_pid pid"
    and "in_bit B i (c + 1)" "i < 6" "yl < 0x80" and "can_send env u"
  defines "t \<equiv> B (packet_bits (pid # bytes))"
  shows "\<exists>out. usb_rx_clock pin yl c x2 env u = Some (usb_rx_packet (pid # bytes) u, out) \<and>
    answered (snd (usb_rx_packet (pid # bytes) u)) (t + 31) (t + 58) out"
proof -
  let ?N = "packet_bits (pid # bytes)"
  obtain e where e: "usb_rx_clock pin yl c x2 env u = Some (usb_rx_packet (pid # bytes) u, rx_end_sends env e u)"
    "if length (pid # bytes) \<le> USB_BUFSIZE then rx_ended (pid # bytes) (fst e) \<and> B (?N - 1) + 5 \<le> snd e \<and> snd e \<le> B ?N + 10
     else rx_full (take USB_BUFSIZE (pid # bytes)) (fst e)"
    using packet_clock[OF assms(1-7)] .
  show ?thesis
  proof (cases "length (pid # bytes) \<le> USB_BUFSIZE")
    case True
    have "B ?N \<le> B (?N - 1) + 12"
      using steady_bounds(2)[OF assms(2), of 1 "?N - 1"] packet_bits_eq[of "pid # bytes"] by (simp add: add.commute)
    then have "answered (snd (usb_rx_packet (pid # bytes) u)) (t + 31) (t + 58) (rx_end_sends env e u)"
      using True e(2) by (intro rx_end_answered[OF assms(8)]) (simp_all add: t_def)
    then show ?thesis using e(1) by blast
  next
    case False
    then have "answered (snd (usb_rx_packet (pid # bytes) u)) (snd e + 38) (snd e + 48) (rx_end_sends env e u)"
      using e(2) by (intro rx_end_answered[OF assms(8)]) simp_all
    moreover have "snd (usb_rx_packet (pid # bytes) u) = No_Answer" using False by (simp add: usb_rx_packet_def Let_def)
    ultimately show ?thesis using e(1) by simp
  qed
qed

text \<open>A device that is not yet addressed has nothing to send: it answers with NAK.\<close>

definition ready_to_answer :: usbdrv where
  "ready_to_answer = usbdrv_init\<lparr>usbTxLen := USBPID_NAK, usbMsgLen := USB_NO_MSG\<rparr>"

theorem answer_on_time_witness:
  "\<exists>out k. usb_rx_clock (drifting_signal [USBPID_IN, 0, 0x10]) 0x20 3 0xff some_env ready_to_answer =
      Some (usb_rx_packet [USBPID_IN, 0, 0x10] ready_to_answer, out) \<and>
    codes [USBPID_NAK] k out \<and> 372 + 31 \<le> k \<and> k \<le> 372 + 58"
proof -
  let ?pkt = "[USBPID_IN, 0, 0x10]"
  have "\<exists>out. usb_rx_clock (drifting_signal ?pkt) 0x20 3 0xff some_env ready_to_answer = Some (usb_rx_packet ?pkt ready_to_answer, out) \<and>
      answered (snd (usb_rx_packet ?pkt ready_to_answer)) (drifting (packet_bits ?pkt) + 31) (drifting (packet_bits ?pkt) + 58) out"
  proof (rule answer_on_time[OF drifting_signal(2,1,3)])
    show "valid_pid USBPID_IN" by (simp add: valid_pid_def)
    show "in_bit drifting 0 (3 + 1)" by (simp add: in_bit_def drifting_def)
    show "can_send some_env ready_to_answer" by (simp add: can_send_def some_env_def ready_to_answer_def usbdrv_init_def)
  qed simp_all
  moreover have "snd (usb_rx_packet ?pkt ready_to_answer) = Handshake USBPID_NAK"
    by (simp add: usb_rx_packet_def handleIn_def ready_to_answer_def usbdrv_init_def Let_def)
  moreover have "packet_bits ?pkt = 34"
    by (simp add: packet_bits_def bits_of_bytes_Cons byte_bits upt_rec)
  ultimately show ?thesis by (auto simp: drifting_def)
qed

end
