(* ===== verification/Usb_Bus.thy ===== *)
theory Usb_Bus
  imports Usb_Sync
begin

unbundle bit_operations_syntax

text \<open>
  Both directions of the bus together: what the send routine of \<open>firmware/src/usbdrv/usbdrvasm165.inc\<close> writes to
  the port, seen at each clock, is a signal its receive routine reads.
\<close>

section \<open>The port over time\<close>

text \<open>The value of the port at clock \<open>c\<close>, \<open>p\<close> before the first of the writes.\<close>

fun port_at :: "u8 \<Rightarrow> (nat \<times> u8) list \<Rightarrow> nat \<Rightarrow> u8" where
  "port_at p [] c = p"
| "port_at p ((t, v) # ws) c = (if c < t then p else port_at v ws c)"

lemma port_at_evenly:
  assumes "t \<le> c" "c < t + 11 * length ps" "t + 11 * length ps \<le> t'"
  shows "port_at p (evenly t ps @ (t', v) # ws) c = ps ! ((c - t) div 11)"
  using assms
proof (induction ps arbitrary: t p)
  case (Cons q ps)
  show ?case
  proof (cases "c < t + 11")
    case True
    then have "port_at q (evenly (t + 11) ps @ (t', v) # ws) c = q" using Cons.prems(3) by (cases ps) auto
    moreover have "(c - t) div 11 = 0" using True Cons.prems(1) by simp
    ultimately show ?thesis using Cons.prems(1) by simp
  next
    case False
    then have "(c - t) div 11 = Suc ((c - (t + 11)) div 11)" using Cons.prems by (simp add: le_div_geq)
    then show ?thesis using Cons.IH[of "t + 11" q] Cons.prems False by simp
  qed
qed simp

lemma port_at_after:
  assumes "t + 11 * length ps \<le> c" "ps \<noteq> []"
  shows "port_at p (evenly t ps @ ws) c = port_at (last ps) ws c"
  using assms
proof (induction ps arbitrary: t p)
  case (Cons q ps)
  then show ?case by (cases "ps = []") (auto simp: Cons.IH[of "t + 11"])
qed simp

text \<open>Where the bits of a packet start: the last one takes 12 clocks.\<close>

definition sender_cells :: "nat \<Rightarrow> nat \<Rightarrow> nat \<Rightarrow> nat" where
  "sender_cells t n i = t + 11 * i + (if i < n then 0 else 1)"

lemma steady_sender: "steady (sender_cells t n) N"
  by (auto simp: steady_def sender_cells_def)

text \<open>The levels of the two lines in the bits and in the two bit times of SE0.\<close>

lemma packet_out_levels:
  assumes "ps \<noteq> []" "i < length ps + 2" "in_bit (sender_cells t (length ps)) i c"
  shows "port_at p (packet_out t ps se0 idle stored) c = (if i < length ps then ps ! i else se0)"
proof (cases "i < length ps")
  case True
  have c: "t + 11 * i \<le> c" "c < t + 11 * Suc i + (if Suc i < length ps then 0 else 1)"
    using assms(3) True by (auto simp: in_bit_def sender_cells_def)
  show ?thesis
  proof (cases "c < t + 11 * length ps")
    case in_bits: True
    have "(c - t) div 11 = i" using c True in_bits by (auto intro!: div_nat_eqI split: if_splits)
    then show ?thesis using port_at_evenly[OF _ in_bits, of "t + 11 * length ps + 1"] c True by (simp add: packet_out_def)
  next
    case False
    then have "Suc i = length ps" "c = t + 11 * length ps" using c True by (auto split: if_splits)
    moreover from this have "last ps = ps ! i" using assms(1) by (metis diff_Suc_1 last_conv_nth)
    ultimately show ?thesis using port_at_after[OF _ assms(1), of t c p] True by (simp add: packet_out_def)
  qed
next
  case False
  then have "t + 11 * length ps + 1 \<le> c" "c < t + 11 * length ps + 23"
    using assms(2,3) by (auto simp: in_bit_def sender_cells_def)
  then show ?thesis using port_at_after[OF _ assms(1), of t c p] False by (simp add: packet_out_def)
qed

section \<open>What is sent is received\<close>

lemma codes_received:
  assumes "codes (pid # bytes) t out" "valid_pid pid" "t \<le> c + 1" "c + 1 < t + 66" "yl < 0x80"
  shows "map_option fst (usb_rx_clock (port_at p out) yl c x2 env u) = Some (usb_rx_packet (pid # bytes) u)"
proof -
  let ?bits = "stuff 0 (bits_of_bytes (0x80 # pid # bytes))"
  obtain ps se0 idle stored where out: "out = packet_out t ps se0 idle stored" "list_all2 drives ps (nrzi True ?bits)"
      "drives_SE0 se0"
    using assms(1) unfolding codes_def by blast
  then have len: "length ps = length ?bits" by (auto dest: list_all2_lengthD)
  let ?n = "length ps"
  let ?B = "sender_cells t ?n"
  have N: "packet_bits (pid # bytes) = ?n + 2" by (simp add: packet_bits_def len)
  have "8 \<le> ?n" unfolding len stuff_sync by simp
  then have "ps \<noteq> []" by auto
  note levels = packet_out_levels[OF this]
  have start: "in_bit ?B i (?B i)" for i by (auto simp: in_bit_def sender_cells_def)
  have pin: "port_at p out (?B i) = (if i < ?n then ps ! i else se0)" if "i < ?n + 2" for i
    unfolding out(1) by (rule levels[OF that start])
  have "cells (port_at p out) ?B (packet_bits (pid # bytes))"
    unfolding cells_def N using levels pin by (simp add: out(1))
  moreover have "map (\<lambda>i. port_at p out (?B i)) [0..<?n] = ps"
    by (intro nth_equalityI) (simp_all add: pin)
  then have "sync_packet_on (\<lambda>i. port_at p out (?B i)) (pid # bytes)"
    unfolding sync_packet_on_def carries_nrzi using out(2,3) pin[of ?n] pin[of "Suc ?n"] by (simp add: len)
  moreover have "in_bit ?B ((c + 1 - t) div 11) (c + 1)" "(c + 1 - t) div 11 < 6"
    using assms(3,4) \<open>8 \<le> ?n\<close> by (simp_all add: in_bit_def sender_cells_def) linarith
  ultimately show ?thesis
    using packet_clock[OF _ steady_sender _ assms(2) _ _ assms(5)] by (metis fst_conv option.map(2))
qed

text \<open>
  C20. What the send routine writes to the port, the interrupt routine of another device reads back when it is
  entered during the first six bits: a packet of up to eleven bytes with a well-formed first byte arrives
  unchanged, sampled at the clock, with its last bit and its SE0 as long as the send loop makes them.
\<close>

theorem sent_received_at_clock:
  fixes mem :: "nat \<Rightarrow> u8" and y
  assumes "1 < cnt" "cnt \<le> 12" "\<not> bit port USBPLUS" "valid_pid (mem y)"
    and "t + 11 \<le> c + 1" "c + 1 < t + 77" "yl < 0x80"
  shows "map_option fst (usb_rx_clock (port_at p (usbSendAndReti mem y cnt port x2 carry t)) yl c r0 env u) =
    Some (usb_rx_packet (map (\<lambda>i. mem (y + i)) [0..<unat cnt - 1]) u)"
proof -
  have cnt: "0 < cnt" "1 < unat cnt" using assms(1) by (auto simp: word_less_nat_alt)
  have bytes: "map (\<lambda>i. mem (y + i)) [0..<unat cnt - 1] = mem y # map (\<lambda>i. mem (y + i)) [1..<unat cnt - 1]"
    using cnt(2) by (simp add: upt_conv_Cons)
  have "codes (mem y # map (\<lambda>i. mem (y + i)) [1..<unat cnt - 1]) (t + 11) (usbSendAndReti mem y cnt port x2 carry t)"
    using usbSendAndReti_sends[OF cnt(1) assms(2,3), of mem y x2 carry t] unfolding codes_def bytes by blast
  from codes_received[OF this assms(4,5) _ assms(7)] show ?thesis
    unfolding bytes using assms(6) by simp
qed

theorem sent_received_at_clock_witness:
  "map_option fst (usb_rx_clock (port_at 0x08 (usbSendAndReti (\<lambda>i. if i = 0x60 then USBPID_DATA0 else 0xff) 0x60 4 0 0 False 100))
     0x20 120 0 some_env ready_to_answer) = Some (usb_rx_packet [USBPID_DATA0, 0xff, 0xff] ready_to_answer)"
proof -
  let ?mem = "\<lambda>i :: nat. if i = 0x60 then USBPID_DATA0 else 0xff"
  have "map_option fst (usb_rx_clock (port_at 0x08 (usbSendAndReti ?mem 0x60 4 0 0 False 100)) 0x20 120 0 some_env ready_to_answer) =
      Some (usb_rx_packet (map (\<lambda>i. ?mem (0x60 + i)) [0..<unat (4 :: u8) - 1]) ready_to_answer)"
    by (rule sent_received_at_clock) (simp_all add: valid_pid_def)
  then show ?thesis by (simp add: upt_rec)
qed

end
