(* ===== verification/Usb_Measure.thy ===== *)
theory Usb_Measure
  imports Usb_Line Fw_Calibrate
begin

unbundle bit_operations_syntax

text \<open>
  \<open>usbMeasureFrameLength\<close> of \<open>firmware/src/usbdrv/usbdrvasm.S\<close>: the time between two idle strobes
  in units of seven CPU clocks. The routine is modelled to the clock: \<open>pin\<close> gives the value of
  \<open>USBIN\<close> at each clock, and every loop adds the clocks its comments count.
\<close>

section \<open>The loops\<close>

text \<open>
  \<open>usbMFWaitStrobe\<close> with \<open>usbMFTime16\<close>: wait for D- to go low. The result is the clock at which
  \<open>usbMFWaitIdle\<close> starts; none after the time limit, with \<open>cnt16\<close> at 0.
\<close>

function usbMFWaitStrobe :: "(nat \<Rightarrow> u8) \<Rightarrow> nat \<Rightarrow> u8 \<Rightarrow> u16 \<Rightarrow> nat option" where
  "usbMFWaitStrobe pin t cntH cnt16 =
     (let cnt16 = cnt16 - 1
      in if cnt16 = 0
         then (let cntH = cntH - 1
               in if cntH = 0 then None else usbMFWaitStrobe pin (t + 6) cntH cnt16)
         else if bit (pin (t + 3)) USBMINUS then usbMFWaitStrobe pin (t + 6) cntH cnt16
         else Some (t + 5))"
  by pat_completeness auto

text \<open>The turns left before the time limit.\<close>

definition turns_left :: "u8 \<Rightarrow> u16 \<Rightarrow> nat" where
  "turns_left cntH cnt16 = unat (cntH - 1) * 65536 + unat (cnt16 - 1)"

lemma unat_pred: "x \<noteq> 0 \<Longrightarrow> unat x = Suc (unat (x - 1))"
  by (simp add: unat_minus_one unat_gt_0)

lemma turns_left_inner: "cnt16 - 1 \<noteq> 0 \<Longrightarrow> turns_left cntH cnt16 = Suc (turns_left cntH (cnt16 - 1))"
  unfolding turns_left_def by (drule unat_pred) simp

lemma turns_left_outer:
  assumes "cnt16 - 1 = 0" "cntH - 1 \<noteq> 0"
  shows "turns_left cntH cnt16 = Suc (turns_left (cntH - 1) (cnt16 - 1))"
proof -
  have "unat (- 1 :: u16) = 65535" by (simp add: unsigned_minus_1_eq_mask mask_eq_exp_minus_1)
  moreover have "cnt16 = 1" using assms(1) by simp
  ultimately show ?thesis
    using unat_pred[OF assms(2)] unfolding turns_left_def by simp
qed

termination usbMFWaitStrobe
proof (relation "measure (\<lambda>(pin, t, cntH, cnt16). turns_left cntH cnt16)", simp)
  fix pin :: "nat \<Rightarrow> u8" and t cntH cnt16 and c :: u16 and d :: u8
  assume "c = cnt16 - 1" "c = 0" "d = cntH - 1" "d \<noteq> 0"
  then show "((pin, t + 6, d, c), pin, t, cntH, cnt16) \<in> measure (\<lambda>(pin, t, cntH, cnt16). turns_left cntH cnt16)"
    using turns_left_outer[of cnt16 cntH] by simp
next
  fix pin :: "nat \<Rightarrow> u8" and t cntH cnt16 and c :: u16
  assume "c = cnt16 - 1" "c \<noteq> 0"
  then show "((pin, t + 6, cntH, c), pin, t, cntH, cnt16) \<in> measure (\<lambda>(pin, t, cntH, cnt16). turns_left cntH cnt16)"
    using turns_left_inner[of cnt16 cntH] by simp
qed

declare usbMFWaitStrobe.simps [simp del]

text \<open>\<open>usbMFWaitIdle\<close> has no time limit. It gives the clock after the loop.\<close>

partial_function (option) usbMFWaitIdle :: "(nat \<Rightarrow> u8) \<Rightarrow> nat \<Rightarrow> nat option" where
  "usbMFWaitIdle pin t = (if bit (pin t) USBMINUS then Some (t + 2) else usbMFWaitIdle pin (t + 3))"

text \<open>\<open>usbMFWaitLoop\<close>: count until both lines are low; the count stops at 0 when it wraps.\<close>

function usbMFWaitLoop :: "(nat \<Rightarrow> u8) \<Rightarrow> nat \<Rightarrow> u16 \<Rightarrow> u16" where
  "usbMFWaitLoop pin t cnt16 =
     (let cntH = pin t;
          cnt16 = cnt16 + 1
      in if cnt16 = 0 then cnt16
         else if cntH AND USBMASK \<noteq> 0 then usbMFWaitLoop pin (t + 7) cnt16
         else cnt16)"
  by pat_completeness auto
termination
proof (relation "measure (\<lambda>(pin, t, cnt16). 65535 - unat cnt16)", simp)
  fix pin t and cnt16 cnt16' :: u16 and c :: u8
  assume a: "cnt16' = cnt16 + 1" "cnt16' \<noteq> 0"
  then have "unat cnt16' = Suc (unat cnt16)" by (simp add: unatSuc add.commute)
  moreover have "unat cnt16' < 65536" by (rule unat_u16_less)
  ultimately show "((pin, t + 7, cnt16'), pin, t, cnt16) \<in> measure (\<lambda>(pin, t, cnt16). 65535 - unat cnt16)"
    by simp
qed

declare usbMFWaitLoop.simps [simp del]

text \<open>The routine, called at clock \<open>t\<close>; none when it does not return.\<close>

definition usbMeasureFrameLength :: "(nat \<Rightarrow> u8) \<Rightarrow> nat \<Rightarrow> u16 option" where
  "usbMeasureFrameLength pin t =
     (let cntH = 6; cnt16 = 0;
          cntH = cntH - 1
      in case usbMFWaitStrobe pin (t + 5) cntH cnt16 of
           None \<Rightarrow> Some 0
         | Some t \<Rightarrow>
             (case usbMFWaitIdle pin t of
                None \<Rightarrow> None
              | Some t \<Rightarrow> (let cnt16 = 1 in Some (usbMFWaitLoop pin (t + 2) cnt16))))"

section \<open>What is measured\<close>

text \<open>
  The strobe: D- is low from clock \<open>a\<close> to \<open>b\<close> and high before and after; from \<open>b\<close> on the bus is not at
  SE0 until the next strobe at \<open>c\<close>.
\<close>

definition strobes :: "(nat \<Rightarrow> u8) \<Rightarrow> nat \<Rightarrow> nat \<Rightarrow> nat \<Rightarrow> nat \<Rightarrow> bool" where
  "strobes pin t a b c \<longleftrightarrow>
     (\<forall>i\<in>{t..<a}. bit (pin i) USBMINUS) \<and> (\<forall>i\<in>{a..<b}. \<not> bit (pin i) USBMINUS) \<and>
     (\<forall>i\<in>{b..<c}. bit (pin i) USBMINUS) \<and> (\<forall>i\<in>{c..<c + 7}. drives_SE0 (pin i)) \<and>
     t \<le> a \<and> a + 12 \<le> b \<and> b + 3 \<le> c"

text \<open>The first wait finds the strobe when it comes in time.\<close>

lemma wait_strobe_finds:
  assumes "\<forall>i\<in>{t..<a}. bit (pin i) USBMINUS" "\<forall>i\<in>{a..<b}. \<not> bit (pin i) USBMINUS" "a + 12 \<le> b"
    and "t < a + 3 \<or> cnt16 \<noteq> 1 \<and> t < a + 9" "a + 12 \<le> t + 6 * turns_left cntH cnt16"
  shows "\<exists>t'. usbMFWaitStrobe pin t cntH cnt16 = Some (t' + 2) \<and> a \<le> t' \<and> t' < b"
  using assms
proof (induction pin t cntH cnt16 rule: usbMFWaitStrobe.induct)
  case (1 pin t cntH cnt16)
  show ?case
  proof (cases "cnt16 - 1 = 0")
    case True
    then have cnt: "cnt16 = 1" by simp
    show ?thesis
    proof (cases "cntH - 1 = 0")
      case True
      then have "cntH = 1" by simp
      then have "turns_left cntH cnt16 = 0" using cnt by (simp add: turns_left_def)
      then show ?thesis using "1.prems"(4,5) cnt by simp
    next
      case False
      have "\<exists>t'. usbMFWaitStrobe pin (t + 6) (cntH - 1) (cnt16 - 1) = Some (t' + 2) \<and> a \<le> t' \<and> t' < b"
        using "1.prems" turns_left_outer[OF True False] cnt
        by (intro "1.IH"(1)[OF refl True refl False]) auto
      then show ?thesis using True False by (subst usbMFWaitStrobe.simps) (simp add: Let_def)
    qed
  next
    case False
    show ?thesis
    proof (cases "bit (pin (t + 3)) USBMINUS")
      case True
      have "t + 3 < b" using "1.prems"(3,4) by auto
      then have "t + 3 < a" using True "1.prems"(2) by (auto simp: not_less[symmetric])
      then have "\<exists>t'. usbMFWaitStrobe pin (t + 6) cntH (cnt16 - 1) = Some (t' + 2) \<and> a \<le> t' \<and> t' < b"
        using "1.prems" turns_left_inner[OF False, of cntH]
        by (intro "1.IH"(2)[OF refl False True]) auto
      then show ?thesis using False True by (subst usbMFWaitStrobe.simps) (simp add: Let_def)
    next
      case low: False
      have "t + 3 < b" using "1.prems"(3,4) by auto
      moreover have "a \<le> t + 3" using low "1.prems"(1) by (auto simp: not_less[symmetric])
      moreover have "usbMFWaitStrobe pin t cntH cnt16 = Some (t + 3 + 2)"
        using False low by (subst usbMFWaitStrobe.simps) (simp add: Let_def)
      ultimately show ?thesis by blast
    qed
  qed
qed

text \<open>The second wait ends within three clocks of the end of the strobe.\<close>

lemma wait_idle_ends:
  assumes "\<forall>i\<in>{t..<b}. \<not> bit (pin i) USBMINUS" "\<forall>i\<in>{b..<c}. bit (pin i) USBMINUS" "b + 3 \<le> c" "t < b + 3"
  shows "\<exists>t'. usbMFWaitIdle pin t = Some (t' + 2) \<and> b \<le> t' \<and> t' < b + 3"
  using assms
proof (induction "b - t" arbitrary: t rule: less_induct)
  case less
  show ?case
  proof (cases "t < b")
    case True
    then have "\<not> bit (pin t) USBMINUS" using less.prems(1) by simp
    then have "usbMFWaitIdle pin t = usbMFWaitIdle pin (t + 3)" by (subst usbMFWaitIdle.simps) simp
    moreover have "\<exists>t'. usbMFWaitIdle pin (t + 3) = Some (t' + 2) \<and> b \<le> t' \<and> t' < b + 3"
      using True less.prems by (intro less.hyps) auto
    ultimately show ?thesis by simp
  next
    case False
    then have "bit (pin t) USBMINUS" using less.prems by simp
    then show ?thesis using False less.prems(4) by (subst usbMFWaitIdle.simps) auto
  qed
qed

text \<open>The count stops with the first sample of SE0.\<close>

lemma high_not_SE0: "bit p USBMINUS \<Longrightarrow> p AND USBMASK \<noteq> 0"
proof -
  have "bit (p AND USBMASK) USBMINUS = bit p USBMINUS"
    by (simp add: USBMASK_def USBMINUS_def bit_and_iff)
  then show "bit p USBMINUS \<Longrightarrow> p AND USBMASK \<noteq> 0" by auto
qed

lemma wait_loop_counts:
  assumes "\<forall>i\<in>{t..<c}. bit (pin i) USBMINUS" "\<forall>i\<in>{c..<c + 7}. drives_SE0 (pin i)" "t < c + 7"
    and "c + 14 \<le> t + 7 * (65536 - unat cnt16)"
  shows "\<exists>j. unat (usbMFWaitLoop pin t cnt16) = unat cnt16 + Suc j \<and> c \<le> t + 7 * j \<and> t + 7 * j < c + 7"
  using assms
proof (induction pin t cnt16 rule: usbMFWaitLoop.induct)
  case (1 pin t cnt16)
  have less: "Suc (unat cnt16) < 65536" using "1.prems"(3,4) by auto
  then have cnt: "unat (cnt16 + 1) = Suc (unat cnt16)"
    by (simp add: unat_word_ariths)
  then have nz: "cnt16 + 1 \<noteq> 0" by (metis nat.distinct(1) unat_0)
  show ?case
  proof (cases "t < c")
    case True
    then have pin: "pin t AND USBMASK \<noteq> 0" using "1.prems"(1) by (intro high_not_SE0) simp
    have "\<exists>j. unat (usbMFWaitLoop pin (t + 7) (cnt16 + 1)) = unat (cnt16 + 1) + Suc j \<and>
        c \<le> t + 7 + 7 * j \<and> t + 7 + 7 * j < c + 7"
      using "1.prems" True cnt less by (intro "1.IH"[OF refl refl nz pin]) auto
    then obtain j where "unat (usbMFWaitLoop pin (t + 7) (cnt16 + 1)) = unat (cnt16 + 1) + Suc j"
        "c \<le> t + 7 + 7 * j" "t + 7 + 7 * j < c + 7"
      by blast
    then have "unat (usbMFWaitLoop pin (t + 7) (cnt16 + 1)) = unat cnt16 + Suc (Suc j)"
        "c \<le> t + 7 * Suc j" "t + 7 * Suc j < c + 7"
      using cnt by simp_all
    moreover have "usbMFWaitLoop pin t cnt16 = usbMFWaitLoop pin (t + 7) (cnt16 + 1)"
      using nz pin by (subst usbMFWaitLoop.simps) (simp add: Let_def)
    ultimately show ?thesis by (intro exI[of _ "Suc j"]) simp
  next
    case False
    then have "pin t AND USBMASK = 0" using "1.prems"(2,3) by (simp add: drives_SE0_def)
    then have "usbMFWaitLoop pin t cnt16 = cnt16 + 1"
      using nz by (subst usbMFWaitLoop.simps) (simp add: Let_def)
    then show ?thesis using cnt False "1.prems"(3) by (intro exI[of _ 0]) simp
  qed
qed

lemma measured_target:
  fixes n :: u16
  assumes "b + 16478 \<le> c" "c \<le> b + 16482" "c - b + 8 \<le> 7 * unat n" "7 * unat n \<le> c - b + 16"
  shows "sint n = targetValue"
proof -
  have "unat n = 2356" using assms by linarith
  then have "n = 2356" by (simp add: word_unat_eq_iff)
  then show ?thesis by (simp add: targetValue_eq)
qed

text \<open>Without a strobe the time limit ends the first wait, and a strobe that never ends is waited for.\<close>

lemma no_strobe: "\<forall>i\<ge>t. bit (pin i) USBMINUS \<Longrightarrow> usbMFWaitStrobe pin t cntH cnt16 = None"
proof (induction pin t cntH cnt16 rule: usbMFWaitStrobe.induct)
  case (1 pin t cntH cnt16)
  consider "cnt16 - 1 = 0" "cntH - 1 = 0" | "cnt16 - 1 = 0" "cntH - 1 \<noteq> 0" | "cnt16 - 1 \<noteq> 0" by blast
  then show ?case
  proof cases
    case 1
    then show ?thesis by (subst usbMFWaitStrobe.simps) simp
  next
    case 2
    then show ?thesis using "1.IH"(1)[OF refl 2(1) refl 2(2)] "1.prems"
      by (subst usbMFWaitStrobe.simps) (simp add: Let_def)
  next
    case 3
    moreover have "bit (pin (t + 3)) USBMINUS" using "1.prems" by simp
    ultimately show ?thesis using "1.IH"(2)[OF refl 3] "1.prems"
      by (subst usbMFWaitStrobe.simps) (simp add: Let_def)
  qed
qed

lemma measure_no_strobe: "\<forall>i\<ge>t. bit (pin i) USBMINUS \<Longrightarrow> usbMeasureFrameLength pin t = Some 0"
  by (simp add: usbMeasureFrameLength_def no_strobe Let_def)

lemma wait_idle_hangs:
  assumes "\<forall>i\<ge>t. \<not> bit (pin i) USBMINUS"
  shows "usbMFWaitIdle pin t = None"
proof -
  let ?P = "\<lambda>(p :: nat \<Rightarrow> u8) t (y :: nat). p = pin \<longrightarrow> \<not> (\<forall>i\<ge>t. \<not> bit (pin i) USBMINUS)"
  have "\<not> (\<forall>i\<ge>t. \<not> bit (pin i) USBMINUS)" if "usbMFWaitIdle pin t = Some y" for y
  proof -
    have "?P pin t y"
    proof (rule usbMFWaitIdle.raw_induct[of ?P, OF _ that])
      fix f :: "(nat \<Rightarrow> u8) \<Rightarrow> nat \<Rightarrow> nat option" and p t y
      assume IH: "\<And>p t y. f p t = Some y \<Longrightarrow> ?P p t y"
        and body: "(if bit (p t) USBMINUS then Some (t + 2) else f p (t + 3)) = Some y"
      show "?P p t y"
      proof (rule impI)
        assume "p = pin"
        show "\<not> (\<forall>i\<ge>t. \<not> bit (pin i) USBMINUS)"
        proof
          assume low: "\<forall>i\<ge>t. \<not> bit (pin i) USBMINUS"
          then have "f p (t + 3) = Some y" using body \<open>p = pin\<close> by simp
          from IH[OF this] \<open>p = pin\<close> show False using low by (meson le_add1 le_trans)
        qed
      qed
    qed
    then show ?thesis by simp
  qed
  then show ?thesis using assms by (cases "usbMFWaitIdle pin t") auto
qed

text \<open>
  C21. Called while the bus is idle, the routine returns the time from the end of the next strobe to
  the start of the one after it in units of seven clocks, between 8 and 16 clocks too long. For a
  frame of 1 ms at 16.5 MHz (16500 clocks with a strobe of 18 to 22) it returns the target of the
  calibration.
\<close>

theorem frame_measured:
  assumes "strobes pin t a b c" "a + 12 \<le> t + 1966000" "c \<le> b + 458000"
  shows "\<exists>n. usbMeasureFrameLength pin t = Some n \<and> c - b + 8 \<le> 7 * unat n \<and> 7 * unat n \<le> c - b + 16 \<and>
    (c - b \<in> {16478..16482} \<longrightarrow> sint n = targetValue)"
proof -
  have line: "\<forall>i\<in>{t..<a}. bit (pin i) USBMINUS" "\<forall>i\<in>{a..<b}. \<not> bit (pin i) USBMINUS"
      "\<forall>i\<in>{b..<c}. bit (pin i) USBMINUS" "\<forall>i\<in>{c..<c + 7}. drives_SE0 (pin i)" "t \<le> a" "a + 12 \<le> b" "b + 3 \<le> c"
    using assms(1) by (simp_all add: strobes_def)
  have turns: "turns_left 5 0 = 327679"
    by (simp add: turns_left_def unsigned_minus_1_eq_mask mask_eq_exp_minus_1)
  obtain s where s: "usbMFWaitStrobe pin (t + 5) 5 0 = Some (s + 2)" "a \<le> s" "s < b"
    using wait_strobe_finds[of "t + 5" a pin b 0 5] line assms(2) turns by auto
  obtain i where i: "usbMFWaitIdle pin (s + 2) = Some (i + 2)" "b \<le> i" "i < b + 3"
    using wait_idle_ends[of "s + 2" b pin c] line s by auto
  obtain j where j: "unat (usbMFWaitLoop pin (i + 4) 1) = Suc (Suc j)" "c \<le> i + 4 + 7 * j" "i + 4 + 7 * j < c + 7"
    using wait_loop_counts[of "i + 4" c pin 1] line i assms(3) by auto
  have "usbMeasureFrameLength pin t = Some (usbMFWaitLoop pin (i + 4) 1)"
    using s(1) i(1) by (simp add: usbMeasureFrameLength_def Let_def eval_nat_numeral)
  moreover have "c - b + 8 \<le> 7 * unat (usbMFWaitLoop pin (i + 4) 1)"
      "7 * unat (usbMFWaitLoop pin (i + 4) 1) \<le> c - b + 16"
    using i j line(7) by auto
  ultimately show ?thesis using measured_target[of b c] line(7) by auto
qed

definition example_pin :: "nat \<Rightarrow> u8" where
  "example_pin i = (if i < 100 then USBIDLE else if i < 122 then 0 else if i < 16600 then USBIDLE else 0)"

theorem frame_measured_witness:
  "\<exists>n. usbMeasureFrameLength example_pin 0 = Some n \<and> sint n = targetValue"
proof -
  have "strobes example_pin 0 100 122 16600"
    by (auto simp: strobes_def example_pin_def drives_SE0_def USBIDLE_def USBMINUS_def)
  from frame_measured[OF this] show ?thesis by auto
qed

end
