(* ===== verification/Carrier_Decoder.thy ===== *)
theory Carrier_Decoder
  imports Prelude
begin

text \<open>
  The pulse classifier of the host tool (\<open>rfid-tool/src/rfid/CarrierDecoder.cpp\<close>,
  \<open>inc/rfid/CarrierDecoder.hpp\<close>) on the samples of \<open>inc/rfid/Interface.hpp\<close>. It tries the bit
  rates RF/16, RF/32 and RF/64 in turn until the pulses it sees have the two lengths of one of
  them, and then reports every pulse as short or long. The length of a sample is a C \<open>int\<close> far
  from its limits and is an \<open>int\<close> here; the counters are bytes that wrap.
\<close>

section \<open>Samples, state and events\<close>

record sample =
  getLengthUs :: int
  isHigh :: bool

definition isLow :: "sample \<Rightarrow> bool" where
  "isLow s \<longleftrightarrow> \<not> isHigh s"

record carrier =
  longMin :: u16
  longMax :: u16
  shortMin :: u16
  shortMax :: u16
  pulseCount :: u8
  loCount :: u8
  hiCount :: u8
  errorCount :: u8
  carrierDivider :: u8
  hasSync :: bool

datatype carrier_event =
    EVENT_SYNC_CHANGED bool u8    \<comment> \<open>\<open>hasSync\<close>, \<open>carrierDivider\<close>\<close>
  | EVENT_NEW_PULSE bool bool     \<comment> \<open>\<open>isHigh\<close>, \<open>isLong\<close>\<close>

definition CARRIER_PULSE_LENGTH :: nat where "CARRIER_PULSE_LENGTH = 8"
definition PULSE_MAX :: u8 where "PULSE_MAX = 50"
definition ERROR_TRESHOLD :: u8 where "ERROR_TRESHOLD = 10"

section \<open>Operations\<close>

definition PULSE_SHORT :: "carrier \<Rightarrow> int \<Rightarrow> bool" where
  "PULSE_SHORT dec p \<longleftrightarrow> uint (shortMin dec) \<le> p \<and> p \<le> uint (shortMax dec)"

definition PULSE_LONG :: "carrier \<Rightarrow> int \<Rightarrow> bool" where
  "PULSE_LONG dec p \<longleftrightarrow> uint (longMin dec) \<le> p \<and> p \<le> uint (longMax dec)"

definition updatePulseRange :: "carrier \<Rightarrow> carrier" where
  "updatePulseRange d =
     (let pulseLength = of_nat (unat (carrierDivider d) * CARRIER_PULSE_LENGTH div 2) :: u16;
          delta = drop_bit 2 pulseLength;
          d = d\<lparr>shortMin := pulseLength - delta, shortMax := pulseLength + delta\<rparr>;
          pulseLength = push_bit 1 pulseLength
      in d\<lparr>longMin := pulseLength - delta, longMax := pulseLength + delta\<rparr>)"

text \<open>\<open>reset\<close>, also called by the constructor, sets every member.\<close>

definition carrier_reset :: "carrier \<Rightarrow> carrier" where
  "carrier_reset d =
     updatePulseRange
       (d\<lparr>carrierDivider := 16, errorCount := 0, pulseCount := 0, hasSync := False,
          loCount := 0, hiCount := 0\<rparr>)"

definition next_divider :: "u8 \<Rightarrow> u8" where
  "next_divider n = (if n = 16 then 32 else if n = 32 then 64 else if n = 64 then 16 else n)"

text \<open>The branch \<open>nextCarrier\<close> of the loop's body.\<close>

definition next_carrier :: "carrier \<Rightarrow> carrier \<times> carrier_event list" where
  "next_carrier d =
     (let d = d\<lparr>hasSync := False, loCount := 0, hiCount := 0, errorCount := 0, pulseCount := 0\<rparr>
      in (updatePulseRange (d\<lparr>carrierDivider := next_divider (carrierDivider d)\<rparr>),
          [EVENT_SYNC_CHANGED False 0]))"

text \<open>The branch without synchronisation.\<close>

definition acquire :: "carrier \<Rightarrow> int \<Rightarrow> carrier \<times> carrier_event list" where
  "acquire d len =
     (let d = (if PULSE_SHORT d len then d\<lparr>loCount := loCount d + 1\<rparr>
               else if PULSE_LONG d len then d\<lparr>hiCount := hiCount d + 1\<rparr>
               else d\<lparr>errorCount := errorCount d + 1\<rparr>)
      in if hiCount d > 4 \<and> loCount d > 4 \<and> errorCount d < 4
         then (d\<lparr>hasSync := True\<rparr>, [EVENT_SYNC_CHANGED True (carrierDivider d)])
         else (d, []))"

text \<open>The branch with synchronisation.\<close>

definition classify :: "carrier \<Rightarrow> sample \<Rightarrow> carrier \<times> carrier_event list" where
  "classify d s =
     (if PULSE_LONG d (getLengthUs s) then (d, [EVENT_NEW_PULSE (\<not> isLow s) True])
      else if PULSE_SHORT d (getLengthUs s) then (d, [EVENT_NEW_PULSE (\<not> isLow s) False])
      else (d\<lparr>errorCount := errorCount d + 1\<rparr>, []))"

text \<open>The body of the loop of \<open>checkPulses\<close>.\<close>

definition check_pulse :: "carrier \<Rightarrow> sample \<Rightarrow> carrier \<times> carrier_event list" where
  "check_pulse d s =
     (let d = d\<lparr>pulseCount := pulseCount d + 1\<rparr> in
      if errorCount d \<ge> ERROR_TRESHOLD then next_carrier d
      else
        (let d = (if pulseCount d = PULSE_MAX then d\<lparr>pulseCount := 0, errorCount := 0\<rparr> else d)
         in if \<not> hasSync d then acquire d (getLengthUs s) else classify d s))"

fun checkPulses :: "carrier \<Rightarrow> sample list \<Rightarrow> carrier \<times> carrier_event list" where
  "checkPulses d [] = (d, [])"
| "checkPulses d (s # ss) =
     (let (d, evs) = check_pulse d s; (d, evs') = checkPulses d ss in (d, evs @ evs'))"

lemma checkPulses_append:
  "checkPulses d (as @ bs) =
     (let (d, evs) = checkPulses d as; (d, evs') = checkPulses d bs in (d, evs @ evs'))"
  by (induction as arbitrary: d) (auto split: prod.splits)

lemma checkPulses_Cons:
  "checkPulses d (s # ss) =
     (fst (checkPulses (fst (check_pulse d s)) ss),
      snd (check_pulse d s) @ snd (checkPulses (fst (check_pulse d s)) ss))"
  by (simp split: prod.splits)

section \<open>Invariant\<close>

text \<open>
  The pulse ranges belong to the divider: with \<open>d\<close> the divider, a short pulse lasts \<open>3 d\<close> to
  \<open>5 d\<close> microseconds and a long one \<open>7 d\<close> to \<open>9 d\<close>.
\<close>

definition ranges_of :: "nat \<Rightarrow> carrier \<Rightarrow> bool" where
  "ranges_of n d \<longleftrightarrow> carrierDivider d = of_nat n \<and>
     shortMin d = of_nat (3 * n) \<and> shortMax d = of_nat (5 * n) \<and>
     longMin d = of_nat (7 * n) \<and> longMax d = of_nat (9 * n)"

definition carrier_ok :: "carrier \<Rightarrow> bool" where
  "carrier_ok d \<longleftrightarrow> (\<exists>n \<in> {16, 32, 64}. ranges_of n d) \<and>
     unat (pulseCount d) < 50 \<and> unat (errorCount d) \<le> 10"

lemma updatePulseRange_ranges:
  assumes "carrierDivider d \<in> {16, 32, 64}"
  shows "ranges_of (unat (carrierDivider d)) (updatePulseRange d)"
  using assms
  by (auto simp: updatePulseRange_def ranges_of_def Let_def CARRIER_PULSE_LENGTH_def drop_bit_eq_div)

lemma updatePulseRange_others [simp]:
  "pulseCount (updatePulseRange d) = pulseCount d" "loCount (updatePulseRange d) = loCount d"
  "hiCount (updatePulseRange d) = hiCount d" "errorCount (updatePulseRange d) = errorCount d"
  "carrierDivider (updatePulseRange d) = carrierDivider d" "hasSync (updatePulseRange d) = hasSync d"
  by (simp_all add: updatePulseRange_def Let_def)

lemma carrier_ok_reset: "carrier_ok (carrier_reset d)"
  using updatePulseRange_ranges
    [of "d\<lparr>carrierDivider := 16, errorCount := 0, pulseCount := 0, hasSync := False,
          loCount := 0, hiCount := 0\<rparr>"]
  by (auto simp: carrier_ok_def carrier_reset_def)

definition short_for :: "nat \<Rightarrow> int \<Rightarrow> bool" where
  "short_for n p \<longleftrightarrow> int (3 * n) \<le> p \<and> p \<le> int (5 * n)"

definition long_for :: "nat \<Rightarrow> int \<Rightarrow> bool" where
  "long_for n p \<longleftrightarrow> int (7 * n) \<le> p \<and> p \<le> int (9 * n)"

lemma PULSE_ranges:
  assumes "ranges_of n d" and "n \<in> {16, 32, 64}"
  shows "PULSE_SHORT d p \<longleftrightarrow> short_for n p" "PULSE_LONG d p \<longleftrightarrow> long_for n p"
  using assms by (auto simp: ranges_of_def PULSE_SHORT_def PULSE_LONG_def short_for_def long_for_def)


text \<open>The counting of the samples is the same in every branch.\<close>

lemma check_pulse_window:
  assumes "unat (pulseCount d) < 50" and "errorCount d < 10"
  shows "\<exists>p e. unat p < 50 \<and> (e = 0 \<or> e = errorCount d) \<and>
     check_pulse d s =
       (let d = d\<lparr>pulseCount := p, errorCount := e\<rparr>
        in if \<not> hasSync d then acquire d (getLengthUs s) else classify d s)"
proof -
  have c: "unat (pulseCount d + 1) = Suc (unat (pulseCount d))" using assms by (simp add: unat_word_ariths)
  have e: "\<not> 10 \<le> errorCount d" using assms(2) by simp
  show ?thesis
  proof (cases "pulseCount d + 1 = 50")
    case True
    then show ?thesis using e
      by (intro exI [of _ 0] exI [of _ 0]) (simp add: check_pulse_def PULSE_MAX_def ERROR_TRESHOLD_def)
  next
    case False
    then have "unat (pulseCount d + 1) < 50" using c assms(1) by (auto simp: word_unat_eq_iff)
    then show ?thesis using e False
      by (intro exI [of _ "pulseCount d + 1"] exI [of _ "errorCount d"])
         (simp add: check_pulse_def PULSE_MAX_def ERROR_TRESHOLD_def)
  qed
qed

lemma next_divider_cases: "n \<in> {16, 32, 64} \<Longrightarrow> next_divider n \<in> {16, 32, 64}"
  by (auto simp: next_divider_def)

lemma carrier_ok_divider: "carrier_ok d \<Longrightarrow> carrierDivider d \<in> {16, 32, 64}"
  by (auto simp: carrier_ok_def ranges_of_def)

lemma ranges_of_cong:
  "carrierDivider d' = carrierDivider d \<Longrightarrow> shortMin d' = shortMin d \<Longrightarrow> shortMax d' = shortMax d \<Longrightarrow>
   longMin d' = longMin d \<Longrightarrow> longMax d' = longMax d \<Longrightarrow> ranges_of n d' = ranges_of n d"
  by (simp add: ranges_of_def)

lemma carrier_ok_next:
  assumes "carrierDivider d \<in> {16, 32, 64}"
  shows "carrier_ok (fst (next_carrier d))"
proof -
  let ?d = "d\<lparr>hasSync := False, loCount := 0, hiCount := 0, errorCount := 0, pulseCount := 0,
    carrierDivider := next_divider (carrierDivider d)\<rparr>"
  have "ranges_of (unat (next_divider (carrierDivider d))) (updatePulseRange ?d)"
    using updatePulseRange_ranges [of ?d] next_divider_cases [OF assms] by simp
  moreover have "unat (next_divider (carrierDivider d)) \<in> {16, 32, 64}"
    using next_divider_cases [OF assms] by auto
  ultimately show ?thesis by (auto simp: next_carrier_def carrier_ok_def)
qed

lemma carrier_ok_count_error:
  assumes "carrier_ok d" and "errorCount d < 10"
  shows "carrier_ok (d\<lparr>errorCount := errorCount d + 1\<rparr>)"
proof -
  have "unat (errorCount d + 1) = Suc (unat (errorCount d))" "unat (errorCount d) < 10"
    using assms(2) by (simp_all add: unat_word_ariths word_less_nat_alt)
  then show ?thesis using assms by (auto simp: carrier_ok_def ranges_of_def)
qed

lemma carrier_ok_check_pulse:
  assumes ok: "carrier_ok d"
  shows "carrier_ok (fst (check_pulse d s))"
proof (cases "errorCount d < 10")
  case True
  obtain p e where pe: "unat p < 50" "e = 0 \<or> e = errorCount d"
    "check_pulse d s = (let d = d\<lparr>pulseCount := p, errorCount := e\<rparr>
        in if \<not> hasSync d then acquire d (getLengthUs s) else classify d s)"
    using check_pulse_window [of d s] ok True by (auto simp: carrier_ok_def)
  let ?d = "d\<lparr>pulseCount := p, errorCount := e\<rparr>"
  have d: "carrier_ok ?d" "errorCount ?d < 10"
    using ok pe(1,2) True by (auto simp: carrier_ok_def ranges_of_def)
  have count: "carrier_ok (d'\<lparr>loCount := x\<rparr>) = carrier_ok d'" "carrier_ok (d'\<lparr>hiCount := x\<rparr>) = carrier_ok d'"
    "carrier_ok (d'\<lparr>hasSync := b\<rparr>) = carrier_ok d'" for d' x b
    by (simp_all add: carrier_ok_def ranges_of_def)
  show ?thesis
    using carrier_ok_count_error [OF d] d(1)
    by (simp add: pe(3) acquire_def classify_def Let_def count)
next
  case False
  then show ?thesis
    using carrier_ok_next [of "d\<lparr>pulseCount := pulseCount d + 1\<rparr>"] carrier_ok_divider [OF ok]
    by (simp add: check_pulse_def ERROR_TRESHOLD_def Let_def not_less)
qed

lemma carrier_ok_checkPulses: "carrier_ok d \<Longrightarrow> carrier_ok (fst (checkPulses d ss))"
proof (induction ss arbitrary: d)
  case (Cons s ss)
  then show ?case using Cons.IH [OF carrier_ok_check_pulse [OF Cons.prems, of s]]
    by (simp add: checkPulses_Cons del: checkPulses.simps)
qed simp

section \<open>With synchronisation\<close>

definition pulse_event :: "nat \<Rightarrow> sample \<Rightarrow> carrier_event" where
  "pulse_event n s = EVENT_NEW_PULSE (isHigh s) (long_for n (getLengthUs s))"

definition in_range :: "nat \<Rightarrow> sample \<Rightarrow> bool" where
  "in_range n s \<longleftrightarrow> short_for n (getLengthUs s) \<or> long_for n (getLengthUs s)"

definition synced :: "nat \<Rightarrow> carrier \<Rightarrow> bool" where
  "synced n d \<longleftrightarrow> n \<in> {16, 32, 64} \<and> ranges_of n d \<and> hasSync d \<and> unat (pulseCount d) < 50 \<and>
     errorCount d < 10"

lemma synced_step:
  assumes d: "synced n d" and s: "in_range n s"
  shows "synced n (fst (check_pulse d s)) \<and> snd (check_pulse d s) = [pulse_event n s]"
proof -
  have d': "ranges_of n d" "n \<in> {16, 32, 64}" "unat (pulseCount d) < 50" "errorCount d < 10" "hasSync d"
    using d by (simp_all add: synced_def)
  obtain p e where pe: "unat p < 50" "e = 0 \<or> e = errorCount d"
    "check_pulse d s = (let d = d\<lparr>pulseCount := p, errorCount := e\<rparr>
        in if \<not> hasSync d then acquire d (getLengthUs s) else classify d s)"
    using check_pulse_window [OF d'(3,4), of s] by blast
  let ?d = "d\<lparr>pulseCount := p, errorCount := e\<rparr>"
  have r: "ranges_of n ?d" using d'(1) by (simp add: ranges_of_def)
  have "classify ?d s = (?d, [pulse_event n s])"
    using s by (auto simp: classify_def PULSE_ranges [OF r d'(2)] in_range_def pulse_event_def isLow_def)
  then show ?thesis using d' pe r by (auto simp: synced_def)
qed

lemma synced_run:
  assumes "synced n d" and "\<forall>s \<in> set ss. in_range n s"
  shows "\<exists>d'. checkPulses d ss = (d', map (pulse_event n) ss) \<and> synced n d'"
  using assms
proof (induction ss arbitrary: d)
  case (Cons s ss)
  note step = synced_step [OF Cons.prems(1), of s]
  then obtain d' where "checkPulses (fst (check_pulse d s)) ss = (d', map (pulse_event n) ss)" "synced n d'"
    using Cons by auto
  then show ?case using step Cons.prems(2)
    by (simp add: checkPulses_Cons del: checkPulses.simps(2))
qed simp

section \<open>Acquiring synchronisation\<close>

text \<open>No errors so far, \<open>a\<close> short pulses and \<open>b\<close> long ones, counted in a byte each.\<close>

definition acquiring :: "nat \<Rightarrow> nat \<Rightarrow> nat \<Rightarrow> carrier \<Rightarrow> bool" where
  "acquiring n a b d \<longleftrightarrow> n \<in> {16, 32, 64} \<and> ranges_of n d \<and> \<not> hasSync d \<and> unat (pulseCount d) < 50 \<and>
     errorCount d = 0 \<and> loCount d = of_nat a \<and> hiCount d = of_nat b"

definition shorts :: "nat \<Rightarrow> sample list \<Rightarrow> nat" where
  "shorts n ss = length (filter (\<lambda>s. short_for n (getLengthUs s)) ss)"

definition longs :: "nat \<Rightarrow> sample list \<Rightarrow> nat" where
  "longs n ss = length (filter (\<lambda>s. long_for n (getLengthUs s)) ss)"

lemma short_not_long: "short_for n p \<Longrightarrow> 0 < n \<Longrightarrow> \<not> long_for n p"
  by (auto simp: short_for_def long_for_def)

text \<open>A good pulse is counted; the fifth of the second kind gives synchronisation.\<close>

lemma acquiring_step:
  assumes d: "acquiring n a b d" and s: "in_range n s"
  defines "a' \<equiv> (if short_for n (getLengthUs s) then Suc a else a)"
    and "b' \<equiv> (if short_for n (getLengthUs s) then b else Suc b)"
  shows "if (of_nat a' :: u8) > 4 \<and> (of_nat b' :: u8) > 4
         then synced n (fst (check_pulse d s)) \<and> snd (check_pulse d s) = [EVENT_SYNC_CHANGED True (of_nat n)]
         else acquiring n a' b' (fst (check_pulse d s)) \<and> snd (check_pulse d s) = []"
proof -
  have d': "ranges_of n d" "n \<in> {16, 32, 64}" "unat (pulseCount d) < 50" "errorCount d < 10"
    "\<not> hasSync d" "errorCount d = 0" "loCount d = of_nat a" "hiCount d = of_nat b"
    using d by (simp_all add: acquiring_def)
  obtain p e where pe: "unat p < 50" "e = 0"
    "check_pulse d s = (let d = d\<lparr>pulseCount := p, errorCount := e\<rparr>
        in if \<not> hasSync d then acquire d (getLengthUs s) else classify d s)"
    using check_pulse_window [OF d'(3,4), of s] d'(6) by auto
  let ?d = "d\<lparr>pulseCount := p, errorCount := e\<rparr>"
  let ?d' = "?d\<lparr>loCount := of_nat a', hiCount := of_nat b'\<rparr>"
  have r: "ranges_of n ?d" using d'(1) by (simp add: ranges_of_def)
  have "(if PULSE_SHORT ?d (getLengthUs s) then ?d\<lparr>loCount := loCount ?d + 1\<rparr>
      else if PULSE_LONG ?d (getLengthUs s) then ?d\<lparr>hiCount := hiCount ?d + 1\<rparr>
      else ?d\<lparr>errorCount := errorCount ?d + 1\<rparr>) = ?d'" (is "?count = _")
  proof (cases "short_for n (getLengthUs s)")
    case True
    then show ?thesis using d'(7,8)
      by (intro carrier.equality) (simp_all add: PULSE_ranges [OF r d'(2)] a'_def b'_def)
  next
    case False
    then have "long_for n (getLengthUs s)" using s by (simp add: in_range_def)
    then show ?thesis using d'(7,8) False
      by (intro carrier.equality) (simp_all add: PULSE_ranges [OF r d'(2)] a'_def b'_def)
  qed
  moreover have "carrierDivider d = of_nat n" "errorCount ?d' < 4"
    using d'(1) pe(2) by (simp_all add: ranges_of_def)
  ultimately have "acquire ?d (getLengthUs s) =
      (if hiCount ?d' > 4 \<and> loCount ?d' > 4
       then (?d'\<lparr>hasSync := True\<rparr>, [EVENT_SYNC_CHANGED True (of_nat n)]) else (?d', []))"
    unfolding acquire_def Let_def by simp
  moreover have "ranges_of n ?d'" "ranges_of n (?d'\<lparr>hasSync := True\<rparr>)"
    using d'(1) by (simp_all add: ranges_of_def)
  ultimately show ?thesis
    using d' pe by (auto simp: synced_def acquiring_def)
qed


abbreviation enough :: "nat \<Rightarrow> nat \<Rightarrow> bool" where
  "enough a b \<equiv> (of_nat a :: u8) > 4 \<and> (of_nat b :: u8) > 4"

lemma acquiring_run:
  assumes "acquiring n a b d" and "\<forall>s \<in> set ss. in_range n s"
    and "\<forall>k \<le> length ss. k > 0 \<longrightarrow> \<not> enough (a + shorts n (take k ss)) (b + longs n (take k ss))"
  shows "\<exists>d'. checkPulses d ss = (d', []) \<and> acquiring n (a + shorts n ss) (b + longs n ss) d'"
  using assms
proof (induction ss arbitrary: a b d)
  case Nil
  then show ?case by (simp add: shorts_def longs_def)
next
  case (Cons s ss)
  define a' where "a' = (if short_for n (getLengthUs s) then Suc a else a)"
  define b' where "b' = (if short_for n (getLengthUs s) then b else Suc b)"
  have n: "0 < n" using Cons.prems(1) by (auto simp: acquiring_def)
  have long: "long_for n (getLengthUs s) \<longleftrightarrow> \<not> short_for n (getLengthUs s)"
    using Cons.prems(2) short_not_long [OF _ n] by (auto simp: in_range_def)
  have cnt: "a + shorts n (s # q) = a' + shorts n q" "b + longs n (s # q) = b' + longs n q" for q
    by (auto simp: shorts_def longs_def a'_def b'_def long)
  have "\<not> enough a' b'"
    using Cons.prems(3) [rule_format, of 1] cnt [of "[]"] by (auto simp: shorts_def longs_def)
  then have step: "acquiring n a' b' (fst (check_pulse d s))" "snd (check_pulse d s) = []"
    using acquiring_step [OF Cons.prems(1), of s] Cons.prems(2) by (auto simp: a'_def b'_def)
  have "\<not> enough (a' + shorts n (take k ss)) (b' + longs n (take k ss))" if "k \<le> length ss" for k
    using Cons.prems(3) [rule_format, of "Suc k"] that cnt [of "take k ss"] by simp
  then obtain d' where "checkPulses (fst (check_pulse d s)) ss = (d', [])"
    "acquiring n (a' + shorts n ss) (b' + longs n ss) d'"
    using Cons.IH [OF step(1)] Cons.prems(2) by auto
  then show ?case using step(2) cnt [of ss]
    by (simp add: checkPulses_Cons del: checkPulses.simps(2))
qed

lemma enough_nat: "a < 256 \<Longrightarrow> b < 256 \<Longrightarrow> enough a b \<longleftrightarrow> 5 \<le> a \<and> 5 \<le> b"
  by (auto simp: word_less_nat_alt unat_of_nat)

lemma shorts_take_le: "shorts n (take k ss) \<le> shorts n ss"
  by (metis append_take_drop_id filter_append length_append le_add1 shorts_def)

lemma longs_take_le: "longs n (take k ss) \<le> longs n ss"
  by (metis append_take_drop_id filter_append length_append le_add1 longs_def)

lemma shorts_le: "shorts n ss \<le> length ss" and longs_le: "longs n ss \<le> length ss"
  by (simp_all add: shorts_def longs_def)

lemma acquires:
  assumes d: "acquiring n 0 0 d" and good: "\<forall>s \<in> set (as @ [x]). in_range n s"
    and len: "length as < 255"
    and enough: "5 \<le> shorts n (as @ [x])" "5 \<le> longs n (as @ [x])"
    and first: "shorts n as < 5 \<or> longs n as < 5"
  shows "\<exists>d'. checkPulses d (as @ [x]) = (d', [EVENT_SYNC_CHANGED True (of_nat n)]) \<and> synced n d'"
proof -
  have n: "0 < n" using d by (auto simp: acquiring_def)
  have "\<not> enough (0 + shorts n (take k as)) (0 + longs n (take k as))" for k
  proof -
    have "shorts n (take k as) \<le> shorts n as" "longs n (take k as) \<le> longs n as"
      "shorts n as < 256" "longs n as < 256"
      using shorts_take_le longs_take_le shorts_le [of n as] longs_le [of n as] len by auto
    then show ?thesis using first by (subst enough_nat) auto
  qed
  then obtain d1 where d1: "checkPulses d as = (d1, [])" "acquiring n (shorts n as) (longs n as) d1"
    using acquiring_run [OF d, of as] good by auto
  let ?a = "if short_for n (getLengthUs x) then Suc (shorts n as) else shorts n as"
  let ?b = "if short_for n (getLengthUs x) then longs n as else Suc (longs n as)"
  have ab: "?a = shorts n (as @ [x])" "?b = longs n (as @ [x])"
    using good short_not_long [OF _ n] by (auto simp: shorts_def longs_def in_range_def)
  have "enough ?a ?b"
    unfolding ab using enough len shorts_le [of n "as @ [x]"] longs_le [of n "as @ [x]"]
    by (subst enough_nat) auto
  then have "synced n (fst (check_pulse d1 x)) \<and>
      snd (check_pulse d1 x) = [EVENT_SYNC_CHANGED True (of_nat n)]"
    using acquiring_step [OF d1(2), of x] good by auto
  then show ?thesis using d1(1)
    by (cases "check_pulse d1 x") (simp add: checkPulses_append)
qed

lemma acquiring_reset: "acquiring 16 0 0 (carrier_reset d)"
proof -
  let ?d = "d\<lparr>carrierDivider := 16, errorCount := 0, pulseCount := 0, hasSync := False,
          loCount := 0, hiCount := 0\<rparr>"
  have "ranges_of 16 (updatePulseRange ?d)" using updatePulseRange_ranges [of ?d] by simp
  then show ?thesis by (simp add: acquiring_def carrier_reset_def)
qed

section \<open>Giving up on a divider\<close>

lemma acquiring_next:
  assumes n: "n \<in> {16, 32, 64}" and r: "ranges_of n d"
  shows "acquiring (unat (next_divider (of_nat n))) 0 0 (fst (next_carrier d))"
proof -
  let ?d = "d\<lparr>hasSync := False, loCount := 0, hiCount := 0, errorCount := 0, pulseCount := 0,
    carrierDivider := next_divider (carrierDivider d)\<rparr>"
  have c: "carrierDivider d = of_nat n" using r by (simp add: ranges_of_def)
  then have i: "carrierDivider d \<in> {16, 32, 64}" using n by auto
  have "ranges_of (unat (next_divider (carrierDivider d))) (updatePulseRange ?d)"
    using updatePulseRange_ranges [of ?d] next_divider_cases [OF i] by simp
  moreover have "unat (next_divider (carrierDivider d)) \<in> {16, 32, 64}"
    using next_divider_cases [OF i] by auto
  ultimately show ?thesis by (simp add: next_carrier_def acquiring_def c)
qed

text \<open>\<open>p\<close> pulses and \<open>e\<close> errors in the current window; without synchronisation, no short pulse yet.\<close>

definition failing :: "nat \<Rightarrow> bool \<Rightarrow> nat \<Rightarrow> nat \<Rightarrow> carrier \<Rightarrow> bool" where
  "failing n sync p e d \<longleftrightarrow> n \<in> {16, 32, 64} \<and> ranges_of n d \<and> unat (pulseCount d) = p \<and> p < 50 \<and>
     unat (errorCount d) = e \<and> hasSync d = sync \<and> (\<not> sync \<longrightarrow> loCount d = 0)"

definition errors :: "nat \<Rightarrow> sample list \<Rightarrow> nat" where
  "errors n ss = length (filter (\<lambda>s. \<not> in_range n s) ss)"

definition seen :: "nat \<Rightarrow> bool \<Rightarrow> sample list \<Rightarrow> carrier_event list" where
  "seen n sync ss = (if sync then map (pulse_event n) (filter (in_range n) ss) else [])"

lemma failing_step:
  assumes d: "failing n sync p e d" and e: "e < 10" and p: "Suc p < 50"
    and s: "sync \<or> \<not> short_for n (getLengthUs s)"
  shows "failing n sync (Suc p) (e + errors n [s]) (fst (check_pulse d s)) \<and>
     snd (check_pulse d s) = seen n sync [s]"
proof -
  let ?d = "d\<lparr>pulseCount := pulseCount d + 1\<rparr>"
  have d': "ranges_of n d" "n \<in> {16, 32, 64}" "unat (pulseCount d) = p" "unat (errorCount d) = e"
    "hasSync d = sync" "\<not> sync \<Longrightarrow> loCount d = 0"
    using d by (simp_all add: failing_def)
  have c: "unat (pulseCount d + 1) = Suc p" using d'(3) p by (simp add: unat_word_ariths)
  then have "pulseCount d + 1 \<noteq> 50" using p by (auto simp: word_unat_eq_iff)
  moreover have "\<not> 10 \<le> errorCount d" using d'(4) e by (simp add: word_le_nat_alt)
  ultimately have step: "check_pulse d s = (if \<not> sync then acquire ?d (getLengthUs s) else classify ?d s)"
    by (simp add: check_pulse_def PULSE_MAX_def ERROR_TRESHOLD_def Let_def d'(5))
  have r: "ranges_of n ?d" using d'(1) by (simp add: ranges_of_def)
  have e1: "unat (errorCount d + 1) = Suc e" using d'(4) e by (simp add: unat_word_ariths)
  show ?thesis
  proof (cases sync)
    case True
    then show ?thesis using d' c e1 p
      by (auto simp: step classify_def PULSE_ranges [OF r d'(2)] failing_def errors_def seen_def
          in_range_def pulse_event_def isLow_def ranges_of_def)
  next
    case False
    then show ?thesis using d' c e1 p s
      by (auto simp: step acquire_def Let_def PULSE_ranges [OF r d'(2)] failing_def errors_def seen_def
          in_range_def ranges_of_def)
  qed
qed

lemma failing_run:
  assumes "failing n sync p e d" and "e + errors n ss \<le> 10" and "p + length ss < 50"
    and "sync \<or> (\<forall>s \<in> set ss. \<not> short_for n (getLengthUs s))"
    and "ss \<noteq> [] \<Longrightarrow> \<not> in_range n (last ss)"
  shows "\<exists>d'. checkPulses d ss = (d', seen n sync ss) \<and>
     failing n sync (p + length ss) (e + errors n ss) d'"
  using assms
proof (induction ss arbitrary: p e d)
  case Nil
  then show ?case by (simp add: seen_def errors_def)
next
  case (Cons s ss)
  have add: "errors n (s # ss) = errors n [s] + errors n ss" "seen n sync (s # ss) = seen n sync [s] @ seen n sync ss"
    by (simp_all add: errors_def seen_def)
  have "1 \<le> errors n (s # ss)"
  proof -
    have "last (s # ss) \<in> set (filter (\<lambda>s. \<not> in_range n s) (s # ss))"
      using Cons.prems(5) by (simp only: set_filter mem_Collect_eq) (metis last_in_set list.distinct(1))
    then have "filter (\<lambda>s. \<not> in_range n s) (s # ss) \<noteq> []" by (metis empty_iff empty_set)
    then show ?thesis unfolding errors_def by (cases "filter (\<lambda>s. \<not> in_range n s) (s # ss)") auto
  qed
  then have e: "e < 10" using Cons.prems(2) by simp
  have step: "failing n sync (Suc p) (e + errors n [s]) (fst (check_pulse d s))"
    "snd (check_pulse d s) = seen n sync [s]"
    using failing_step [OF Cons.prems(1) e, of s] Cons.prems(3,4) by auto
  obtain d' where "checkPulses (fst (check_pulse d s)) ss = (d', seen n sync ss)"
    "failing n sync (Suc p + length ss) (e + errors n [s] + errors n ss) d'"
    using Cons.IH [OF step(1)] Cons.prems(2-5) add(1) by (auto split: if_splits)
  then show ?case using step(2)
    by (simp add: checkPulses_Cons add add.assoc del: checkPulses.simps(2))
qed

lemma moves_on:
  assumes d: "failing n sync p e d" and e: "e + errors n ss = 10" and p: "p + length ss < 50"
    and s: "sync \<or> (\<forall>s \<in> set ss. \<not> short_for n (getLengthUs s))"
    and l: "ss \<noteq> []" "\<not> in_range n (last ss)"
  shows "\<exists>d'. checkPulses d (ss @ [x]) = (d', seen n sync ss @ [EVENT_SYNC_CHANGED False 0]) \<and>
     acquiring (unat (next_divider (of_nat n))) 0 0 d'"
proof -
  obtain d1 where d1: "checkPulses d ss = (d1, seen n sync ss)" "failing n sync (p + length ss) 10 d1"
    using failing_run [OF d _ p s] e l by auto
  have r: "ranges_of n (d1\<lparr>pulseCount := pulseCount d1 + 1\<rparr>)" "n \<in> {16, 32, 64}" "unat (errorCount d1) = 10"
    using d1(2) by (simp_all add: failing_def ranges_of_def)
  let ?d1 = "d1\<lparr>pulseCount := pulseCount d1 + 1\<rparr>"
  have "check_pulse d1 x = next_carrier ?d1"
    using r(3) by (simp add: check_pulse_def ERROR_TRESHOLD_def Let_def word_le_nat_alt)
  also have "\<dots> = (fst (next_carrier ?d1), [EVENT_SYNC_CHANGED False 0])"
    by (simp add: next_carrier_def Let_def)
  finally show ?thesis
    using acquiring_next [OF r(2,1)] d1(1) by (auto simp: checkPulses_append)
qed

section \<open>Properties\<close>

text \<open>
  C29. Invariant of the classifier: after any samples the divider is 16, 32 or 64, the four limits
  are those of the divider (short pulses 3 to 5 times, long ones 7 to 9 times the divider in
  microseconds), fewer than 50 pulses are in the current window and at most ten errors are
  counted.
\<close>
theorem carrier_invariant: "carrier_ok (fst (checkPulses (carrier_reset d) ss))"
  by (rule carrier_ok_checkPulses [OF carrier_ok_reset])

text \<open>
  C16. Acquisition and classification: a classifier searching at divider \<open>n\<close> that sees only
  pulses of the two lengths of \<open>n\<close> synchronises, with one notification carrying the divider, at
  the pulse with which both kinds have been seen five times (within 255 pulses), and from then
  on reports every pulse, in order, with its level and whether it is long, and nothing else.
\<close>
theorem carrier_decodes:
  assumes "acquiring n 0 0 d" and "\<forall>s \<in> set (as @ [x] @ ss). in_range n s" and "length as < 255"
    and "5 \<le> shorts n (as @ [x])" and "5 \<le> longs n (as @ [x])"
    and "shorts n as < 5 \<or> longs n as < 5"
  shows "\<exists>d'. checkPulses d (as @ [x] @ ss) =
       (d', EVENT_SYNC_CHANGED True (of_nat n) # map (pulse_event n) ss) \<and> hasSync d'"
proof -
  obtain d1 where d1: "checkPulses d (as @ [x]) = (d1, [EVENT_SYNC_CHANGED True (of_nat n)])" "synced n d1"
    using acquires [OF assms(1) _ assms(3-6)] assms(2) by auto
  obtain d2 where "checkPulses d1 ss = (d2, map (pulse_event n) ss)" "synced n d2"
    using synced_run [OF d1(2)] assms(2) by auto
  then show ?thesis using d1(1) checkPulses_append [of d "as @ [x]" ss] by (auto simp: synced_def)
qed

definition us :: "int \<Rightarrow> sample" where
  "us n = \<lparr>getLengthUs = n, isHigh = True\<rparr>"

theorem carrier_decodes_witness:
  "\<exists>d'. checkPulses (carrier_reset undefined)
       ((replicate 5 (us 64) @ replicate 4 (us 128)) @ [us 130] @ [us 70, us 128]) =
     (d', EVENT_SYNC_CHANGED True (of_nat 16) # map (pulse_event 16) [us 70, us 128]) \<and> hasSync d'"
  by (rule carrier_decodes [OF acquiring_reset])
     (auto simp: in_range_def short_for_def long_for_def us_def shorts_def longs_def)

text \<open>
  Error handling: pulses of neither length. At the pulse after the tenth error of a window the
  classifier, synchronised or not, announces the loss of synchronisation once, skips that
  pulse, moves on to the next divider (16, 32, 64 and back to 16) and starts counting afresh;
  until then a synchronised classifier still reports the pulses of proper length.
\<close>
lemma carrier_moves_on:
  assumes "failing n sync p e d" and "e + errors n ss = 10" and "p + length ss < 50"
    and "sync \<or> (\<forall>s \<in> set ss. \<not> short_for n (getLengthUs s))"
    and "ss \<noteq> []" and "\<not> in_range n (last ss)"
  shows "\<exists>d'. checkPulses d (ss @ [x]) = (d', seen n sync ss @ [EVENT_SYNC_CHANGED False 0]) \<and>
     acquiring (unat (next_divider (of_nat n))) 0 0 d'"
  using moves_on [OF assms] .

lemma failing_reset: "failing 16 False 0 0 (carrier_reset d)"
  using acquiring_reset [of d] by (auto simp: failing_def acquiring_def carrier_reset_def)

lemma carrier_moves_on_example:
  "\<exists>d'. checkPulses (carrier_reset undefined) (replicate 10 (us 256) @ [us 256]) =
     (d', seen 16 False (replicate 10 (us 256)) @ [EVENT_SYNC_CHANGED False 0]) \<and>
     acquiring (unat (next_divider (of_nat 16))) 0 0 d'"
  by (rule carrier_moves_on [OF failing_reset])
     (auto simp: in_range_def short_for_def long_for_def us_def errors_def)

text \<open>
  The pulse counters of the search are bytes and wrap: after 256 short pulses the classifier
  has forgotten them, and any number of long pulses that follow does not synchronise it.
\<close>
lemma acquisition_counter_wraps:
  assumes "acquiring n 0 0 d" and "length as = 256" and "\<forall>s \<in> set as. short_for n (getLengthUs s)"
    and "\<forall>s \<in> set bs. long_for n (getLengthUs s)"
  shows "\<exists>d'. checkPulses d (as @ bs) = (d', []) \<and> \<not> hasSync d'"
proof -
  have n: "0 < n" using assms(1) by (auto simp: acquiring_def)
  have all: "filter (\<lambda>s. short_for n (getLengthUs s)) (take k as) = take k as"
    "filter (\<lambda>s. long_for n (getLengthUs s)) (take k as) = []"
    "filter (\<lambda>s. short_for n (getLengthUs s)) (take k bs) = []" for k
    using assms(3,4) short_not_long [OF _ n]
    by (auto simp: filter_id_conv filter_empty_conv dest!: in_set_takeD)
  have "\<not> enough (0 + shorts n (take k (as @ bs))) (0 + longs n (take k (as @ bs)))" for k
  proof (cases "k \<le> 256")
    case True
    then show ?thesis using assms(2) all(2) [of k] by (simp add: longs_def)
  next
    case False
    then have "shorts n (take k (as @ bs)) = 256" using assms(2) all(1) [of 256] all(3) by (simp add: shorts_def)
    then show ?thesis by simp
  qed
  then obtain d' where "checkPulses d (as @ bs) = (d', [])"
    "acquiring n (0 + shorts n (as @ bs)) (0 + longs n (as @ bs)) d'"
    using acquiring_run [OF assms(1), of "as @ bs"] assms(3,4) by (auto simp: in_range_def)
  then show ?thesis by (auto simp: acquiring_def)
qed

lemma acquisition_counter_wraps_example:
  "\<exists>d'. checkPulses (carrier_reset undefined) (replicate 256 (us 64) @ replicate 100 (us 128)) = (d', []) \<and>
     \<not> hasSync d'"
  by (rule acquisition_counter_wraps [OF acquiring_reset])
     (auto simp: short_for_def long_for_def us_def)

end
