(* ===== verification/Coding_Decoders.thy ===== *)
theory Coding_Decoders
  imports Carrier_Decoder
begin

text \<open>
  The line codes of the host tool (\<open>rfid-tool/src/rfid/impl/ManchesterDecoder.cpp\<close>,
  \<open>BiphaseDecoder.cpp\<close>, \<open>inc/rfid/CodingDecoder.hpp\<close>): two state machines that turn the pulses
  of the carrier decoder into bits. The locale \<open>coding_decoder\<close> is the contract of
  \<open>CodingDecoder\<close>: a pulse code that is decoded exactly when in step, and in step after any long
  pulse; both classes are interpretations of it.
\<close>

section \<open>ManchesterDecoder\<close>

record manchester =
  ffOut :: bool
  timerRunning :: bool

definition manchester_reset :: manchester where
  "manchester_reset = \<lparr>ffOut = False, timerRunning = False\<rparr>"

text \<open>The branch \<open>EVENT_NEW_PULSE\<close> of \<open>onEvent\<close>; the result has the bits notified.\<close>

definition manchester_pulse :: "manchester \<Rightarrow> bool \<Rightarrow> bool \<Rightarrow> manchester \<times> bool list" where
  "manchester_pulse d high long =
     (if timerRunning d then
        (let d = d\<lparr>ffOut := high, timerRunning := long\<rparr>;
             evs = [ffOut d]
         in if timerRunning d then (d\<lparr>timerRunning := (ffOut d \<noteq> high)\<rparr>, evs) else (d, evs))
      else
        (let timerTrigger = (high \<noteq> ffOut d)
         in if timerTrigger then
              if long then (let d = d\<lparr>timerRunning := False, ffOut := high\<rparr> in (d, [ffOut d]))
              else (d\<lparr>timerRunning := True\<rparr>, [])
            else (d, [])))"

fun manchester_onEvent :: "manchester \<Rightarrow> carrier_event \<Rightarrow> manchester \<times> bool list" where
  "manchester_onEvent d (EVENT_NEW_PULSE high long) = manchester_pulse d high long"
| "manchester_onEvent d (EVENT_SYNC_CHANGED _ _) = (manchester_reset, [])"

section \<open>BiphaseDecoder\<close>

record biphase =
  lastShort :: bool

definition biphase_reset :: biphase where
  "biphase_reset = \<lparr>lastShort = False\<rparr>"

definition biphase_pulse :: "biphase \<Rightarrow> bool \<Rightarrow> bool \<Rightarrow> biphase \<times> bool list" where
  "biphase_pulse d high long =
     (if long then (d\<lparr>lastShort := False\<rparr>, [True])
      else if lastShort d then (d\<lparr>lastShort := False\<rparr>, [False])
      else (d\<lparr>lastShort := True\<rparr>, []))"

fun biphase_onEvent :: "biphase \<Rightarrow> carrier_event \<Rightarrow> biphase \<times> bool list" where
  "biphase_onEvent d (EVENT_NEW_PULSE high long) = biphase_pulse d high long"
| "biphase_onEvent d (EVENT_SYNC_CHANGED _ _) = (biphase_reset, [])"

section \<open>Runs of a decoder\<close>

fun run_pulses :: "('s \<Rightarrow> bool \<Rightarrow> bool \<Rightarrow> 's \<times> bool list) \<Rightarrow> 's \<Rightarrow> (bool \<times> bool) list \<Rightarrow> 's \<times> bool list" where
  "run_pulses step s [] = (s, [])"
| "run_pulses step s (p # ps) =
     (let (s, bs) = step s (fst p) (snd p); (s, bs') = run_pulses step s ps in (s, bs @ bs'))"

lemma run_pulses_append:
  "run_pulses step s (as @ bs) =
     (let (s, xs) = run_pulses step s as; (s, ys) = run_pulses step s bs in (s, xs @ ys))"
  by (induction as arbitrary: s) (auto split: prod.splits)

section \<open>The contract of a coding decoder\<close>

text \<open>
  \<open>encode c bs\<close> are the pulses (level, long) of the bits \<open>bs\<close> on a line in situation \<open>c\<close>,
  \<open>aligned c\<close> the decoder's state in step with it. A long pulse occurs only at one place of a
  bit, so it puts the decoder in step, and tells at most its own bit.
\<close>

locale coding_decoder =
  fixes step :: "'s \<Rightarrow> bool \<Rightarrow> bool \<Rightarrow> 's \<times> bool list"
    and encode :: "'c \<Rightarrow> bool list \<Rightarrow> (bool \<times> bool) list"
    and aligned :: "'c \<Rightarrow> 's"
    and after :: "'c \<Rightarrow> bool \<Rightarrow> 'c"
    and after_long :: "bool \<Rightarrow> 'c"
    and long_bit :: "bool \<Rightarrow> bool"
  assumes encode_Nil: "encode c [] = []"
    and encode_Cons: "encode c (b # bs) = encode c [b] @ encode (after c b) bs"
    and decode_bit: "run_pulses step (aligned c) (encode c [b]) = (aligned (after c b), [b])"
    and long_aligns: "fst (step s h True) = aligned (after_long h)"
    and long_tells: "snd (step s h True) \<in> {[], [long_bit h]}"
begin

definition situation :: "'c \<Rightarrow> bool list \<Rightarrow> 'c" where
  "situation c bs = foldl after c bs"

lemma decodes: "run_pulses step (aligned c) (encode c bs) = (aligned (situation c bs), bs)"
proof (induction bs arbitrary: c)
  case Nil
  then show ?case by (simp add: encode_Nil situation_def)
next
  case (Cons b bs)
  then show ?case
    by (subst encode_Cons) (simp add: run_pulses_append decode_bit situation_def)
qed

lemma encode_append: "encode c (as @ bs) = encode c as @ encode (situation c as) bs"
proof (induction as arbitrary: c)
  case Nil
  then show ?case by (simp add: encode_Nil situation_def)
next
  case (Cons a as)
  then show ?case
    using encode_Cons [of c a "as @ bs"] encode_Cons [of c a as] by (simp add: situation_def)
qed

text \<open>From any state whatever, after a long pulse all bits are right.\<close>

lemma self_synchronises:
  "\<exists>s' xs. run_pulses step s ((h, True) # encode (after_long h) bs) = (s', xs @ bs) \<and>
     xs \<in> {[], [long_bit h]}"
proof -
  obtain s1 xs where s1: "step s h True = (s1, xs)" by (cases "step s h True")
  then have "s1 = aligned (after_long h)" "xs \<in> {[], [long_bit h]}"
    using long_aligns [of s h] long_tells [of s h] by simp_all
  then show ?thesis using s1 decodes [of "after_long h" bs] by simp
qed

end

section \<open>The Manchester code\<close>

text \<open>
  A bit is sent as two halves, its value and the opposite. After a bit \<open>b\<close>, an equal bit is the
  second half of \<open>b\<close> and the first half of the new bit, two short pulses; a different bit
  merges the two into one long pulse.
\<close>

fun manchester_halves :: "bool list \<Rightarrow> bool list" where
  "manchester_halves [] = []"
| "manchester_halves (b # bs) = b # (\<not> b) # manchester_halves bs"

fun manchester_pulses :: "bool \<Rightarrow> bool list \<Rightarrow> (bool \<times> bool) list" where
  "manchester_pulses b [] = []"
| "manchester_pulses b (c # cs) =
     (if c = b then [(\<not> b, False), (b, False)] else [(c, True)]) @ manchester_pulses c cs"

definition manchester_aligned :: "bool \<Rightarrow> manchester" where
  "manchester_aligned b = \<lparr>ffOut = b, timerRunning = False\<rparr>"

interpretation man: coding_decoder manchester_pulse manchester_pulses manchester_aligned
    "\<lambda>_ b. b" "\<lambda>h. h" "\<lambda>h. h"
proof
  fix b c :: bool and bs :: "bool list" and s :: manchester and h :: bool
  show "manchester_pulses c [] = []" by simp
  show "manchester_pulses c (b # bs) = manchester_pulses c [b] @ manchester_pulses b bs" by simp
  show "run_pulses manchester_pulse (manchester_aligned c) (manchester_pulses c [b]) = (manchester_aligned b, [b])"
    by (cases b; cases c) (simp_all add: manchester_aligned_def manchester_pulse_def)
  show "fst (manchester_pulse s h True) = manchester_aligned h"
    by (cases s) (auto simp: manchester_aligned_def manchester_pulse_def)
  show "snd (manchester_pulse s h True) \<in> {[], [h]}"
    by (cases s) (auto simp: manchester_pulse_def)
qed

text \<open>The pulses are the runs of the halves: as levels they are the halves, and neighbours differ.\<close>

definition pulse_levels :: "(bool \<times> bool) list \<Rightarrow> bool list" where
  "pulse_levels ps = concat (map (\<lambda>(h, l). replicate (if l then 2 else 1) h) ps)"

fun alternating :: "bool \<Rightarrow> (bool \<times> bool) list \<Rightarrow> bool" where
  "alternating h [] \<longleftrightarrow> True"
| "alternating h (p # ps) \<longleftrightarrow> fst p = h \<and> alternating (\<not> h) ps"

lemma manchester_pulses_levels:
  "pulse_levels (manchester_pulses b cs) @ [\<not> last (b # cs)] = tl (manchester_halves (b # cs))"
  by (induction cs arbitrary: b) (auto simp: pulse_levels_def numeral_2_eq_2)

lemma manchester_pulses_alternating: "alternating (\<not> b) (manchester_pulses b cs)"
proof (induction cs arbitrary: b)
  case (Cons c cs)
  then show ?case using Cons.IH [of c] by (cases b; cases c) simp_all
qed simp

text \<open>
  Before the first long pulse a decoder that was just reset reports only zeros, whatever the
  phase it was started in.
\<close>

lemma manchester_zeros:
  assumes "\<not> ffOut d" and "\<forall>p \<in> set ps. \<not> snd p" and "alternating h ps"
    and "timerRunning d \<longrightarrow> \<not> h"
  shows "\<exists>k d'. run_pulses manchester_pulse d ps = (d', replicate k False) \<and> \<not> ffOut d'"
  using assms
proof (induction ps arbitrary: d h)
  case Nil
  then show ?case by (intro exI [of _ 0]) simp
next
  case (Cons p ps)
  obtain d1 xs where d1: "manchester_pulse d (fst p) (snd p) = (d1, xs)" by (cases "manchester_pulse d (fst p) (snd p)")
  have "\<not> ffOut d1" "timerRunning d1 \<longrightarrow> \<not> (\<not> h)" "xs = [] \<or> xs = [False]"
    using d1 Cons.prems by (auto simp: manchester_pulse_def Let_def split: if_splits)
  moreover obtain k d' where "run_pulses manchester_pulse d1 ps = (d', replicate k False)" "\<not> ffOut d'"
    using Cons.IH [of d1 "\<not> h"] Cons.prems calculation by auto
  moreover have "[False] @ replicate k False = replicate (Suc k) False" by simp
  ultimately show ?case using d1 by (auto simp del: replicate.simps)
qed

section \<open>The biphase code\<close>

text \<open>The level changes at the end of every bit, and in the middle of a zero.\<close>

fun biphase_pulses :: "bool \<Rightarrow> bool list \<Rightarrow> (bool \<times> bool) list" where
  "biphase_pulses h [] = []"
| "biphase_pulses h (b # bs) =
     (if b then (h, True) # biphase_pulses (\<not> h) bs
      else (h, False) # (\<not> h, False) # biphase_pulses h bs)"

lemma biphase_pulses_alternating: "alternating h (biphase_pulses h bs)"
  by (induction bs arbitrary: h) auto

interpretation bi: coding_decoder biphase_pulse biphase_pulses "\<lambda>_. biphase_reset"
    "\<lambda>h b. h \<noteq> b" "\<lambda>h. \<not> h" "\<lambda>_. True"
proof
  fix b c :: bool and bs :: "bool list" and s :: biphase and h :: bool
  show "biphase_pulses c [] = []" by simp
  show "biphase_pulses c (b # bs) = biphase_pulses c [b] @ biphase_pulses (c \<noteq> b) bs" by (cases b) simp_all
  show "run_pulses biphase_pulse biphase_reset (biphase_pulses c [b]) = (biphase_reset, [b])"
    by (cases b) (simp_all add: biphase_reset_def biphase_pulse_def)
  show "fst (biphase_pulse s h True) = biphase_reset"
    by (cases s) (simp add: biphase_reset_def biphase_pulse_def)
  show "snd (biphase_pulse s h True) \<in> {[], [True]}"
    by (simp add: biphase_pulse_def)
qed


section \<open>Properties\<close>

text \<open>
  C17. The Manchester decoder, started in any state in the middle of a transmission: from the first
  long pulse on it reports exactly the bits sent, apart from at most the one bit the long pulse
  itself belongs to. The pulses are those of the line: levels with the halves of the bits
  (value, then opposite), cut where the level changes.
\<close>
theorem manchester_self_synchronises:
  shows "\<exists>s' xs. run_pulses manchester_pulse s ((h, True) # manchester_pulses h bs) = (s', xs @ bs) \<and>
           xs \<in> {[], [h]} \<and>
           pulse_levels (manchester_pulses h bs) @ [\<not> last (h # bs)] = tl (manchester_halves (h # bs)) \<and>
           alternating (\<not> h) (manchester_pulses h bs)"
  using man.self_synchronises [of s h bs] manchester_pulses_levels manchester_pulses_alternating
  by blast

text \<open>
  C18. The biphase decoder, started in any state in the middle of a transmission: from the first
  long pulse (a one) on it reports exactly the bits sent.
\<close>
theorem biphase_self_synchronises:
  shows "\<exists>s' xs. run_pulses biphase_pulse s ((h, True) # biphase_pulses (\<not> h) bs) = (s', xs @ bs) \<and>
           xs \<in> {[], [True]} \<and> alternating (\<not> h) (biphase_pulses (\<not> h) bs)"
  using bi.self_synchronises [of s h bs] biphase_pulses_alternating by blast

end
