(* ===== verification/Data_Utils.thy ===== *)
theory Data_Utils
  imports Prelude
begin

unbundle bit_operations_syntax

text \<open>
  The bit utilities of the host tool (\<open>rfid-tool/inc/common/DataUtils.hpp\<close>,
  \<open>src/common/DataUtils.cpp\<close>): parity of nibbles and bytes, the table of reversed nibbles, and
  writing bits into a buffer of 32-bit words. The abstract view of such a buffer is the sequence
  of its bits, lowest first.
\<close>

section \<open>The functions of DataUtils\<close>

definition REVERSED_NIBBLE :: "u8 list" where
  "REVERSED_NIBBLE =
     [0x00, 0x08, 0x04, 0x0c, 0x02, 0x0a, 0x06, 0x0e,
      0x01, 0x09, 0x05, 0x0d, 0x03, 0x0b, 0x07, 0x0f]"

definition PARITY :: u16 where
  "PARITY = 27030"

definition parityNibble :: "u8 \<Rightarrow> u8" where
  "parityNibble nibble = ucast (drop_bit (unat (nibble AND 0x0f)) PARITY AND 1)"

definition parityByte :: "u8 \<Rightarrow> u8" where
  "parityByte byte =
     (let byte = byte XOR drop_bit 4 byte;
          byte = byte XOR drop_bit 2 byte;
          byte = byte XOR drop_bit 1 byte
      in byte AND 1)"

definition reverseNibble :: "u8 \<Rightarrow> u8 option" where
  "reverseNibble nibble = rd REVERSED_NIBBLE (unat nibble)"

text \<open>The result of the C functions is the number of bits written.\<close>

definition putBit :: "u32 list \<Rightarrow> u8 \<Rightarrow> bool \<Rightarrow> (u32 list \<times> u8) option" where
  "putBit buffer bitOffset b = do {
     let idx = unat (bitOffset div 32);
     w \<leftarrow> rd buffer idx;
     let m = push_bit (unat (bitOffset mod 32)) 1;
     buffer \<leftarrow> wr buffer idx (if b then w OR m else w AND NOT m);
     Some (buffer, 1)
   }"

text \<open>The loop of \<open>putBitsMsb\<close>, with \<open>i\<close> counting down from \<open>bitsCount\<close>.\<close>

fun putBitsMsb_loop :: "u32 list \<Rightarrow> u8 \<Rightarrow> u16 \<Rightarrow> u8 \<Rightarrow> nat \<Rightarrow> u32 list option" where
  "putBitsMsb_loop buffer bitOffset bits bitsCount 0 = Some buffer"
| "putBitsMsb_loop buffer bitOffset bits bitsCount (Suc i) = do {
     (buffer, n) \<leftarrow> putBit buffer (bitOffset + bitsCount - of_nat (Suc i)) (bits AND push_bit i 1 \<noteq> 0);
     putBitsMsb_loop buffer bitOffset bits bitsCount i
   }"

definition putBitsMsb :: "u32 list \<Rightarrow> u8 \<Rightarrow> u16 \<Rightarrow> u8 \<Rightarrow> (u32 list \<times> u8) option" where
  "putBitsMsb buffer bitOffset bits bitsCount = do {
     buffer \<leftarrow> putBitsMsb_loop buffer bitOffset bits bitsCount (unat bitsCount);
     Some (buffer, bitsCount)
   }"

section \<open>Nibbles\<close>

lemma nibble_cases:
  assumes "unat (x :: u8) < 16"
  shows "x \<in> {0, 1, 2, 3, 4, 5, 6, 7, 8, 9, 10, 11, 12, 13, 14, 15}"
proof -
  have "unat x \<in> {0, 1, 2, 3, 4, 5, 6, 7, 8, 9, 10, 11, 12, 13, 14, 15}"
    using assms by (simp only: insert_iff empty_iff) presburger
  then show ?thesis by (auto simp: word_unat_eq_iff)
qed

lemma unat_and_15: "unat (x AND 0x0f :: u8) < 16"
proof -
  have "x AND 0x0f \<le> 0x0f" by (simp add: word_and_le1)
  then show ?thesis by (simp add: word_le_nat_alt)
qed

definition small :: "u8 \<Rightarrow> bool" where
  "small x \<longleftrightarrow> unat x < 16"

lemma small_iff: "small x \<longleftrightarrow> (\<forall>i \<ge> 4. \<not> bit x i)"
proof
  assume "small x"
  then have "take_bit 4 (unat x) = unat x" by (intro take_bit_nat_eq_self) (simp add: small_def)
  then have i: "i < 4" if "bit (unat x) i" for i using that by (metis bit_take_bit_iff)
  show "\<forall>i \<ge> 4. \<not> bit x i"
  proof (intro allI impI notI)
    fix i :: nat assume "4 \<le> i" "bit x i"
    then have "bit (unat x) i" by (simp add: bit_unsigned_iff)
    then show False using i \<open>4 \<le> i\<close> by fastforce
  qed
next
  assume *: "\<forall>i \<ge> 4. \<not> bit x i"
  then have "take_bit 4 (unat x) = unat x"
    by (intro bit_eqI) (auto simp: bit_take_bit_iff bit_unsigned_iff not_le [symmetric])
  then show "small x" 
    using take_bit_nat_less_exp [of 4 "unat x"] by (simp add: small_def)
qed

lemma smallD: "small x \<Longrightarrow> bit x i \<Longrightarrow> i < 4"
  by (meson not_le small_iff)

lemma bit_15_int: "bit (15 :: int) i \<longleftrightarrow> i < 4"
proof -
  have "bit (15 :: int) i = bit (mask 4 :: int) i" by (simp add: mask_eq_exp_minus_1)
  then show ?thesis by (simp only: bit_mask_iff possible_bit_int simp_thms)
qed

text \<open>The bits of a nibble as they go over the air: highest first.\<close>

definition nibble_bits :: "u8 \<Rightarrow> bool list" where
  "nibble_bits x = [bit x 3, bit x 2, bit x 1, bit x 0]"

definition xor_bits :: "bool list \<Rightarrow> bool" where
  "xor_bits bs = foldr (\<noteq>) bs False"

lemma parityNibble_bits: "unat x < 16 \<Longrightarrow> parityNibble x = of_bool (xor_bits (nibble_bits x))"
  using nibble_cases [of x]
  by (auto simp: parityNibble_def PARITY_def nibble_bits_def xor_bits_def bit_numeral_rec drop_bit_eq_div)

lemma reverseNibble_bits:
  assumes "unat x < 16"
  shows "\<exists>r. reverseNibble x = Some r \<and> unat r < 16 \<and> map (bit r) [0..<4] = nibble_bits x \<and>
           parityNibble r = parityNibble x"
  using nibble_cases [OF assms]
  by (auto simp: reverseNibble_def REVERSED_NIBBLE_def rd_def parityNibble_def PARITY_def
      nibble_bits_def bit_numeral_rec upt_rec [where i = 0] upt_rec [where i = "Suc 0"]
      upt_rec [where i = "Suc (Suc 0)"] upt_rec [where i = "Suc (Suc (Suc 0))"] drop_bit_eq_div)

lemma xor_assoc8:
  "(((b0 \<noteq> b4) \<noteq> (b2 \<noteq> b6)) \<noteq> ((b1 \<noteq> b5) \<noteq> (b3 \<noteq> b7))) =
     (b0 \<noteq> (b1 \<noteq> (b2 \<noteq> (b3 \<noteq> (b4 \<noteq> (b5 \<noteq> (b6 \<noteq> (b7 \<noteq> False))))))))"
  by (cases b0; cases b1; cases b2; cases b3; cases b4; cases b5; cases b6; cases b7) simp_all

lemma parityByte_bits: "parityByte x = of_bool (xor_bits (map (bit x) [0..<8]))"
proof -
  have upt: "[0..<8] = [0, 1, 2, 3, 4, 5, 6, 7 :: nat]" by (simp add: upt_rec)
  have n: "4 + 1 = (5 :: nat)" "2 + 1 = (3 :: nat)" "4 + 3 = (7 :: nat)" "4 + 2 = (6 :: nat)"
    by simp_all
  have t: "(P \<and> 0 = (0 :: nat)) = P" for P by simp
  have "bit (parityByte x) 0 \<longleftrightarrow>
      (((bit x 0 \<noteq> bit x 4) \<noteq> (bit x 2 \<noteq> bit x 6)) \<noteq> ((bit x 1 \<noteq> bit x 5) \<noteq> (bit x 3 \<noteq> bit x 7)))"
    unfolding parityByte_def Let_def bit_and_iff bit_xor_iff bit_drop_bit_eq comp_def bit_1_iff
      add_0_right n t by (rule refl)
  also note xor_assoc8
  also have "(bit x 0 \<noteq> (bit x 1 \<noteq> (bit x 2 \<noteq> (bit x 3 \<noteq> (bit x 4 \<noteq> (bit x 5 \<noteq> (bit x 6 \<noteq>
      (bit x 7 \<noteq> False)))))))) = xor_bits (map (bit x) [0..<8])"
    unfolding upt xor_bits_def list.map foldr_Cons foldr_Nil comp_def id_def by (rule refl)
  finally have "bit (parityByte x) 0 \<longleftrightarrow> xor_bits (map (bit x) [0..<8])" .
  moreover have "bit (parityByte x) i \<longleftrightarrow> i = 0 \<and> bit (parityByte x) 0" for i
    unfolding parityByte_def Let_def bit_and_iff bit_1_iff by blast
  ultimately have "bit (parityByte x) i \<longleftrightarrow> i = 0 \<and> xor_bits (map (bit x) [0..<8])" for i
    by blast
  then show ?thesis by (intro bit_word_eqI) (simp only: bit_of_bool_iff)
qed

section \<open>The buffer as a sequence of bits\<close>

definition buf_bit :: "u32 list \<Rightarrow> nat \<Rightarrow> bool" where
  "buf_bit buf i = bit (buf ! (i div 32)) (i mod 32)"

definition buf_bits :: "u32 list \<Rightarrow> bool list" where
  "buf_bits buf = map (buf_bit buf) [0..<32 * length buf]"

lemma length_buf_bits [simp]: "length (buf_bits buf) = 32 * length buf"
  by (simp add: buf_bits_def)

definition put_seg :: "(nat \<Rightarrow> bool) \<Rightarrow> nat \<Rightarrow> bool list \<Rightarrow> nat \<Rightarrow> bool" where
  "put_seg f off bs i = (if off \<le> i \<and> i < off + length bs then bs ! (i - off) else f i)"

lemma put_seg_Nil [simp]: "put_seg f off [] = f"
  by (rule ext) (auto simp: put_seg_def)

lemma put_seg_Cons: "put_seg (f(off := b)) (Suc off) bs = put_seg f off (b # bs)"
  by (rule ext) (auto simp: put_seg_def nth_Cons')

lemma put_seg_append: "put_seg (put_seg f off as) (off + length as) bs = put_seg f off (as @ bs)"
  by (rule ext) (auto simp: put_seg_def nth_append)

lemma put_seg_snoc: "(put_seg f off as)(off + length as := b) = put_seg f off (as @ [b])"
  by (rule ext) (auto simp: put_seg_def nth_append)

lemma map_put_seg: "length bs = n \<Longrightarrow> map (put_seg f 0 bs) [0..<n] = bs"
  by (rule nth_equalityI) (auto simp: put_seg_def)

lemma map_put_seg_at: "map (put_seg f off bs) [off..<off + length bs] = bs"
  by (rule nth_equalityI) (auto simp: put_seg_def)

text \<open>Writing one bit changes that bit of the view and nothing else.\<close>

lemma putBit_view:
  assumes "unat off < 32 * length buf"
  shows "\<exists>buf'. putBit buf off b = Some (buf', 1) \<and> length buf' = length buf \<and>
           buf_bit buf' = (buf_bit buf)(unat off := b)"
proof -
  let ?i = "unat off div 32" and ?m = "push_bit (unat off mod 32) 1 :: u32"
  let ?w = "if b then buf ! ?i OR ?m else buf ! ?i AND NOT ?m"
  have i: "?i < length buf" using assms by (simp add: less_mult_imp_div_less mult.commute)
  have put: "putBit buf off b = Some (buf[?i := ?w], 1)"
    using i by (simp add: putBit_def Let_def unat_div unat_mod access_simps)
  have "buf_bit (buf[?i := ?w]) j = ((buf_bit buf)(unat off := b)) j" for j
  proof (cases "j div 32 = ?i")
    case True
    then have "j = unat off \<longleftrightarrow> j mod 32 = unat off mod 32"
      by (metis div_mult_mod_eq)
    moreover have "j mod 32 < 32" by simp
    ultimately show ?thesis using True i
      by (auto simp: buf_bit_def bit_simps)
  next
    case False
    then show ?thesis by (auto simp: buf_bit_def)
  qed
  then show ?thesis using put by (intro exI [of _ "buf[?i := ?w]"]) (simp add: fun_eq_iff)
qed

lemma putBitsMsb_loop_view:
  assumes "unat off + unat n \<le> 32 * length buf" and "unat off + unat n < 256"
    and "i \<le> unat n"
  shows "\<exists>buf'. putBitsMsb_loop buf off bits n i = Some buf' \<and> length buf' = length buf \<and>
           buf_bit buf' = put_seg (buf_bit buf) (unat off + unat n - i) (rev (map (bit bits) [0..<i]))"
  using assms
proof (induction i arbitrary: buf)
  case 0
  then show ?case by simp
next
  case (Suc i)
  have "unat (off + n - of_nat (Suc i)) = unat off + unat n - Suc i"
  proof -
    have 1: "unat (off + n) = unat off + unat n" using Suc.prems by (simp add: unat_word_ariths)
    have 2: "unat (of_nat (Suc i) :: u8) = Suc i"
      using Suc.prems unat_u8_less [of n] by (simp only: unat_of_nat) simp
    then have "(of_nat (Suc i) :: u8) \<le> off + n" using 1 Suc.prems by (simp add: word_le_nat_alt)
    then show ?thesis by (simp only: unat_sub 1 2)
  qed
  note o = this
  have bit: "bits AND push_bit i 1 \<noteq> 0 \<longleftrightarrow> bit bits i"
    by (simp add: bit_iff_and_push_bit_not_eq_0)
  obtain b1 where b1: "putBit buf (off + n - of_nat (Suc i)) (bit bits i) = Some (b1, 1)"
    "length b1 = length buf" "buf_bit b1 = (buf_bit buf)(unat off + unat n - Suc i := bit bits i)"
    using putBit_view [of "off + n - of_nat (Suc i)" buf "bit bits i"] Suc.prems unfolding o by fastforce
  obtain b2 where b2: "putBitsMsb_loop b1 off bits n i = Some b2" "length b2 = length b1"
    "buf_bit b2 = put_seg (buf_bit b1) (unat off + unat n - i) (rev (map (bit bits) [0..<i]))"
    using Suc.IH [of b1] Suc.prems b1(2) by auto
  have "unat off + unat n - i = Suc (unat off + unat n - Suc i)" using Suc.prems by simp
  then show ?case using b1 b2 bit by (simp add: put_seg_Cons)
qed

lemma putBitsMsb_view:
  assumes "unat off + unat n \<le> 32 * length buf" and "unat off + unat n < 256"
  shows "\<exists>buf'. putBitsMsb buf off bits n = Some (buf', n) \<and> length buf' = length buf \<and>
           buf_bit buf' = put_seg (buf_bit buf) (unat off) (rev (map (bit bits) [0..<unat n]))"
  using putBitsMsb_loop_view [OF assms order_refl, of bits] by (auto simp: putBitsMsb_def)

end
