(* ===== verification/Em4100_Eprom.thy ===== *)
theory Em4100_Eprom
  imports Data_Utils
begin

unbundle bit_operations_syntax

text \<open>
  The image of an EM4100 tag (\<open>rfid-tool/src/rfid/Em4100Eprom.cpp\<close>). The abstract format is the
  frame of 64 bits of the data sheet: nine ones, ten rows of four data bits and their even
  parity, four column parities and a zero. The theory shows that \<open>Em4100Eprom::generate\<close> writes
  exactly this frame into the two words, whatever they held before.
\<close>

section \<open>The functions of Em4100Eprom.cpp\<close>

definition bufferAddBit :: "u32 list \<Rightarrow> u8 \<Rightarrow> bool \<Rightarrow> (u32 list \<times> u8) option" where
  "bufferAddBit buffer bitOffset b = do {
     let idx = unat (bitOffset div 32);
     w \<leftarrow> rd buffer idx;
     let m = push_bit (unat (bitOffset mod 32)) 1;
     buffer \<leftarrow> wr buffer idx (if b then w OR m else w AND NOT m);
     Some (buffer, 1)
   }"

text \<open>The loop of \<open>_bufferAddBits\<close> with \<open>n\<close> rounds to go.\<close>

fun bufferAddBits_loop :: "u32 list \<Rightarrow> u8 \<Rightarrow> u16 \<Rightarrow> u8 \<Rightarrow> nat \<Rightarrow> nat \<Rightarrow> (u32 list \<times> u8) option" where
  "bufferAddBits_loop buffer bitOffset bits ret i 0 = Some (buffer, ret)"
| "bufferAddBits_loop buffer bitOffset bits ret i (Suc n) = do {
     (buffer, w) \<leftarrow> bufferAddBit buffer (bitOffset + ret) (bits AND push_bit i 1 \<noteq> 0);
     bufferAddBits_loop buffer bitOffset bits (ret + w) (Suc i) n
   }"

definition bufferAddBits :: "u32 list \<Rightarrow> u8 \<Rightarrow> u16 \<Rightarrow> u8 \<Rightarrow> (u32 list \<times> u8) option" where
  "bufferAddBits buffer bitOffset bits bitsCount =
     bufferAddBits_loop buffer bitOffset bits 0 0 (unat bitsCount)"

text \<open>
  One row of the frame: the three statements \<open>generate\<close> repeats for each nibble, on the locals
  \<open>result\<close>, \<open>written\<close> and \<open>parity\<close>.
\<close>

fun generate_nibble :: "u32 list \<times> u8 \<times> u8 \<Rightarrow> u8 \<Rightarrow> (u32 list \<times> u8 \<times> u8) option" where
  "generate_nibble (result, written, parity) x = do {
     nibble \<leftarrow> reverseNibble x;
     (result, n) \<leftarrow> bufferAddBits result written
       (ucast nibble OR push_bit 4 (ucast (parityNibble nibble))) 5;
     Some (result, written + n, parity XOR nibble)
   }"

text \<open>The loop over the token's nibbles; \<open>n + 1\<close> rounds to go means \<open>i = 7 - n\<close>.\<close>

fun generate_token :: "u32 \<Rightarrow> u32 list \<times> u8 \<times> u8 \<Rightarrow> nat \<Rightarrow> (u32 list \<times> u8 \<times> u8) option" where
  "generate_token token s 0 = Some s"
| "generate_token token s (Suc n) = do {
     s \<leftarrow> generate_nibble s (ucast (drop_bit (n * 4) token AND 0x0f));
     generate_token token s n
   }"

definition generate :: "u32 list \<Rightarrow> u8 \<Rightarrow> u32 \<Rightarrow> u32 list option" where
  "generate result customerId token = do {
     (result, written) \<leftarrow> bufferAddBits result 0 0x1ff 9;
     s \<leftarrow> generate_nibble (result, written, 0) (drop_bit 4 customerId);
     s \<leftarrow> generate_nibble s (customerId AND 0x0f);
     (result, written, parity) \<leftarrow> generate_token token s 8;
     (result, _) \<leftarrow> bufferAddBits result written (ucast parity) 5;
     Some result
   }"

section \<open>The frame of the data sheet\<close>

definition frame_nibbles :: "u8 \<Rightarrow> u32 \<Rightarrow> u8 list" where
  "frame_nibbles c t =
     [drop_bit 4 c, c AND 0x0f] @ map (\<lambda>n. ucast (drop_bit (n * 4) t AND 0x0f)) (rev [0..<8])"

definition frame_row :: "u8 \<Rightarrow> bool list" where
  "frame_row x = nibble_bits x @ [xor_bits (nibble_bits x)]"

definition column_parity :: "u8 list \<Rightarrow> bool list" where
  "column_parity ns = map (\<lambda>j. xor_bits (map (\<lambda>x. bit x j) ns)) [3, 2, 1, 0]"

definition em4100_frame :: "u8 \<Rightarrow> u32 \<Rightarrow> bool list" where
  "em4100_frame c t =
     (let ns = frame_nibbles c t
      in replicate 9 True @ concat (map frame_row ns) @ column_parity ns @ [False])"

lemma length_frame_row [simp]: "length (frame_row x) = 5"
  by (simp add: frame_row_def nibble_bits_def)

lemma length_rows [simp]: "length (concat (map frame_row ns)) = 5 * length ns"
  by (induction ns) auto

lemma length_frame_nibbles [simp]: "length (frame_nibbles c t) = 10"
  by (simp add: frame_nibbles_def)

lemma length_column_parity [simp]: "length (column_parity ns) = 4"
  by (simp add: column_parity_def)

lemma length_em4100_frame [simp]: "length (em4100_frame c t) = 64"
  by (simp add: em4100_frame_def Let_def)

lemma unat_high_nibble: "unat (drop_bit 4 x :: u8) < 16"
proof -
  have "unat (drop_bit 4 x) = unat x div 16" by (simp add: drop_bit_eq_div unat_div)
  then show ?thesis using unat_u8_less [of x] by simp
qed

lemma unat_token_nibble: "unat (ucast (t AND 0x0f :: u32) :: u8) < 16"
proof -
  have "t AND 0x0f \<le> 0x0f" by (simp add: word_and_le1)
  then have "unat (t AND 0x0f) \<le> 15" by (simp add: word_le_nat_alt)
  moreover have "unat (ucast (t AND 0x0f) :: u8) \<le> unat (t AND 0x0f)"
    by (simp add: unsigned_ucast_eq take_bit_nat_less_eq_self)
  ultimately show ?thesis by simp
qed

lemma frame_nibbles_small: "x \<in> set (frame_nibbles c t) \<Longrightarrow> unat x < 16"
  by (auto simp: frame_nibbles_def unat_and_15 unat_high_nibble unat_token_nibble)

section \<open>What the helpers write\<close>

lemma bufferAddBit_putBit: "bufferAddBit = putBit"
  by (intro ext) (simp add: bufferAddBit_def putBit_def)

lemma bufferAddBits_loop_view:
  assumes "unat off + unat ret + n \<le> 32 * length buf" and "unat off + unat ret + n < 256"
  shows "\<exists>buf'. bufferAddBits_loop buf off bits ret i n = Some (buf', ret + of_nat n) \<and>
           length buf' = length buf \<and>
           buf_bit buf' = put_seg (buf_bit buf) (unat off + unat ret) (map (bit bits) [i..<i + n])"
  using assms
proof (induction n arbitrary: buf ret i)
  case 0
  then show ?case by simp
next
  case (Suc n)
  have o: "unat (off + ret) = unat off + unat ret" using Suc.prems by (simp add: unat_word_ariths)
  have r: "unat (ret + 1) = Suc (unat ret)" using Suc.prems by (simp add: unat_word_ariths)
  obtain b1 where b1: "putBit buf (off + ret) (bit bits i) = Some (b1, 1)"
    "length b1 = length buf" "buf_bit b1 = (buf_bit buf)(unat off + unat ret := bit bits i)"
    using putBit_view [of "off + ret" buf "bit bits i"] Suc.prems unfolding o by fastforce
  obtain b2 where b2: "bufferAddBits_loop b1 off bits (ret + 1) (Suc i) n = Some (b2, ret + 1 + of_nat n)"
    "length b2 = length b1"
    "buf_bit b2 = put_seg (buf_bit b1) (Suc (unat off + unat ret)) (map (bit bits) [Suc i..<Suc i + n])"
    using Suc.IH [of "ret + 1" b1 "Suc i"] Suc.prems b1(2) r by auto
  have bit: "bits AND push_bit i 1 \<noteq> 0 \<longleftrightarrow> bit bits i"
    by (simp add: bit_iff_and_push_bit_not_eq_0)
  have "[i..<i + Suc n] = i # [Suc i..<Suc i + n]" by (simp add: upt_conv_Cons)
  then show ?case using b1 b2 bit
    by (simp add: bufferAddBit_putBit put_seg_Cons add.assoc del: upt_Suc)
qed

lemma bufferAddBits_view:
  assumes "unat off + unat n \<le> 32 * length buf" and "unat off + unat n < 256"
  shows "\<exists>buf'. bufferAddBits buf off bits n = Some (buf', n) \<and> length buf' = length buf \<and>
           buf_bit buf' = put_seg (buf_bit buf) (unat off) (map (bit bits) [0..<unat n])"
  using bufferAddBits_loop_view [of off 0 "unat n" buf bits 0] assms by (simp add: bufferAddBits_def)


section \<open>The image is the frame\<close>

text \<open>The state of \<open>generate\<close> after some of the rows.\<close>

definition image_upto :: "u8 list \<Rightarrow> u32 list \<times> u8 \<times> u8 \<Rightarrow> bool" where
  "image_upto ns s \<longleftrightarrow> (case s of (result, written, parity) \<Rightarrow>
     length result = 2 \<and> unat written = 9 + 5 * length ns \<and>
     (\<exists>f. buf_bit result = put_seg f 0 (replicate 9 True @ concat (map frame_row ns))) \<and>
     map (bit parity) [0..<5] = column_parity ns @ [False])"

lemma xor_bits_append: "xor_bits (as @ [b]) = (xor_bits as \<noteq> b)"
  by (induction as) (auto simp: xor_bits_def)

lemma row_bits:
  assumes "unat r < 16" and "map (bit r) [0..<4] = nibble_bits x" and "parityNibble r = parityNibble x"
    and "unat x < 16"
  shows "map (bit (ucast r OR push_bit 4 (ucast (parityNibble r)) :: u16)) [0..<5] = frame_row x"
proof -
  have u: "[0..<5] = [0, 1, 2, 3, 4 :: nat]" "[0..<4] = [0, 1, 2, 3 :: nat]" by (simp_all add: upt_rec)
  have "\<not> bit r 4" using nibble_cases [OF assms(1)] by (auto simp: bit_numeral_rec)
  then show ?thesis using assms(2)
    unfolding frame_row_def assms(3) parityNibble_bits [OF assms(4)] u
    by (simp add: bit_simps nibble_bits_def)
qed

lemma column_parity_snoc:
  assumes "map (bit p) [0..<5] = column_parity ns @ [False]"
    and "map (bit r) [0..<4] = nibble_bits x" and "unat (r :: u8) < 16"
  shows "map (bit (p XOR r)) [0..<5] = column_parity (ns @ [x]) @ [False]"
proof -
  have u: "[0..<5] = [0, 1, 2, 3, 4 :: nat]" "[0..<4] = [0, 1, 2, 3 :: nat]" by (simp_all add: upt_rec)
  have "\<not> bit r 4" using nibble_cases [OF assms(3)] by (auto simp: bit_numeral_rec)
  then show ?thesis using assms(1,2)
    by (simp add: u column_parity_def nibble_bits_def bit_xor_iff xor_bits_append)
qed

lemma generate_nibble_image:
  assumes s: "image_upto ns s" and n: "length ns < 10" and x: "unat x < 16"
  shows "\<exists>s'. generate_nibble s x = Some s' \<and> image_upto (ns @ [x]) s'"
proof -
  obtain result written parity where s_eq: "s = (result, written, parity)" by (cases s) auto
  obtain f where f: "length result = 2" "unat written = 9 + 5 * length ns"
    "buf_bit result = put_seg f 0 (replicate 9 True @ concat (map frame_row ns))"
    "map (bit parity) [0..<5] = column_parity ns @ [False]"
    using s by (auto simp: image_upto_def s_eq)
  obtain r where r: "reverseNibble x = Some r" "unat r < 16" "map (bit r) [0..<4] = nibble_bits x"
    "parityNibble r = parityNibble x"
    using reverseNibble_bits [OF x] by blast
  let ?bits = "ucast r OR push_bit 4 (ucast (parityNibble r)) :: u16"
  obtain result' where result': "bufferAddBits result written ?bits 5 = Some (result', 5)"
    "length result' = 2"
    "buf_bit result' = put_seg (buf_bit result) (unat written) (frame_row x)"
    using bufferAddBits_view [of written 5 result ?bits] row_bits [OF r(2,3,4) x] f(1,2) n by auto
  have "unat (written + 5) = 9 + 5 * length (ns @ [x])"
    using f(2) n by (simp add: unat_word_ariths)
  moreover have "buf_bit result' = put_seg f 0 (replicate 9 True @ concat (map frame_row (ns @ [x])))"
    using put_seg_append [of f 0 "replicate 9 True @ concat (map frame_row ns)" "frame_row x"]
    by (simp add: result'(3) f(2,3))
  ultimately have "image_upto (ns @ [x]) (result', written + 5, parity XOR r)"
    using result'(2) column_parity_snoc [OF f(4) r(3,2)] unfolding image_upto_def by blast
  then show ?thesis using r(1) result'(1) by (simp add: s_eq)
qed

lemma generate_token_image:
  assumes "image_upto ns s" and "length ns + n \<le> 10"
  shows "\<exists>s'. generate_token t s n = Some s' \<and>
           image_upto (ns @ map (\<lambda>k. ucast (drop_bit (k * 4) t AND 0x0f)) (rev [0..<n])) s'"
  using assms
proof (induction n arbitrary: ns s)
  case 0
  then show ?case by simp
next
  case (Suc n)
  let ?x = "ucast (drop_bit (n * 4) t AND 0x0f) :: u8"
  obtain s1 where s1: "generate_nibble s ?x = Some s1" "image_upto (ns @ [?x]) s1"
    using generate_nibble_image [OF Suc.prems(1) _ unat_token_nibble [of "drop_bit (n * 4) t"]]
      Suc.prems(2) by fastforce
  show ?case using Suc.IH [OF s1(2)] Suc.prems(2) s1(1) by simp
qed

lemma generate_view:
  assumes "length buf = 2"
  shows "\<exists>buf'. generate buf c t = Some buf' \<and> length buf' = 2 \<and> buf_bits buf' = em4100_frame c t"
proof -
  obtain b0 where b0: "bufferAddBits buf 0 0x1ff 9 = Some (b0, 9)" "length b0 = 2"
    "buf_bit b0 = put_seg (buf_bit buf) 0 (map (bit (0x1ff :: u16)) [0..<9])"
    using bufferAddBits_view [of 0 9 buf "0x1ff"] assms by auto
  have "map (bit (0x1ff :: u16)) [0..<9] = replicate 9 True"
    by (simp add: bit_numeral_rec upt_rec numeral_eq_Suc)
  then have "image_upto [] (b0, 9, 0)"
    using b0(2,3) by (auto simp: image_upto_def column_parity_def xor_bits_def upt_rec)
  then obtain s1 where s1: "generate_nibble (b0, 9, 0) (drop_bit 4 c) = Some s1"
    "image_upto [drop_bit 4 c] s1"
    using generate_nibble_image [OF _ _ unat_high_nibble [of c]] by fastforce
  then obtain s2 where s2: "generate_nibble s1 (c AND 0x0f) = Some s2"
    "image_upto [drop_bit 4 c, c AND 0x0f] s2"
    using generate_nibble_image [OF s1(2) _ unat_and_15 [of c]] by auto
  then obtain r w p where s3: "generate_token t s2 8 = Some (r, w, p)"
    "image_upto (frame_nibbles c t) (r, w, p)"
    using generate_token_image [OF s2(2), of 8 t] unfolding frame_nibbles_def by auto
  then obtain f where f: "length r = 2" "unat w = 59" 
    "buf_bit r = put_seg f 0 (replicate 9 True @ concat (map frame_row (frame_nibbles c t)))"
    "map (bit p) [0..<5] = column_parity (frame_nibbles c t) @ [False]"
    by (auto simp: image_upto_def)
  have "map (bit (ucast p :: u16)) [0..<5] = map (bit p) [0..<5]"
    by (simp add: bit_ucast_iff)
  then obtain r' where r': "bufferAddBits r w (ucast p) 5 = Some (r', 5)" "length r' = 2"
    "buf_bit r' = put_seg (buf_bit r) 59 (column_parity (frame_nibbles c t) @ [False])"
    using bufferAddBits_view [of w 5 r "ucast p"] f(1,2,4) by auto
  have "buf_bit r' = put_seg f 0 (em4100_frame c t)"
    using put_seg_append [of f 0 "replicate 9 True @ concat (map frame_row (frame_nibbles c t))"
        "column_parity (frame_nibbles c t) @ [False]"]
    by (simp add: r'(3) f(3) em4100_frame_def Let_def)
  then have "buf_bits r' = em4100_frame c t"
    by (simp add: buf_bits_def r'(2) map_put_seg)
  then show ?thesis using b0(1) s1(1) s2(1) s3(1) r'(1,2)
    by (simp add: generate_def del: generate_nibble.simps)
qed

end
