(* ===== verification/Em4100_Decoder.thy ===== *)
theory Em4100_Decoder
  imports Em4100_Eprom
begin

unbundle bit_operations_syntax

text \<open>
  The EM4100 frame decoder of the host tool (\<open>rfid-tool/src/rfid/Em4100Decoder.cpp\<close>,
  \<open>inc/rfid/Em4100Decoder.hpp\<close>): a state machine fed with the bits of a coding decoder, which
  reports a token when nine ones, ten rows with even parity and the column parities have
  arrived. The members the constructor leaves uninitialised (\<open>nibbleLen\<close>, \<open>nibbleCount\<close>,
  \<open>data\<close>) have arbitrary values in the theorems. \<open>None\<close> is an access outside \<open>data\<close> or a shift
  by a negative amount.
\<close>

section \<open>State and operations\<close>

datatype DecoderState = DECODER_STATE_PREAMBLE | DECODER_STATE_DATA

record EventNewTokenData =
  tok_data :: u32
  tok_versionOrCustomerId :: u8

record em4100 =
  em_state :: DecoderState
  em_bitCount :: u8
  em_nibble :: u8
  em_nibbleLen :: u8
  em_nibbleCount :: u8
  em_data :: "u8 list"

definition em_reset :: "em4100 \<Rightarrow> em4100" where
  "em_reset d = d\<lparr>em_state := DECODER_STATE_PREAMBLE, em_bitCount := 0, em_nibble := 0\<rparr>"

text \<open>The branch \<open>DECODER_STATE_PREAMBLE\<close> of \<open>onEvent\<close>.\<close>

definition em_preamble :: "em4100 \<Rightarrow> bool \<Rightarrow> em4100" where
  "em_preamble d isOne =
     (if isOne then
        (let d = d\<lparr>em_bitCount := em_bitCount d + 1\<rparr> in
         if em_bitCount d = 9
         then d\<lparr>em_state := DECODER_STATE_DATA, em_bitCount := 0, em_nibbleCount := 0, em_nibbleLen := 0\<rparr>
         else d)
      else d\<lparr>em_bitCount := 0\<rparr>)"

text \<open>The loop over the rows' columns and the token assembled from the bytes.\<close>

definition colsParity :: "u8 list \<Rightarrow> u8" where
  "colsParity data = fold (\<lambda>x p. (p XOR (x AND 0xf0)) XOR push_bit 4 x) (take 5 data) 0"

definition token_word :: "u8 \<Rightarrow> u8 \<Rightarrow> u8 \<Rightarrow> u8 \<Rightarrow> u32" where
  "token_word a b c d =
     push_bit 8 (push_bit 8 (push_bit 8 (ucast a) OR ucast b) OR ucast c) OR ucast d"

definition em_report :: "u8 list \<Rightarrow> EventNewTokenData list option" where
  "em_report data = do {
     d5 \<leftarrow> rd data 5;
     if colsParity data \<noteq> d5 then Some []
     else do {
       d0 \<leftarrow> rd data 0; d1 \<leftarrow> rd data 1; d2 \<leftarrow> rd data 2; d3 \<leftarrow> rd data 3; d4 \<leftarrow> rd data 4;
       Some [\<lparr>tok_data = token_word d1 d2 d3 d4, tok_versionOrCustomerId = d0\<rparr>]
     }
   }"

text \<open>The case \<open>nibbleLen == 4\<close> of the branch \<open>DECODER_STATE_DATA\<close>: a row is complete.\<close>

definition em_row :: "em4100 \<Rightarrow> bool \<Rightarrow> (em4100 \<times> EventNewTokenData list) option" where
  "em_row d isOne =
     (let parityOk = (if em_nibbleCount d = 10 then \<not> isOne
                      else parityNibble (em_nibble d) = of_bool isOne)
      in if parityOk then do {
           let byteNo = unat (drop_bit 1 (em_nibbleCount d));
           let byteHi = em_nibbleCount d AND 1;
           data \<leftarrow> (if byteHi = 0 then wr (em_data d) byteNo 0 else Some (em_data d));
           x \<leftarrow> rd data byteNo;
           data \<leftarrow> wr data byteNo (x OR push_bit (if byteHi \<noteq> 0 then 0 else 4) (em_nibble d));
           let d = d\<lparr>em_data := data, em_nibbleLen := 0, em_nibbleCount := em_nibbleCount d + 1\<rparr>;
           if em_nibbleCount d = 11
           then do {
             evs \<leftarrow> em_report data;
             Some (d\<lparr>em_state := DECODER_STATE_PREAMBLE\<rparr>, evs)
           }
           else Some (d, [])
         }
         else Some (d\<lparr>em_state := DECODER_STATE_PREAMBLE\<rparr>, []))"

text \<open>Any other bit of that branch goes into the nibble.\<close>

definition em_data_bit :: "em4100 \<Rightarrow> bool \<Rightarrow> em4100 option" where
  "em_data_bit d isOne =
     (if unat (em_nibbleLen d) \<le> 3 then
        (let m = push_bit (3 - unat (em_nibbleLen d)) 1
         in Some (d\<lparr>em_nibble := (if isOne then em_nibble d OR m else em_nibble d AND NOT m),
                    em_nibbleLen := em_nibbleLen d + 1\<rparr>))
      else None)"

text \<open>\<open>onEvent\<close> with \<open>EVENT_NEW_BIT\<close>; other events are ignored by the code.\<close>

definition em_onEvent :: "em4100 \<Rightarrow> bool \<Rightarrow> (em4100 \<times> EventNewTokenData list) option" where
  "em_onEvent d isOne =
     (case em_state d of
        DECODER_STATE_PREAMBLE \<Rightarrow> Some (em_preamble d isOne, [])
      | DECODER_STATE_DATA \<Rightarrow>
          if em_nibbleLen d = 4 then em_row d isOne
          else do { d \<leftarrow> em_data_bit d isOne; Some (d, []) })"

fun em_run :: "em4100 \<Rightarrow> bool list \<Rightarrow> (em4100 \<times> EventNewTokenData list) option" where
  "em_run d [] = Some (d, [])"
| "em_run d (b # bs) = do {
     (d, evs) \<leftarrow> em_onEvent d b;
     (d, evs') \<leftarrow> em_run d bs;
     Some (d, evs @ evs')
   }"

lemma em_run_append:
  "em_run d (as @ bs) = do {
     (d, evs) \<leftarrow> em_run d as;
     (d, evs') \<leftarrow> em_run d bs;
     Some (d, evs @ evs')
   }"
  by (induction as arbitrary: d) (auto split: prod.splits Option.bind_splits)

section \<open>Nibbles packed into bytes\<close>

lemma small_nibble_bits_eq: "small x \<Longrightarrow> small y \<Longrightarrow> nibble_bits x = nibble_bits y \<Longrightarrow> x = y"
proof (rule bit_word_eqI)
  fix n assume *: "small x" "small y" "nibble_bits x = nibble_bits y"
  show "bit x n = bit y n"
  proof (cases "n < 4")
    case True
    then have "n = 0 \<or> n = 1 \<or> n = 2 \<or> n = 3" by auto
    then show ?thesis using *(3) by (auto simp: nibble_bits_def)
  next
    case False
    then show ?thesis using *(1,2) by (simp add: small_iff)
  qed
qed

definition byte_of :: "u8 \<Rightarrow> u8 \<Rightarrow> u8" where
  "byte_of hi lo = push_bit 4 hi OR lo"

text \<open>Every pair of nibbles fills a byte; an unpaired one is in the upper half.\<close>

definition packed :: "u8 list \<Rightarrow> u8 list \<Rightarrow> bool" where
  "packed ns data \<longleftrightarrow> length data = 6 \<and>
     (\<forall>j. 2 * j + 1 < length ns \<longrightarrow> data ! j = byte_of (ns ! (2 * j)) (ns ! (2 * j + 1))) \<and>
     (odd (length ns) \<longrightarrow> data ! (length ns div 2) = push_bit 4 (last ns))"

lemma packed_even:
  assumes "packed ns data" and "even (length ns)" and "length ns < 12"
  shows "packed (ns @ [x]) (data[length ns div 2 := push_bit 4 x])"
  using assms by (auto simp: packed_def nth_append)

lemma packed_odd:
  assumes p: "packed ns data" and o: "odd (length ns)" and "length ns < 12"
  shows "packed (ns @ [x]) (data[length ns div 2 := data ! (length ns div 2) OR x])"
proof -
  obtain k where k: "length ns = 2 * k + 1" using o by (elim oddE)
  then have "last ns = ns ! (2 * k)" by (subst last_conv_nth) auto
  then have "data ! k = push_bit 4 (ns ! (2 * k))" "k < 6"
    using p o assms(3) k by (auto simp: packed_def)
  moreover have "Suc (2 * j) \<noteq> 2 * k" for j by presburger
  ultimately show ?thesis
    using p k by (auto simp: packed_def byte_of_def nth_append nth_list_update less_Suc_eq)
qed

section \<open>The frame's contents\<close>

text \<open>The token a list of ten nibbles stands for.\<close>

definition add_nibble :: "u32 \<Rightarrow> u8 \<Rightarrow> u32" where
  "add_nibble w x = push_bit 4 w OR ucast x"

definition token_of :: "u8 list \<Rightarrow> EventNewTokenData" where
  "token_of ns =
     \<lparr>tok_data = foldl add_nibble 0 (drop 2 ns),
      tok_versionOrCustomerId = byte_of (ns ! 0) (ns ! 1)\<rparr>"


definition nib :: "nat \<Rightarrow> u32 \<Rightarrow> u8" where
  "nib k w = ucast (drop_bit (k * 4) w AND 0x0f)"

lemma bit_240_int: "bit (240 :: int) i \<longleftrightarrow> 4 \<le> i \<and> i < 8"
proof -
  have "bit (240 :: int) i = bit (push_bit 4 (mask 4) :: int) i" by (simp add: mask_eq_exp_minus_1)
  then show ?thesis by (auto simp only: bit_push_bit_iff bit_mask_iff possible_bit_int simp_thms)
qed

lemma bit_nib: "bit (nib k w) j \<longleftrightarrow> j < 4 \<and> bit w (k * 4 + j)"
  by (auto simp: nib_def bit_simps bit_15_int)

lemma nib_0: "small x \<Longrightarrow> nib 0 (add_nibble w x) = x"
  by (rule bit_word_eqI) (auto simp: bit_nib bit_simps add_nibble_def dest: smallD)

lemma nib_step: "0 < k \<Longrightarrow> k < 8 \<Longrightarrow> small x \<Longrightarrow> nib k (add_nibble w x) = nib (k - 1) w"
proof -
  assume "0 < k" "k < 8" "small x"
  moreover have "k * 4 + j - 4 = (k - 1) * 4 + j" for j using \<open>0 < k\<close> by (cases k) simp_all
  ultimately show ?thesis
    by (intro bit_word_eqI) (auto simp: bit_nib bit_simps add_nibble_def dest: smallD)
qed

lemma frame_nibbles_nib:
  "frame_nibbles c t = [drop_bit 4 c, c AND 0x0f, nib 7 t, nib 6 t, nib 5 t, nib 4 t, nib 3 t, nib 2 t, nib 1 t, nib 0 t]"
  by (simp add: frame_nibbles_def nib_def upt_rec)

lemma small_frame_nibbles: "x \<in> set (frame_nibbles c t) \<Longrightarrow> small x"
  by (simp add: small_def frame_nibbles_small)

lemma bit_byte_of: "bit (byte_of a b) i \<longleftrightarrow> 4 \<le> i \<and> i < 8 \<and> bit a (i - 4) \<or> bit b i"
  by (auto simp: byte_of_def bit_simps)

lemma high_low_nibble:
  assumes "small a" "small b"
  shows "drop_bit 4 (byte_of a b) = a" "byte_of a b AND 0x0f = b" "byte_of a b AND 0xf0 = push_bit 4 a"
    "push_bit 4 (byte_of a b) = push_bit 4 b"
  using assms
  by (auto intro!: bit_word_eqI simp: bit_simps bit_byte_of bit_15_int bit_240_int dest: smallD)

lemma ten_elements:
  assumes "length ns = 10"
  obtains n0 n1 n2 n3 n4 n5 n6 n7 n8 n9 where "ns = [n0, n1, n2, n3, n4, n5, n6, n7, n8, n9]"
  using assms by (auto simp: length_Suc_conv numeral_eq_Suc)

lemma frame_nibbles_token_of:
  assumes "length ns = 10" and small: "\<forall>x \<in> set ns. small x"
  shows "frame_nibbles (tok_versionOrCustomerId (token_of ns)) (tok_data (token_of ns)) = ns"
proof -
  obtain n0 n1 n2 n3 n4 n5 n6 n7 n8 n9 where ns: "ns = [n0, n1, n2, n3, n4, n5, n6, n7, n8, n9]"
    using ten_elements [OF assms(1)] .
  show ?thesis using small
    unfolding ns frame_nibbles_nib
    by (simp add: token_of_def high_low_nibble nib_0 nib_step)
qed

lemma frame_nibbles_inject:
  assumes "frame_nibbles c t = frame_nibbles c' t'"
  shows "c = c' \<and> t = t'"
proof
  have c: "drop_bit 4 c = drop_bit 4 c'" "c AND 0x0f = c' AND 0x0f"
    using assms by (simp_all add: frame_nibbles_nib)
  have "bit c i = bit c' i" for i
  proof (cases "i < 4")
    case True
    then show ?thesis using arg_cong [OF c(2), of "\<lambda>w. bit w i"] by (simp add: bit_simps bit_15_int)
  next
    case False
    then show ?thesis using arg_cong [OF c(1), of "\<lambda>w. bit w (i - 4)"] by (simp add: bit_simps)
  qed
  then show "c = c'" by (rule bit_word_eqI)
  have n: "nib k t = nib k t'" if "k < 8" for k
  proof -
    have "k \<in> {0, 1, 2, 3, 4, 5, 6, 7}" using that by (simp only: insert_iff empty_iff) presburger
    then show ?thesis using assms by (auto simp: frame_nibbles_nib)
  qed
  show "t = t'"
  proof (rule bit_word_eqI)
    fix i assume "i < LENGTH(32)"
    then have "nib (i div 4) t = nib (i div 4) t'" by (intro n) simp
    from arg_cong [OF this, of "\<lambda>w. bit w (i mod 4)"] show "bit t i = bit t' i"
      by (simp add: bit_nib)
  qed
qed

lemma token_of_frame_nibbles:
  "token_of (frame_nibbles c t) = \<lparr>tok_data = t, tok_versionOrCustomerId = c\<rparr>"
  using frame_nibbles_inject [OF frame_nibbles_token_of [of "frame_nibbles c t"]]
  by (simp add: small_frame_nibbles)

lemma shift_byte:
  assumes "small a" "small b"
  shows "push_bit 8 w OR ucast (byte_of a b) = add_nibble (add_nibble w a) b"
  using assms
  by (intro bit_word_eqI) (auto simp: bit_simps bit_byte_of add_nibble_def dest: smallD)

lemma token_word_nibbles:
  assumes "small n2" "small n3" "small n4" "small n5" "small n6" "small n7" "small n8" "small n9"
  shows "token_word (byte_of n2 n3) (byte_of n4 n5) (byte_of n6 n7) (byte_of n8 n9) =
     tok_data (token_of [n0, n1, n2, n3, n4, n5, n6, n7, n8, n9])"
proof -
  have "ucast (byte_of n2 n3) = add_nibble (add_nibble 0 n2) n3"
    using shift_byte [OF assms(1,2), of 0] by simp
  then show ?thesis
    using assms by (simp add: token_word_def token_of_def shift_byte)
qed


lemma bit_foldr_xor: "bit (foldr (XOR) ns (0 :: u8)) j = xor_bits (map (\<lambda>x. bit x j) ns)"
  by (induction ns) (auto simp: xor_bits_def bit_xor_iff)

lemma small_foldr_xor:
  assumes "\<forall>x \<in> set ns. small x"
  shows "small (foldr (XOR) ns 0)"
  using assms by (induction ns) (auto simp: small_iff bit_xor_iff)

lemma push_bit_4_small:
  assumes "small x" "small y"
  shows "push_bit 4 x = push_bit 4 y \<longleftrightarrow> x = y"
proof -
  have "drop_bit 4 (byte_of z 0) = z" if "small z" for z
    using that by (rule high_low_nibble(1)) (simp add: small_def)
  then show ?thesis using assms unfolding byte_of_def or.right_neutral by metis
qed

lemma packed_ten:
  assumes "length ns = 10" and "packed (ns @ [x]) data"
  shows "length data = 6" "data ! 5 = push_bit 4 x"
    "j < 5 \<Longrightarrow> data ! j = byte_of (ns ! (2 * j)) (ns ! (2 * j + 1))"
  using assms by (auto simp: packed_def nth_append)

lemma colsParity_packed:
  assumes "length ns = 10" and small: "\<forall>x \<in> set ns. small x" and x: "small x"
    and data: "packed (ns @ [x]) data"
  shows "colsParity data = data ! 5 \<longleftrightarrow> nibble_bits x = column_parity ns"
proof -
  obtain n0 n1 n2 n3 n4 n5 n6 n7 n8 n9 where ns: "ns = [n0, n1, n2, n3, n4, n5, n6, n7, n8, n9]"
    using ten_elements [OF assms(1)] .
  let ?p = "foldr (XOR) ns 0 :: u8"
  note d = packed_ten [OF assms(1) data]
  have "take 5 data = map ((!) data) [0, 1, 2, 3, 4]"
    using d(1) by (auto simp: length_Suc_conv numeral_eq_Suc)
  then have "take 5 data = [byte_of n0 n1, byte_of n2 n3, byte_of n4 n5, byte_of n6 n7, byte_of n8 n9]"
    by (simp add: d(3)) (simp add: ns)
  then have "colsParity data = push_bit 4 n0 XOR (push_bit 4 n1 XOR (push_bit 4 n2 XOR (push_bit 4 n3 XOR
      (push_bit 4 n4 XOR (push_bit 4 n5 XOR (push_bit 4 n6 XOR (push_bit 4 n7 XOR
      (push_bit 4 n8 XOR push_bit 4 n9))))))))"
    using small by (simp add: colsParity_def high_low_nibble ns xor.assoc)
  also have "\<dots> = push_bit 4 ?p"
    by (simp add: ns push_bit_xor)
  finally have "colsParity data = push_bit 4 ?p" .
  moreover have "nibble_bits x = column_parity ns \<longleftrightarrow> nibble_bits x = nibble_bits ?p"
    unfolding column_parity_def nibble_bits_def bit_foldr_xor by simp
  moreover have "push_bit 4 ?p = push_bit 4 x \<longleftrightarrow> nibble_bits x = nibble_bits ?p"
    using small_nibble_bits_eq [OF x small_foldr_xor [OF small]]
    by (auto simp: push_bit_4_small [OF small_foldr_xor [OF small] x])
  ultimately show ?thesis using d(2) by auto
qed

lemma em_report_packed:
  assumes "length ns = 10" and small: "\<forall>x \<in> set ns. small x" and x: "small x"
    and data: "packed (ns @ [x]) data"
  shows "em_report data = Some (if nibble_bits x = column_parity ns then [token_of ns] else [])"
proof -
  obtain n0 n1 n2 n3 n4 n5 n6 n7 n8 n9 where ns: "ns = [n0, n1, n2, n3, n4, n5, n6, n7, n8, n9]"
    using ten_elements [OF assms(1)] .
  note d = packed_ten [OF assms(1) data]
  have "token_word (data ! 1) (data ! 2) (data ! 3) (data ! 4) = tok_data (token_of ns)"
    using small by (simp add: ns d(3) token_word_nibbles)
  moreover have "data ! 0 = tok_versionOrCustomerId (token_of ns)" by (simp add: d(3) token_of_def)
  ultimately show ?thesis
    using colsParity_packed [OF assms] d(1) by (simp add: em_report_def access_simps)
qed

section \<open>The steps on a partly received frame\<close>

text \<open>
  The decoder has seen \<open>n\<close> ones of a preamble, or the rows \<open>ns\<close> of a frame and the bits \<open>p\<close> of the
  next one.
\<close>

definition em_seeking :: "nat \<Rightarrow> em4100 \<Rightarrow> bool" where
  "em_seeking n d \<longleftrightarrow> em_state d = DECODER_STATE_PREAMBLE \<and> unat (em_bitCount d) = n \<and> n < 9 \<and>
     small (em_nibble d) \<and> length (em_data d) = 6"

definition em_reading :: "u8 list \<Rightarrow> bool list \<Rightarrow> em4100 \<Rightarrow> bool" where
  "em_reading ns p d \<longleftrightarrow> em_state d = DECODER_STATE_DATA \<and> em_bitCount d = 0 \<and>
     unat (em_nibbleCount d) = length ns \<and> length ns \<le> 10 \<and>
     unat (em_nibbleLen d) = length p \<and> length p \<le> 4 \<and>
     (\<forall>x \<in> set ns. small x) \<and> packed ns (em_data d) \<and>
     small (em_nibble d) \<and> (\<forall>i < length p. bit (em_nibble d) (3 - i) = p ! i)"

lemma em_seeking_step:
  assumes "em_seeking n d"
  shows "\<exists>d'. em_onEvent d b = Some (d', []) \<and>
           (if b then if n = 8 then em_reading [] [] d' else em_seeking (Suc n) d' else em_seeking 0 d')"
proof -
  have n: "unat (em_bitCount d) = n" "n < 9" using assms by (simp_all add: em_seeking_def)
  have "unat (em_bitCount d + 1) = Suc n" using n by (simp add: unat_word_ariths)
  then have "em_bitCount d + 1 = 9 \<longleftrightarrow> n = 8" by (auto simp: word_unat_eq_iff)
  then show ?thesis
    using assms \<open>unat (em_bitCount d + 1) = Suc n\<close>
    by (auto simp: em_onEvent_def em_preamble_def em_seeking_def em_reading_def Let_def packed_def)
qed

lemma em_reading_bit:
  assumes "em_reading ns p d" and "length p < 4"
  shows "\<exists>d'. em_onEvent d b = Some (d', []) \<and> em_reading ns (p @ [b]) d'"
proof -
  let ?m = "push_bit (3 - length p) 1 :: u8"
  let ?x = "if b then em_nibble d OR ?m else em_nibble d AND NOT ?m"
  have l: "unat (em_nibbleLen d) = length p" "em_nibbleLen d \<noteq> 4" "unat (em_nibbleLen d + 1) = length (p @ [b])"
    using assms by (auto simp: em_reading_def unat_word_ariths)
  have bit: "bit ?x i \<longleftrightarrow> (if i = 3 - length p then b else bit (em_nibble d) i)" for i
    using assms(2) by (auto simp: bit_simps dest: bit_imp_le_length)
  have "small ?x" using assms by (auto simp: small_iff bit em_reading_def)
  moreover have "bit ?x (3 - i) = (p @ [b]) ! i" if "i < length (p @ [b])" for i
  proof (cases "i = length p")
    case False
    then have "3 - i \<noteq> 3 - length p" "i < length p" using that assms(2) by auto
    then show ?thesis using assms(1) by (simp only: bit if_False nth_append if_True) (simp add: em_reading_def)
  qed (simp add: bit)
  ultimately show ?thesis
    using assms l unfolding em_onEvent_def em_data_bit_def Let_def
    by (intro exI [of _ "d\<lparr>em_nibble := ?x, em_nibbleLen := em_nibbleLen d + 1\<rparr>"])
       (auto simp: em_reading_def)
qed


lemma em_reading_nibble:
  assumes "em_reading ns p d" and "length p = 4"
  shows "nibble_bits (em_nibble d) = p"
proof -
  obtain a b c e where p: "p = [a, b, c, e]" using assms(2) by (auto simp: length_Suc_conv numeral_eq_Suc)
  have *: "bit (em_nibble d) (3 - i) = p ! i" if "i < 4" for i
    using assms that by (simp add: em_reading_def)
  show ?thesis
    using * [of 0] * [of 1] * [of 2] * [of 3] by (simp add: p nibble_bits_def)
qed

text \<open>The byte the row goes to, for both halves.\<close>

lemma row_store:
  fixes k :: u8
  assumes p: "packed ns data" and n: "unat k = length ns" "length ns \<le> 10"
  shows "\<exists>data'. (do {
       data \<leftarrow> (if k AND 1 = 0 then wr data (unat (drop_bit 1 k)) 0 else Some data);
       x \<leftarrow> rd data (unat (drop_bit 1 k));
       wr data (unat (drop_bit 1 k)) (x OR push_bit (if k AND 1 \<noteq> 0 then 0 else 4) nibble)
     }) = Some data' \<and> packed (ns @ [nibble]) data'"
proof -
  have i: "unat (drop_bit 1 k) = length ns div 2" using n by (simp add: drop_bit_eq_div unat_div)
  have l: "length data = 6" "length ns div 2 < length data" using p n by (auto simp: packed_def)
  have "k AND 1 = 0 \<longleftrightarrow> even (unat k)"
    by (simp add: and_one_eq even_iff_mod_2_eq_zero [symmetric] word_unat_eq_iff unat_mod)
  then have e: "k AND 1 = 0 \<longleftrightarrow> even (length ns)" using n by simp
  show ?thesis
  proof (cases "even (length ns)")
    case True
    then show ?thesis using packed_even [OF p True] n l by (simp add: i [unfolded One_nat_def] e access_simps)
  next
    case False
    then show ?thesis using packed_odd [OF p False] n l by (simp add: i [unfolded One_nat_def] e access_simps)
  qed
qed

lemma em_row_store:
  assumes r: "em_reading ns p d"
    and ok: "(if em_nibbleCount d = 10 then \<not> b else parityNibble (em_nibble d) = of_bool b)"
  shows "\<exists>data'. packed (ns @ [em_nibble d]) data' \<and>
     em_row d b = (let d = d\<lparr>em_data := data', em_nibbleLen := 0, em_nibbleCount := em_nibbleCount d + 1\<rparr>
        in if em_nibbleCount d = 11 then do {
             evs \<leftarrow> em_report data';
             Some (d\<lparr>em_state := DECODER_STATE_PREAMBLE\<rparr>, evs)
           } else Some (d, []))"
proof -
  obtain data' where "(do {
       data \<leftarrow> (if em_nibbleCount d AND 1 = 0 then wr (em_data d) (unat (drop_bit 1 (em_nibbleCount d))) 0
               else Some (em_data d));
       x \<leftarrow> rd data (unat (drop_bit 1 (em_nibbleCount d)));
       wr data (unat (drop_bit 1 (em_nibbleCount d)))
         (x OR push_bit (if em_nibbleCount d AND 1 \<noteq> 0 then 0 else 4) (em_nibble d))
     }) = Some data'" "packed (ns @ [em_nibble d]) data'"
    using row_store [of ns "em_data d" "em_nibbleCount d" "em_nibble d"] r by (auto simp: em_reading_def)
  then show ?thesis using ok
    by (intro exI [of _ data']) (auto simp: em_row_def Let_def bind_eq_Some_conv)
qed

lemma em_reading_parity:
  assumes r: "em_reading ns p d" and p: "length p = 4" and n: "length ns < 10"
  shows "\<exists>d'. em_onEvent d b = Some (d', []) \<and>
     (if b = xor_bits p then \<exists>x. small x \<and> nibble_bits x = p \<and> em_reading (ns @ [x]) [] d'
      else em_seeking 0 d')"
proof -
  let ?x = "em_nibble d"
  have row: "em_onEvent d b = em_row d b"
    using r p by (auto simp: em_onEvent_def em_reading_def word_unat_eq_iff)
  have k: "em_nibbleCount d \<noteq> 10" "unat (em_nibbleCount d) = length ns"
    "unat (em_nibbleCount d + 1) = Suc (length ns)"
    using r n by (auto simp: em_reading_def unat_word_ariths)
  have x: "small ?x" "nibble_bits ?x = p" using em_reading_nibble [OF r p] r by (auto simp: em_reading_def)
  have par: "parityNibble ?x = of_bool b \<longleftrightarrow> b = xor_bits p"
    using x by (auto simp: parityNibble_bits small_def)
  show ?thesis
  proof (cases "b = xor_bits p")
    case True
    then obtain data' where "packed (ns @ [?x]) data'"
      "em_row d b = Some (d\<lparr>em_data := data', em_nibbleLen := 0, em_nibbleCount := em_nibbleCount d + 1\<rparr>, [])"
      using em_row_store [OF r, of b] par k n by (fastforce simp: Let_def word_unat_eq_iff)
    then show ?thesis using True r x k n row by (auto simp: em_reading_def intro!: exI [of _ ?x])
  next
    case False
    then have "em_row d b = Some (d\<lparr>em_state := DECODER_STATE_PREAMBLE\<rparr>, [])"
      using par k by (auto simp: em_row_def Let_def)
    then show ?thesis using False r row by (auto simp: em_seeking_def em_reading_def packed_def)
  qed
qed

lemma em_reading_stop:
  assumes r: "em_reading ns p d" and p: "length p = 4" and n: "length ns = 10"
  shows "\<exists>d'. em_onEvent d b =
       Some (d', if \<not> b \<and> p = column_parity ns then [token_of ns] else []) \<and> em_seeking 0 d'"
proof -
  let ?x = "em_nibble d"
  have row: "em_onEvent d b = em_row d b"
    using r p by (auto simp: em_onEvent_def em_reading_def word_unat_eq_iff)
  have k: "em_nibbleCount d = 10" using r n by (simp add: em_reading_def word_unat_eq_iff)
  have x: "small ?x" "nibble_bits ?x = p" using em_reading_nibble [OF r p] r by (auto simp: em_reading_def)
  show ?thesis
  proof (cases b)
    case False
    then obtain data' where data': "packed (ns @ [?x]) data'"
      "em_row d b = do {
             evs \<leftarrow> em_report data';
             Some (d\<lparr>em_data := data', em_nibbleLen := 0, em_nibbleCount := em_nibbleCount d + 1,
                     em_state := DECODER_STATE_PREAMBLE\<rparr>, evs)
           }"
      using em_row_store [OF r, of b] k by (auto simp: Let_def)
    have "em_report data' = Some (if p = column_parity ns then [token_of ns] else [])"
      using em_report_packed [OF n _ x(1) data'(1)] x(2) r by (simp add: em_reading_def)
    then show ?thesis using False r row data' by (auto simp: em_seeking_def em_reading_def packed_def)
  next
    case True
    then have "em_row d b = Some (d\<lparr>em_state := DECODER_STATE_PREAMBLE\<rparr>, [])"
      using k by (auto simp: em_row_def Let_def)
    then show ?thesis using True r row by (auto simp: em_seeking_def em_reading_def packed_def)
  qed
qed


section \<open>Whole frames\<close>

lemma em_run_bits:
  assumes "em_reading ns p d" and "length p + length q \<le> 4"
  shows "\<exists>d'. em_run d q = Some (d', []) \<and> em_reading ns (p @ q) d'"
  using assms
proof (induction q arbitrary: p d)
  case (Cons b q)
  obtain d1 where d1: "em_onEvent d b = Some (d1, [])" "em_reading ns (p @ [b]) d1"
    using em_reading_bit [OF Cons.prems(1)] Cons.prems(2) by fastforce
  then show ?case using Cons.IH [OF d1(2)] Cons.prems(2) by auto
qed simp

lemma em_run_row:
  assumes r: "em_reading ns [] d" and n: "length ns < 10" and x: "small x"
  shows "\<exists>d'. em_run d (frame_row x) = Some (d', []) \<and> em_reading (ns @ [x]) [] d'"
proof -
  obtain d1 where d1: "em_run d (nibble_bits x) = Some (d1, [])" "em_reading ns (nibble_bits x) d1"
    using em_run_bits [OF r, of "nibble_bits x"] by (auto simp: nibble_bits_def)
  then obtain d2 y where d2: "em_onEvent d1 (xor_bits (nibble_bits x)) = Some (d2, [])" "small y"
    "nibble_bits y = nibble_bits x" "em_reading (ns @ [y]) [] d2"
    using em_reading_parity [OF d1(2) _ n, of "xor_bits (nibble_bits x)"] by (auto simp: nibble_bits_def)
  then have "y = x" using small_nibble_bits_eq x by blast
  then show ?thesis using d1 d2 by (auto simp: frame_row_def em_run_append)
qed

lemma em_run_rows:
  assumes "em_reading ns [] d" and "length ns + length xs \<le> 10" and "\<forall>x \<in> set xs. small x"
  shows "\<exists>d'. em_run d (concat (map frame_row xs)) = Some (d', []) \<and> em_reading (ns @ xs) [] d'"
  using assms
proof (induction xs arbitrary: ns d)
  case (Cons x xs)
  obtain d1 where d1: "em_run d (frame_row x) = Some (d1, [])" "em_reading (ns @ [x]) [] d1"
    using em_run_row [OF Cons.prems(1), of x] Cons.prems(2,3) by auto
  then show ?case using Cons.IH [OF d1(2)] Cons.prems(2,3) by (auto simp: em_run_append)
qed simp

lemma em_run_ones:
  assumes "em_seeking n d" and "n + k = 9"
  shows "\<exists>d'. em_run d (replicate k True) = Some (d', []) \<and> em_reading [] [] d'"
  using assms
proof (induction k arbitrary: n d)
  case 0
  then show ?case by (simp add: em_seeking_def)
next
  case (Suc k)
  show ?case
  proof (cases "k = 0")
    case True
    then show ?thesis using em_seeking_step [OF Suc.prems(1), of True] Suc.prems(2) by fastforce
  next
    case False
    then obtain d1 where "em_onEvent d True = Some (d1, [])" "em_seeking (Suc n) d1"
      using em_seeking_step [OF Suc.prems(1), of True] Suc.prems(2) by fastforce
    then show ?thesis using Suc.IH Suc.prems(2) by fastforce
  qed
qed

abbreviation token :: "u8 \<Rightarrow> u32 \<Rightarrow> EventNewTokenData" where
  "token c t \<equiv> \<lparr>tok_data = t, tok_versionOrCustomerId = c\<rparr>"

lemma em_run_frame:
  assumes "em_seeking 0 d"
  shows "\<exists>d'. em_run d (em4100_frame c t) = Some (d', [token c t]) \<and> em_seeking 0 d'"
proof -
  let ?ns = "frame_nibbles c t"
  obtain d1 where d1: "em_run d (replicate 9 True) = Some (d1, [])" "em_reading [] [] d1"
    using em_run_ones [OF assms, of 9] by auto
  obtain d2 where d2: "em_run d1 (concat (map frame_row ?ns)) = Some (d2, [])" "em_reading ?ns [] d2"
    using em_run_rows [OF d1(2), of ?ns] small_frame_nibbles by auto
  obtain d3 where d3: "em_run d2 (column_parity ?ns) = Some (d3, [])" "em_reading ?ns (column_parity ?ns) d3"
    using em_run_bits [OF d2(2), of "column_parity ?ns"] by auto
  obtain d4 where d4: "em_onEvent d3 False = Some (d4, [token c t])" "em_seeking 0 d4"
    using em_reading_stop [OF d3(2), of False] by (auto simp: token_of_frame_nibbles)
  show ?thesis
    using d1(1) d2(1) d3(1) d4 by (auto simp: em4100_frame_def Let_def em_run_append)
qed

lemma em_seeking_reset: "length (em_data d) = 6 \<Longrightarrow> em_seeking 0 (em_reset d)"
  by (simp add: em_seeking_def em_reset_def small_def)

lemma em_run_frames:
  assumes "em_seeking 0 d"
  shows "\<exists>d'. em_run d (concat (replicate k (em4100_frame c t))) = Some (d', replicate k (token c t)) \<and>
           em_seeking 0 d'"
  using assms
proof (induction k arbitrary: d)
  case (Suc k)
  obtain d1 where d1: "em_run d (em4100_frame c t) = Some (d1, [token c t])" "em_seeking 0 d1"
    using em_run_frame [OF Suc.prems] by blast
  then show ?case using Suc.IH [OF d1(2)] by (auto simp: em_run_append)
qed simp

section \<open>Synchronising in the middle of a frame\<close>

text \<open>
  Inside the rows a run of ones is at most eight long, so no false preamble is seen when
  reception starts after the fifth of the nine ones.
\<close>

fun ones_run :: "nat \<Rightarrow> bool list \<Rightarrow> nat option" where
  "ones_run n [] = Some n"
| "ones_run n (b # bs) = (if b then if n = 8 then None else ones_run (Suc n) bs else ones_run 0 bs)"

lemma ones_run_append: "ones_run n (as @ bs) = do { m \<leftarrow> ones_run n as; ones_run m bs }"
  by (induction n as rule: ones_run.induct) auto

lemma em_run_seeking:
  assumes "em_seeking n d" and "ones_run n bs = Some m"
  shows "\<exists>d'. em_run d bs = Some (d', []) \<and> em_seeking m d'"
  using assms
proof (induction bs arbitrary: n d)
  case (Cons b bs)
  define n' where "n' = (if b then Suc n else 0)"
  have "ones_run n' bs = Some m" using Cons.prems(2) by (auto simp: n'_def split: if_splits)
  moreover obtain d1 where "em_onEvent d b = Some (d1, [])" "em_seeking n' d1"
    using em_seeking_step [OF Cons.prems(1), of b] Cons.prems(2) by (auto simp: n'_def split: if_splits)
  ultimately show ?case using Cons.IH by fastforce
qed simp

lemma ones_run_row: "n \<le> 4 \<Longrightarrow> \<exists>m \<le> 4. ones_run n (frame_row x) = Some m"
  by (auto simp: frame_row_def nibble_bits_def xor_bits_def)

lemma ones_run_row_drop: "\<exists>m \<le> 4. ones_run 0 (drop k (frame_row x)) = Some m"
proof -
  have "k \<in> {0, 1, 2, 3, 4} \<or> 5 \<le> k" by (simp only: insert_iff empty_iff) presburger
  then show ?thesis
    by (auto simp: frame_row_def nibble_bits_def xor_bits_def numeral_eq_Suc)
qed

lemma ones_run_rows: "n \<le> 4 \<Longrightarrow> \<exists>m \<le> 4. ones_run n (concat (map frame_row ns)) = Some m"
proof (induction ns arbitrary: n)
  case (Cons x ns)
  then show ?case using ones_run_row [OF Cons.prems, of x] by (auto simp: ones_run_append)
qed simp

lemma ones_run_rows_drop: "\<exists>m \<le> 4. ones_run 0 (drop k (concat (map frame_row ns))) = Some m"
proof (induction ns arbitrary: k)
  case (Cons x ns)
  show ?case
  proof (cases "5 \<le> k")
    case True
    then show ?thesis using Cons.IH [of "k - 5"] by simp
  next
    case False
    then show ?thesis using ones_run_row_drop [of k x] ones_run_rows
      by (fastforce simp: ones_run_append)
  qed
qed simp

lemma ones_run_tail:
  assumes "length p = 4" and "n \<le> 4"
  shows "ones_run n (p @ [False]) = Some 0"
  using assms by (auto simp: length_Suc_conv numeral_eq_Suc)

lemma ones_run_tail_drop:
  assumes "length p = 4"
  shows "ones_run 0 (drop k (p @ [False])) = Some 0"
proof -
  have "k \<in> {0, 1, 2, 3, 4} \<or> 5 \<le> k" by (simp only: insert_iff empty_iff) presburger
  then show ?thesis using assms by (auto simp: length_Suc_conv numeral_eq_Suc)
qed

lemma ones_run_replicate: "n + k \<le> 8 \<Longrightarrow> ones_run n (replicate k True) = Some (n + k)"
  by (induction k arbitrary: n) auto

lemma ones_run_frame_drop:
  assumes "5 \<le> k"
  shows "ones_run 0 (drop k (em4100_frame c t)) = Some 0"
proof -
  let ?ns = "frame_nibbles c t"
  let ?rows = "concat (map frame_row ?ns)" and ?tail = "column_parity ?ns @ [False]"
  consider "k \<le> 9" | "9 < k" "k \<le> 59" | "59 < k" by linarith
  then show ?thesis
  proof cases
    case 1
    then have "drop k (em4100_frame c t) = replicate (9 - k) True @ ?rows @ ?tail"
      by (simp add: em4100_frame_def Let_def)
    then show ?thesis
      using ones_run_replicate [of 0 "9 - k"] ones_run_rows [of "9 - k" ?ns] ones_run_tail assms
      by (fastforce simp: ones_run_append)
  next
    case 2
    then have "drop k (em4100_frame c t) = drop (k - 9) ?rows @ ?tail"
      by (simp add: em4100_frame_def Let_def)
    then show ?thesis
      using ones_run_rows_drop [of "k - 9" ?ns] ones_run_tail by (fastforce simp: ones_run_append)
  next
    case 3
    then have "drop k (em4100_frame c t) = drop (k - 59) ?tail"
      by (simp add: em4100_frame_def Let_def)
    then show ?thesis using ones_run_tail_drop [of "column_parity ?ns" "k - 59"] by simp
  qed
qed

lemma em_run_resync:
  assumes "em_seeking 0 d" and "5 \<le> k"
  shows "\<exists>d'. em_run d (drop k (em4100_frame c t)) = Some (d', []) \<and> em_seeking 0 d'"
  using em_run_seeking [OF assms(1) ones_run_frame_drop [OF assms(2)]] .

text \<open>
  When it starts after one to four of the nine ones, the remaining ones and the first bits of the
  customer id can make nine: a preamble that is too early. The first zero in these bits prevents it.
\<close>

definition fills_preamble :: "nat \<Rightarrow> u8 \<Rightarrow> bool" where
  "fills_preamble k c \<longleftrightarrow> k \<le> 4 \<and> (\<forall>b \<in> set (take k (nibble_bits (drop_bit 4 c))). b)"

lemma ones_run_early:
  assumes "0 < k" and "k \<le> 4" and "\<not> (\<forall>b \<in> set (take k (nibble_bits x)). b)"
  shows "\<exists>m \<le> 4. ones_run (9 - k) (frame_row x) = Some m"
proof -
  have "k \<in> {1, 2, 3, 4}" using assms(1,2) by auto
  then show ?thesis using assms(3)
    by (auto simp: frame_row_def nibble_bits_def xor_bits_def numeral_eq_Suc)
qed

lemma ones_run_frame_early:
  assumes "0 < k" and "k \<le> 4" and "\<not> fills_preamble k c"
  shows "ones_run 0 (drop k (em4100_frame c t)) = Some 0"
proof -
  obtain xs where xs: "frame_nibbles c t = drop_bit 4 c # xs" by (simp add: frame_nibbles_def)
  obtain m where m: "m \<le> 4" "ones_run (9 - k) (frame_row (drop_bit 4 c)) = Some m"
    using ones_run_early [OF assms(1,2), of "drop_bit 4 c"] assms(2,3) by (auto simp: fills_preamble_def)
  obtain m' where m': "m' \<le> 4" "ones_run m (concat (map frame_row xs)) = Some m'"
    using ones_run_rows [OF m(1), of xs] by blast
  have "ones_run m' (column_parity (frame_nibbles c t) @ [False]) = Some 0"
    using m'(1) by (intro ones_run_tail) simp_all
  moreover have "drop k (em4100_frame c t) = replicate (9 - k) True @ frame_row (drop_bit 4 c) @
      concat (map frame_row xs) @ column_parity (frame_nibbles c t) @ [False]"
    using assms(2) by (simp add: em4100_frame_def Let_def xs)
  ultimately show ?thesis
    using ones_run_replicate [of 0 "9 - k"] assms(1) m(2) m'(2) by (simp add: ones_run_append)
qed

lemma em_run_resync_frames:
  assumes "em_seeking 0 d" and "0 < k" and "\<not> fills_preamble k c"
  shows "\<exists>d'. em_run d (drop k (em4100_frame c t) @ concat (replicate n (em4100_frame c t))) =
     Some (d', replicate n (token c t))"
proof -
  have "ones_run 0 (drop k (em4100_frame c t)) = Some 0"
    using ones_run_frame_drop [of k c t] ones_run_frame_early [OF assms(2) _ assms(3), of t] by linarith
  then obtain d1 where "em_run d (drop k (em4100_frame c t)) = Some (d1, [])" "em_seeking 0 d1"
    using em_run_seeking [OF assms(1)] by blast
  then show ?thesis using em_run_frames [of d1 n c t] by (auto simp: em_run_append)
qed

section \<open>A tag that is never read\<close>

text \<open>
  When every row has an even number of ones in its nibble, all parity bits are zero, and the rows
  read four bits late have even parity as well.
\<close>

definition even_rows :: "u8 \<Rightarrow> u32 \<Rightarrow> bool" where
  "even_rows c t \<longleftrightarrow> (\<forall>x \<in> set (frame_nibbles c t). \<not> xor_bits (nibble_bits x))"

lemma xor_column_parity:
  "xor_bits (column_parity ns) = xor_bits (map (\<lambda>x. xor_bits (nibble_bits x)) ns)"
proof (induction ns)
  case (Cons x ns)
  have "xor_bits (column_parity (x # ns)) = (xor_bits (nibble_bits x) \<noteq> xor_bits (column_parity ns))"
    by (auto simp: column_parity_def nibble_bits_def xor_bits_def)
  then show ?case using Cons.IH by (simp add: xor_bits_def)
qed (simp add: column_parity_def xor_bits_def)

lemma xor_bits_none: "\<forall>b \<in> set bs. \<not> b \<Longrightarrow> \<not> xor_bits bs"
  by (induction bs) (auto simp: xor_bits_def)

lemma em_run_silent:
  assumes "em_run d as = Some (d1, [])" and "em_run d1 bs = Some (d2, [])"
  shows "em_run d (as @ bs) = Some (d2, [])"
  using assms by (simp add: em_run_append)

lemma em_run_even_row:
  assumes "em_reading ns [] d" and "length ns < 10" and "length q = 4" and "\<not> xor_bits q"
  shows "\<exists>d' x. em_run d (False # q) = Some (d', []) \<and> em_reading (ns @ [x]) [] d'"
proof -
  obtain a b c e where q: "q = [a, b, c, e]" using assms(3) by (auto simp: length_Suc_conv numeral_eq_Suc)
  obtain d1 where d1: "em_run d [False, a, b, c] = Some (d1, [])" "em_reading ns [False, a, b, c] d1"
    using em_run_bits [OF assms(1), of "[False, a, b, c]"] by auto
  have "e = xor_bits [False, a, b, c]" using assms(4) by (auto simp: q xor_bits_def)
  then obtain d2 x where "em_onEvent d1 e = Some (d2, [])" "em_reading (ns @ [x]) [] d2"
    using em_reading_parity [OF d1(2) _ assms(2), of e] by auto
  moreover have "False # q = [False, a, b, c] @ [e]" by (simp add: q)
  ultimately show ?thesis using d1(1) by (auto simp: em_run_append simp del: append.simps)
qed

lemma em_run_even_rows:
  assumes "em_reading ns [] d" and "length ns + length qs \<le> 10" and "\<forall>q \<in> set qs. length q = 4 \<and> \<not> xor_bits q"
  shows "\<exists>d' ns'. em_run d (concat (map ((#) False) qs)) = Some (d', []) \<and> em_reading ns' [] d' \<and>
     length ns' = length ns + length qs"
  using assms
proof (induction qs arbitrary: ns d)
  case (Cons q qs)
  obtain d1 x where d1: "em_run d (False # q) = Some (d1, [])" "em_reading (ns @ [x]) [] d1"
    using em_run_even_row [OF Cons.prems(1), of q] Cons.prems(2,3) by auto
  have "length (ns @ [x]) + length qs \<le> 10" "\<forall>q \<in> set qs. length q = 4 \<and> \<not> xor_bits q"
    using Cons.prems(2,3) by simp_all
  from Cons.IH [OF d1(2) this] obtain d2 ns' where
    "em_run d1 (concat (map ((#) False) qs)) = Some (d2, [])" "em_reading ns' [] d2"
    "length ns' = length (ns @ [x]) + length qs" by blast
  moreover have "concat (map ((#) False) (q # qs)) = (False # q) @ concat (map ((#) False) qs)" by simp
  ultimately show ?case using d1(1) by (simp only: em_run_append) auto
qed auto

lemma even_rows_shift:
  assumes "\<forall>x \<in> set xs. \<not> xor_bits (nibble_bits x)"
  shows "False # concat (map frame_row xs) = concat (map ((#) False) (map nibble_bits xs)) @ [False]"
  using assms by (induction xs) (simp_all add: frame_row_def)

lemma em_run_late:
  assumes "em_seeking 0 d" and c: "drop_bit 4 c = 15" and "even_rows c t"
  shows "\<exists>d'. em_run d (drop 4 (em4100_frame c t) @ take 4 (em4100_frame c t)) = Some (d', []) \<and> em_seeking 0 d'"
proof -
  obtain xs where xs: "frame_nibbles c t = 15 # xs" using c by (simp add: frame_nibbles_def)
  have len: "length xs = 9" using arg_cong [OF xs, of length] by (simp add: frame_nibbles_def)
  let ?cp = "column_parity (frame_nibbles c t)"
  have even: "\<forall>x \<in> set xs. \<not> xor_bits (nibble_bits x)" using assms(3) by (simp add: even_rows_def xs)
  have cp: "\<not> xor_bits ?cp"
    unfolding xor_column_parity using assms(3) by (intro xor_bits_none) (simp add: even_rows_def)
  have f: "frame_row 15 = replicate 4 True @ [False]"
    by (simp add: frame_row_def nibble_bits_def xor_bits_def bit_numeral_rec numeral_eq_Suc)
  have "drop 4 (em4100_frame c t) = replicate 5 True @ frame_row 15 @ concat (map frame_row xs) @ ?cp @ [False]"
    by (simp add: em4100_frame_def Let_def xs)
  also have "\<dots> = replicate 9 True @ (False # concat (map frame_row xs)) @ ?cp @ [False]"
    unfolding f by (simp add: numeral_eq_Suc)
  also have "\<dots> = replicate 9 True @ concat (map ((#) False) (map nibble_bits xs @ [?cp])) @ [False]"
    unfolding even_rows_shift [OF even] by simp
  finally have "drop 4 (em4100_frame c t) @ take 4 (em4100_frame c t) =
      replicate 9 True @ concat (map ((#) False) (map nibble_bits xs @ [?cp])) @ [False, True, True, True] @ [True]"
    by (simp add: em4100_frame_def Let_def numeral_eq_Suc)
  note bits = this
  obtain d1 where d1: "em_run d (replicate 9 True) = Some (d1, [])" "em_reading [] [] d1"
    using em_run_ones [OF assms(1), of 9] by auto
  obtain d2 ns where d2: "em_run d1 (concat (map ((#) False) (map nibble_bits xs @ [?cp]))) = Some (d2, [])"
    "em_reading ns [] d2" "length ns = 10"
    using em_run_even_rows [OF d1(2), of "map nibble_bits xs @ [?cp]"] even cp len
    by (auto simp: nibble_bits_def)
  obtain d3 where d3: "em_run d2 [False, True, True, True] = Some (d3, [])"
    "em_reading ns [False, True, True, True] d3"
    using em_run_bits [OF d2(2), of "[False, True, True, True]"] by auto
  obtain d4 where "em_run d3 [True] = Some (d4, [])" "em_seeking 0 d4"
    using em_reading_stop [OF d3(2) _ d2(3), of True] by auto
  then show ?thesis
    unfolding bits using em_run_silent [OF d1(1) em_run_silent [OF d2(1) em_run_silent [OF d3(1)]]] by blast
qed

lemma concat_replicate_shift:
  "xs @ concat (replicate n (ys @ xs)) = concat (replicate n (xs @ ys)) @ xs"
  by (induction n) simp_all

lemma em_run_never:
  assumes "em_seeking 0 d" and c: "drop_bit 4 c = 15" and "even_rows c t"
  shows "\<exists>d'. em_run d (drop 4 (em4100_frame c t) @ concat (replicate n (em4100_frame c t))) = Some (d', [])"
proof -
  let ?l = "drop 4 (em4100_frame c t)" and ?f = "take 4 (em4100_frame c t)"
  have "\<exists>d'. em_run d (concat (replicate m (?l @ ?f))) = Some (d', []) \<and> em_seeking 0 d'" for m
    using assms(1)
  proof (induction m arbitrary: d)
    case (Suc m)
    obtain d1 where d1: "em_run d (?l @ ?f) = Some (d1, [])" "em_seeking 0 d1"
      using em_run_late [OF Suc.prems assms(2,3)] by blast
    obtain d2 where "em_run d1 (concat (replicate m (?l @ ?f))) = Some (d2, [])" "em_seeking 0 d2"
      using Suc.IH [OF d1(2)] by blast
    moreover have "concat (replicate (Suc m) (?l @ ?f)) = (?l @ ?f) @ concat (replicate m (?l @ ?f))" by simp
    ultimately show ?case using d1(1) by (simp only: em_run_append) auto
  qed simp
  then obtain d1 where d1: "em_run d (concat (replicate n (?l @ ?f))) = Some (d1, [])" "em_seeking 0 d1" by blast
  obtain d2 where "em_run d1 (?l @ ?f) = Some (d2, [])" using em_run_late [OF d1(2) assms(2,3)] by blast
  then obtain d3 where "em_run d1 ?l = Some (d3, [])" by (auto simp: em_run_append split: bind_splits)
  moreover have "?l @ concat (replicate n (em4100_frame c t)) = concat (replicate n (?l @ ?f)) @ ?l"
    using concat_replicate_shift [of ?l n ?f] by simp
  ultimately show ?thesis using d1(1) by (simp add: em_run_append)
qed

section \<open>Only frames are reported\<close>

text \<open>What the bits since the last report look like, given the decoder's state.\<close>

definition em_tracks :: "bool list \<Rightarrow> em4100 \<Rightarrow> bool" where
  "em_tracks h d \<longleftrightarrow>
     (\<exists>n h0. em_seeking n d \<and> h = h0 @ replicate n True) \<or>
     (\<exists>ns p h0. em_reading ns p d \<and> h = h0 @ replicate 9 True @ concat (map frame_row ns) @ p)"

lemma em_tracksI_seeking: "em_seeking 0 d \<Longrightarrow> em_tracks h d"
  unfolding em_tracks_def by (intro disjI1 exI [of _ 0] exI [of _ h]) simp

lemma em_tracks_seeking_step:
  assumes s: "em_seeking n d" and h: "h = h0 @ replicate n True"
  shows "\<exists>d'. em_onEvent d b = Some (d', []) \<and> em_tracks (h @ [b]) d'"
proof -
  obtain d' where d': "em_onEvent d b = Some (d', [])"
    "if b then if n = 8 then em_reading [] [] d' else em_seeking (Suc n) d' else em_seeking 0 d'"
    using em_seeking_step [OF s] by blast
  have one: "h @ [b] = h0 @ replicate (Suc n) True" if b using h that by (simp add: replicate_append_same)
  consider "\<not> b" | "b" "n = 8" | "b" "n \<noteq> 8" by blast
  then have "em_tracks (h @ [b]) d'"
  proof cases
    case 1
    then show ?thesis using d'(2) em_tracksI_seeking by simp
  next
    case 2
    then have "em_reading [] [] d'" "h @ [b] = h0 @ replicate 9 True @ concat (map frame_row []) @ []"
      using d'(2) one by simp_all
    then show ?thesis unfolding em_tracks_def by blast
  next
    case 3
    then show ?thesis using d'(2) one unfolding em_tracks_def by auto
  qed
  then show ?thesis using d'(1) by blast
qed

lemma em_tracks_reading_step:
  assumes r: "em_reading ns p d" and n: "length p < 4 \<or> length ns < 10"
    and h: "h = h0 @ replicate 9 True @ concat (map frame_row ns) @ p"
  shows "\<exists>d'. em_onEvent d b = Some (d', []) \<and> em_tracks (h @ [b]) d'"
proof (cases "length p < 4")
  case True
  then obtain d' where "em_onEvent d b = Some (d', [])" "em_reading ns (p @ [b]) d'"
    using em_reading_bit [OF r] by blast
  moreover have "h @ [b] = h0 @ replicate 9 True @ concat (map frame_row ns) @ p @ [b]"
    by (simp add: h)
  ultimately show ?thesis unfolding em_tracks_def by blast
next
  case False
  then have l: "length p = 4" "length ns < 10" using r n by (auto simp: em_reading_def)
  then obtain d' where d': "em_onEvent d b = Some (d', [])"
    "if b = xor_bits p then \<exists>x. small x \<and> nibble_bits x = p \<and> em_reading (ns @ [x]) [] d'
     else em_seeking 0 d'"
    using em_reading_parity [OF r] by blast
  have "em_tracks (h @ [b]) d'"
  proof (cases "b = xor_bits p")
    case True
    then obtain x where x: "nibble_bits x = p" "em_reading (ns @ [x]) [] d'" using d'(2) by auto
    then have "h @ [b] = h0 @ replicate 9 True @ concat (map frame_row (ns @ [x])) @ []"
      by (simp add: h frame_row_def True)
    then show ?thesis using x(2) unfolding em_tracks_def by blast
  qed (use d'(2) em_tracksI_seeking in simp)
  then show ?thesis using d'(1) by blast
qed

lemma em_tracks_stop_step:
  assumes r: "em_reading ns p d" and n: "length p = 4" "length ns = 10"
    and h: "h = h0 @ replicate 9 True @ concat (map frame_row ns) @ p"
  shows "\<exists>d' evs. em_onEvent d b = Some (d', evs) \<and> em_seeking 0 d' \<and>
     (evs = [] \<or> (\<exists>c t. evs = [token c t] \<and> h @ [b] = h0 @ em4100_frame c t))"
proof -
  obtain d' where d': "em_onEvent d b =
     Some (d', if \<not> b \<and> p = column_parity ns then [token_of ns] else [])" "em_seeking 0 d'"
    using em_reading_stop [OF r n] by blast
  obtain c t where ct: "token_of ns = token c t" by (cases "token_of ns") auto
  have "frame_nibbles c t = ns"
    using frame_nibbles_token_of [of ns] r n by (simp add: em_reading_def ct)
  then have "\<not> b \<Longrightarrow> p = column_parity ns \<Longrightarrow> h @ [b] = h0 @ em4100_frame c t"
    by (simp add: h em4100_frame_def)
  then show ?thesis using d' ct by auto
qed

definition em_accounts :: "bool list \<Rightarrow> em4100 \<Rightarrow> EventNewTokenData list \<Rightarrow> bool" where
  "em_accounts q d evs \<longleftrightarrow>
     (evs = [] \<and> em_tracks q d \<or>
      (\<exists>c t h0. evs = [token c t] \<and> q = h0 @ em4100_frame c t) \<and> em_seeking 0 d)"

lemma em_tracks_step:
  assumes "em_tracks h d"
  shows "\<exists>d' evs. em_onEvent d b = Some (d', evs) \<and> em_accounts (h @ [b]) d' evs"
proof -
  consider (seeking) n h0 where "em_seeking n d" "h = h0 @ replicate n True"
    | (reading) ns p h0 where "em_reading ns p d" "h = h0 @ replicate 9 True @ concat (map frame_row ns) @ p"
    using assms by (auto simp: em_tracks_def)
  then show ?thesis
  proof cases
    case seeking
    from em_tracks_seeking_step [OF this, of b] show ?thesis by (auto simp: em_accounts_def)
  next
    case reading
    have "length p \<le> 4" "length ns \<le> 10" using reading(1) by (simp_all add: em_reading_def)
    then consider "length p < 4 \<or> length ns < 10" | "length p = 4" "length ns = 10" by linarith
    then show ?thesis
    proof cases
      case 1
      from em_tracks_reading_step [OF reading(1) this reading(2), of b]
      show ?thesis by (auto simp: em_accounts_def)
    next
      case 2
      from em_tracks_stop_step [OF reading(1) this reading(2), of b]
      show ?thesis by (auto simp: em_accounts_def em_tracksI_seeking)
    qed
  qed
qed

text \<open>
  The bits consumed by a run, cut at the reports: each report \<open>e\<close> ends a stretch that ends with
  the frame of \<open>e\<close>.
\<close>

definition frame_of :: "EventNewTokenData \<Rightarrow> bool list" where
  "frame_of e = em4100_frame (tok_versionOrCustomerId e) (tok_data e)"

lemma em_run_tracks:
  assumes "em_tracks h d"
  shows "\<exists>d' gaps rest. em_run d bs = Some (d', map snd gaps) \<and> em_tracks rest d' \<and>
     h @ bs = concat (map (\<lambda>(g, e). g @ frame_of e) gaps) @ rest"
  using assms
proof (induction bs arbitrary: h d)
  case Nil
  then show ?case by (intro exI [of _ d] exI [of _ "[]"] exI [of _ h]) simp
next
  case (Cons b bs)
  obtain d1 evs where d1: "em_onEvent d b = Some (d1, evs)" "em_accounts (h @ [b]) d1 evs"
    using em_tracks_step [OF Cons.prems] by blast
  show ?case
  proof (cases "evs = []")
    case True
    then have "em_tracks (h @ [b]) d1" using d1(2) by (simp add: em_accounts_def)
    then obtain d' gaps rest where "em_run d1 bs = Some (d', map snd gaps)" "em_tracks rest d'"
      "(h @ [b]) @ bs = concat (map (\<lambda>(g, e). g @ frame_of e) gaps) @ rest"
      using Cons.IH by blast
    then show ?thesis using d1(1) True
      by (intro exI [of _ d'] exI [of _ gaps] exI [of _ rest]) simp
  next
    case False
    then obtain c t h0 where e: "evs = [token c t]" "h @ [b] = h0 @ em4100_frame c t" "em_seeking 0 d1"
      using d1(2) by (auto simp: em_accounts_def)
    obtain d' gaps rest where r: "em_run d1 bs = Some (d', map snd gaps)" "em_tracks rest d'"
      "[] @ bs = concat (map (\<lambda>(g, e). g @ frame_of e) gaps) @ rest"
      using Cons.IH [OF em_tracksI_seeking [OF e(3)]] by blast
    have "h @ b # bs = (h @ [b]) @ bs" by simp
    also have "\<dots> = concat (map (\<lambda>(g, e). g @ frame_of e) ((h0, token c t) # gaps)) @ rest"
      using r(3) by (simp add: e(2) frame_of_def)
    finally show ?thesis using d1(1) e(1) r(1,2)
      by (intro exI [of _ d'] exI [of _ "(h0, token c t) # gaps"] exI [of _ rest]) simp
  qed
qed

section \<open>Properties\<close>

text \<open>
  C4. Round trip of the tag image: the two words that \<open>Em4100Eprom::generate\<close> writes for a
  customer id and a token, whatever the buffer held, are the frame of the data sheet; sent any
  number of times from a freshly reset decoder (or one in any state after \<open>reset\<close>), every
  repetition is reported as exactly this customer id and token, and nothing else is reported.
\<close>
theorem image_decodes:
  assumes "length buf = 2" and "length (em_data d) = 6"
  shows "\<exists>img d'. generate buf c t = Some img \<and> buf_bits img = em4100_frame c t \<and>
     em_run (em_reset d) (concat (replicate k (buf_bits img))) = Some (d', replicate k (token c t))"
proof -
  obtain img where img: "generate buf c t = Some img" "buf_bits img = em4100_frame c t"
    using generate_view [OF assms(1)] by blast
  moreover obtain d' where "em_run (em_reset d) (concat (replicate k (em4100_frame c t))) =
      Some (d', replicate k (token c t))"
    using em_run_frames [OF em_seeking_reset [OF assms(2)]] by blast
  ultimately show ?thesis by auto
qed

definition em_uninit :: em4100 where
  "em_uninit = \<lparr>em_state = DECODER_STATE_DATA, em_bitCount = 77, em_nibble = 0xff, em_nibbleLen = 0xff,
     em_nibbleCount = 0xff, em_data = [1, 2, 3, 4, 5, 6]\<rparr>"

theorem image_decodes_witness:
  "\<exists>img d'. generate [0xdeadbeef, 0x12345678] 0x1a 0x00c0ffee = Some img \<and>
     buf_bits img = em4100_frame 0x1a 0x00c0ffee \<and>
     em_run (em_reset em_uninit) (concat (replicate 2 (buf_bits img))) =
       Some (d', replicate 2 (token 0x1a 0x00c0ffee))"
  by (rule image_decodes) (simp_all add: em_uninit_def)

text \<open>
  C13. Soundness and memory safety of the EM4100 decoder: on every sequence of bits after
  \<open>reset\<close>, whatever the uninitialised members hold, no access leaves \<open>data\<close>, and the reports
  cut the received bits into stretches each of which ends with the complete, parity-checked
  64-bit frame of the reported token. In particular no frame is reported twice and no report
  is made of bits that are not a valid frame.
\<close>
theorem decoder_reports_frames:
  assumes "length (em_data d) = 6"
  shows "\<exists>d' gaps rest. em_run (em_reset d) bs = Some (d', map snd gaps) \<and>
     bs = concat (map (\<lambda>(g, e). g @ frame_of e) gaps) @ rest"
  using em_run_tracks [OF em_tracksI_seeking [OF em_seeking_reset [OF assms], of "[]"], of bs] by auto

theorem decoder_reports_frames_witness:
  "\<exists>d' gaps rest. em_run (em_reset em_uninit) (replicate 20 True @ [False]) = Some (d', map snd gaps) \<and>
     replicate 20 True @ [False] = concat (map (\<lambda>(g, e). g @ frame_of e) gaps) @ rest"
  by (rule decoder_reports_frames) (simp add: em_uninit_def)

text \<open>
  C28. Synchronisation. A decoder is switched on (after \<open>reset\<close>, whatever the uninitialised members
  hold) while a tag repeats its frame, \<open>k\<close> bits after the start of a frame. It reports nothing for
  the rest of the running frame and then the tag's token once for every complete frame, unless
  the last of the nine ones and the first bits of the customer id look like a preamble that
  comes too early: that takes \<open>k \<le> 4\<close> and a customer id whose first \<open>k\<close> bits are ones. Then a
  decoder can stay out of step for ever: switched on after four bits, with a customer id that
  starts with four ones and an even number of ones in every nibble, it never reports the token,
  however often the tag repeats it.
\<close>
theorem decoder_synchronises:
  assumes "length (em_data d) = 6" and "0 < k"
  shows "(\<not> fills_preamble k c \<longrightarrow>
     (\<exists>d'. em_run (em_reset d) (drop k (em4100_frame c t) @ concat (replicate n (em4100_frame c t))) =
        Some (d', replicate n (token c t)))) \<and>
   (k = 4 \<and> drop_bit 4 c = 15 \<and> even_rows c t \<longrightarrow>
     (\<exists>d'. em_run (em_reset d) (drop k (em4100_frame c t) @ concat (replicate n (em4100_frame c t))) =
        Some (d', [])))"
  using em_run_resync_frames [OF em_seeking_reset [OF assms(1)] assms(2), of c t n]
    em_run_never [OF em_seeking_reset [OF assms(1)], of c t n] by blast

theorem decoder_synchronises_witness:
  "(\<exists>d'. em_run (em_reset em_uninit)
       (drop 3 (em4100_frame 0x1a 0xffffffff) @ concat (replicate 3 (em4100_frame 0x1a 0xffffffff))) =
     Some (d', replicate 3 (token 0x1a 0xffffffff))) \<and>
   (\<exists>d'. em_run (em_reset em_uninit)
       (drop 4 (em4100_frame 0xff 0xffffffff) @ concat (replicate 1000 (em4100_frame 0xff 0xffffffff))) =
     Some (d', []))"
proof
  have "drop_bit 4 0x1a = (1 :: u8)" by (simp add: drop_bit_eq_div)
  then have "\<not> fills_preamble 3 0x1a" by (simp add: fills_preamble_def nibble_bits_def numeral_eq_Suc)
  then show "\<exists>d'. em_run (em_reset em_uninit)
       (drop 3 (em4100_frame 0x1a 0xffffffff) @ concat (replicate 3 (em4100_frame 0x1a 0xffffffff))) =
     Some (d', replicate 3 (token 0x1a 0xffffffff))"
    using decoder_synchronises [of em_uninit 3 "0x1a" "0xffffffff" 3] by (simp add: em_uninit_def)
  have "drop_bit 4 0xff = (15 :: u8)" "even_rows 0xff 0xffffffff"
    by (simp_all add: even_rows_def frame_nibbles_def upt_rec drop_bit_eq_div nibble_bits_def xor_bits_def bit_numeral_rec)
  then show "\<exists>d'. em_run (em_reset em_uninit)
       (drop 4 (em4100_frame 0xff 0xffffffff) @ concat (replicate 1000 (em4100_frame 0xff 0xffffffff))) =
     Some (d', [])"
    using decoder_synchronises [of em_uninit 4 "0xff" "0xffffffff" 1000] by (simp add: em_uninit_def)
qed

end
