(* ===== verification/Tool_Read.thy ===== *)
theory Tool_Read
  imports Coding_Decoders Em4100_Decoder
begin

text \<open>
  Reading a tag (\<open>rfid-tool/src/main.cpp\<close>, option \<open>read\<close>): the carrier decoder with the
  Manchester and the biphase decoder as listeners, an EM4100 decoder behind each of them, and
  a listener that prints the token (\<open>Em4100DecoderListener\<close>). A notification
  (\<open>inc/common/Notifier.hpp\<close>) calls the listeners in the order they were added and returns
  before the notifier goes on.
\<close>

section \<open>The objects of the read branch\<close>

datatype coding_name = Manchester | Biphase

text \<open>What \<open>Em4100DecoderListener\<close> prints: divider, modulation, customer id and token.\<close>

type_synonym report = "u8 \<times> coding_name \<times> EventNewTokenData"

record reader =
  carrierDecoder :: carrier
  manchesterDecoder :: manchester
  biphaseDecoder :: biphase
  em4100DecoderM :: em4100
  em4100DecoderB :: em4100

text \<open>The constructors; the members the code does not initialise come from the arguments.\<close>

definition reader_init :: "carrier \<Rightarrow> em4100 \<Rightarrow> em4100 \<Rightarrow> reader" where
  "reader_init c m b =
     \<lparr>carrierDecoder = carrier_reset c, manchesterDecoder = manchester_reset, biphaseDecoder = biphase_reset,
      em4100DecoderM = em_reset m, em4100DecoderB = em_reset b\<rparr>"

definition listener_onEvent :: "u8 \<Rightarrow> coding_name \<Rightarrow> EventNewTokenData list \<Rightarrow> report list" where
  "listener_onEvent divider name evs = map (\<lambda>e. (divider, name, e)) evs"

text \<open>One notification of the carrier decoder, delivered to its two listeners.\<close>

definition notify_carrier :: "reader \<Rightarrow> carrier_event \<Rightarrow> (reader \<times> report list) option" where
  "notify_carrier r ev = do {
     let (m, bitsM) = manchester_onEvent (manchesterDecoder r) ev;
     (emM, tokM) \<leftarrow> em_run (em4100DecoderM r) bitsM;
     let (b, bitsB) = biphase_onEvent (biphaseDecoder r) ev;
     (emB, tokB) \<leftarrow> em_run (em4100DecoderB r) bitsB;
     let n = carrierDivider (carrierDecoder r);
     Some (r\<lparr>manchesterDecoder := m, em4100DecoderM := emM, biphaseDecoder := b, em4100DecoderB := emB\<rparr>,
           listener_onEvent n Manchester tokM @ listener_onEvent n Biphase tokB)
   }"

fun notify_all :: "reader \<Rightarrow> carrier_event list \<Rightarrow> (reader \<times> report list) option" where
  "notify_all r [] = Some (r, [])"
| "notify_all r (ev # evs) = do {
     (r, xs) \<leftarrow> notify_carrier r ev;
     (r, ys) \<leftarrow> notify_all r evs;
     Some (r, xs @ ys)
   }"

text \<open>
  One sample. A sample causes at most one notification, and only the loss of synchronisation
  changes the divider after it, which reports nothing.
\<close>

definition read_sample :: "reader \<Rightarrow> sample \<Rightarrow> (reader \<times> report list) option" where
  "read_sample r s =
     (let (c, evs) = check_pulse (carrierDecoder r) s
      in notify_all (r\<lparr>carrierDecoder := c\<rparr>) evs)"

fun read_samples :: "reader \<Rightarrow> sample list \<Rightarrow> (reader \<times> report list) option" where
  "read_samples r [] = Some (r, [])"
| "read_samples r (s # ss) = do {
     (r, xs) \<leftarrow> read_sample r s;
     (r, ys) \<leftarrow> read_samples r ss;
     Some (r, xs @ ys)
   }"


section \<open>Notifier and listeners\<close>

text \<open>
  \<open>Notifier\<close>: a vector of listeners that are called in the order they were added. \<open>removeListener\<close>
  erases the first that is equal.
\<close>

definition addListener :: "'l list \<Rightarrow> 'l \<Rightarrow> 'l list" where
  "addListener listeners listener = listeners @ [listener]"

definition removeListener :: "'l list \<Rightarrow> 'l \<Rightarrow> 'l list" where
  "removeListener listeners listener = remove1 listener listeners"

fun notify :: "('l \<Rightarrow> 's \<Rightarrow> 's option) \<Rightarrow> 'l list \<Rightarrow> 's \<Rightarrow> 's option" where
  "notify onEvent [] s = Some s"
| "notify onEvent (i # listeners) s = do { s \<leftarrow> onEvent i s; notify onEvent listeners s }"

lemma notify_addListener:
  "notify f (addListener ls l) s = do { s \<leftarrow> notify f ls s; f l s }"
proof (induction ls arbitrary: s)
  case Nil
  then show ?case by (cases "f l s") (simp_all add: addListener_def)
next
  case (Cons x xs)
  then show ?case by (cases "f x s") (simp_all add: addListener_def)
qed

lemma removeListener_added: "l \<notin> set ls \<Longrightarrow> removeListener (addListener ls l) l = ls"
  by (simp add: removeListener_def addListener_def remove1_append)

text \<open>
  The constructors of the coding decoders add them to the carrier decoder.
\<close>

definition carrier_listeners :: "coding_name list" where
  "carrier_listeners = addListener (addListener [] Manchester) Biphase"

text \<open>Their destructors take them off again, in the reverse order.\<close>

definition coding_destroyed :: "coding_name \<Rightarrow> coding_name list \<Rightarrow> coding_name list" where
  "coding_destroyed name listeners = removeListener listeners name"

lemma no_listener_left: "coding_destroyed Manchester (coding_destroyed Biphase carrier_listeners) = []"
  by (simp add: coding_destroyed_def carrier_listeners_def addListener_def removeListener_def)

text \<open>What each does with an event, its EM4100 decoder and the printing listener included:\<close>

definition coding_onEvent ::
    "carrier_event \<Rightarrow> coding_name \<Rightarrow> reader \<times> report list \<Rightarrow> (reader \<times> report list) option" where
  "coding_onEvent ev name st =
     (let (r, reps) = st; n = carrierDivider (carrierDecoder r)
      in case name of
           Manchester \<Rightarrow> do {
             let (m, bits) = manchester_onEvent (manchesterDecoder r) ev;
             (em, tok) \<leftarrow> em_run (em4100DecoderM r) bits;
             Some (r\<lparr>manchesterDecoder := m, em4100DecoderM := em\<rparr>, reps @ listener_onEvent n Manchester tok)
           }
         | Biphase \<Rightarrow> do {
             let (b, bits) = biphase_onEvent (biphaseDecoder r) ev;
             (em, tok) \<leftarrow> em_run (em4100DecoderB r) bits;
             Some (r\<lparr>biphaseDecoder := b, em4100DecoderB := em\<rparr>, reps @ listener_onEvent n Biphase tok)
           })"

text \<open>Both listeners in their order are \<open>notify_carrier\<close>.\<close>

lemma notify_carrier_listeners: "notify (coding_onEvent ev) carrier_listeners (r, []) = notify_carrier r ev"
  by (auto simp: carrier_listeners_def addListener_def coding_onEvent_def notify_carrier_def Let_def
      split: prod.splits option.splits Option.bind_splits)

section \<open>The two branches of the reader on their own\<close>

fun run_events :: "('s \<Rightarrow> carrier_event \<Rightarrow> 's \<times> bool list) \<Rightarrow> 's \<Rightarrow> carrier_event list \<Rightarrow> 's \<times> bool list" where
  "run_events step s [] = (s, [])"
| "run_events step s (e # es) =
     (let (s, bs) = step s e; (s, bs') = run_events step s es in (s, bs @ bs'))"

lemma run_events_append:
  "run_events step s (as @ bs) =
     (let (s, xs) = run_events step s as; (s, ys) = run_events step s bs in (s, xs @ ys))"
  by (induction as arbitrary: s) (auto split: prod.splits)

definition tokens_of :: "coding_name \<Rightarrow> report list \<Rightarrow> EventNewTokenData list" where
  "tokens_of name reps = map (\<lambda>r. snd (snd r)) (filter (\<lambda>r. fst (snd r) = name) reps)"

lemma tokens_of_append [simp]: "tokens_of name (as @ bs) = tokens_of name as @ tokens_of name bs"
  by (simp add: tokens_of_def)

lemma tokens_of_listener [simp]:
  "tokens_of name (listener_onEvent n name' evs) = (if name' = name then evs else [])"
  by (simp add: tokens_of_def listener_onEvent_def comp_def)

lemma tokens_of_empty:
  assumes "tokens_of Manchester reps = []" and "tokens_of Biphase reps = []"
  shows "reps = []"
proof (cases reps)
  case (Cons r rs)
  then show ?thesis using assms by (cases "fst (snd r)") (auto simp: tokens_of_def)
qed

text \<open>Both branches of reader \<open>r\<close> on the events \<open>evs\<close>, with their decoders' tokens.\<close>

definition branches :: "reader \<Rightarrow> carrier_event list \<Rightarrow> reader \<Rightarrow>
    EventNewTokenData list \<Rightarrow> EventNewTokenData list \<Rightarrow> bool" where
  "branches r evs r' tM tB \<longleftrightarrow>
     (\<exists>bM bB. run_events manchester_onEvent (manchesterDecoder r) evs = (manchesterDecoder r', bM) \<and>
        em_run (em4100DecoderM r) bM = Some (em4100DecoderM r', tM) \<and>
        run_events biphase_onEvent (biphaseDecoder r) evs = (biphaseDecoder r', bB) \<and>
        em_run (em4100DecoderB r) bB = Some (em4100DecoderB r', tB))"

definition em_live :: "em4100 \<Rightarrow> bool" where
  "em_live d \<longleftrightarrow> (\<exists>h. em_tracks h d)"

lemma em_live_run:
  assumes "em_live d"
  shows "\<exists>d' evs. em_run d bs = Some (d', evs) \<and> em_live d'"
proof -
  obtain h where h: "em_tracks h d" using assms by (auto simp: em_live_def)
  show ?thesis using em_run_tracks [OF h, of bs] unfolding em_live_def by blast
qed

text \<open>The reports are those of the two branches, and carry the divider.\<close>

definition reported :: "reader \<Rightarrow> carrier_event list \<Rightarrow> reader \<Rightarrow> report list \<Rightarrow> bool" where
  "reported r evs r' reps \<longleftrightarrow>
     branches r evs r' (tokens_of Manchester reps) (tokens_of Biphase reps) \<and>
     em_live (em4100DecoderM r') \<and> em_live (em4100DecoderB r')"

lemma notify_carrier_eq:
  assumes "em_live (em4100DecoderM r)" and "em_live (em4100DecoderB r)"
  shows "\<exists>r' reps. notify_carrier r ev = Some (r', reps) \<and> carrierDecoder r' = carrierDecoder r \<and>
     reported r [ev] r' reps \<and> (\<forall>rep \<in> set reps. fst rep = carrierDivider (carrierDecoder r))"
proof -
  obtain m bM where m: "manchester_onEvent (manchesterDecoder r) ev = (m, bM)"
    by (cases "manchester_onEvent (manchesterDecoder r) ev")
  obtain b bB where b: "biphase_onEvent (biphaseDecoder r) ev = (b, bB)"
    by (cases "biphase_onEvent (biphaseDecoder r) ev")
  obtain eM tM where eM: "em_run (em4100DecoderM r) bM = Some (eM, tM)" "em_live eM"
    using em_live_run [OF assms(1)] by blast
  obtain eB tB where eB: "em_run (em4100DecoderB r) bB = Some (eB, tB)" "em_live eB"
    using em_live_run [OF assms(2)] by blast
  let ?n = "carrierDivider (carrierDecoder r)"
  let ?r = "r\<lparr>manchesterDecoder := m, em4100DecoderM := eM, biphaseDecoder := b, em4100DecoderB := eB\<rparr>"
  let ?reps = "listener_onEvent ?n Manchester tM @ listener_onEvent ?n Biphase tB"
  have "notify_carrier r ev = Some (?r, ?reps)"
    using m b eM eB by (simp add: notify_carrier_def Let_def)
  moreover have "reported r [ev] ?r ?reps"
    using m b eM eB by (simp add: reported_def branches_def)
  moreover have "\<forall>rep \<in> set ?reps. fst rep = ?n" by (auto simp: listener_onEvent_def)
  moreover have "carrierDecoder ?r = carrierDecoder r" by simp
  ultimately show ?thesis by blast
qed

lemma em_run_split:
  assumes "em_run d as = Some (d1, xs)" and "em_run d1 bs = Some (d2, ys)"
  shows "em_run d (as @ bs) = Some (d2, xs @ ys)"
  using assms by (simp add: em_run_append)

lemma branches_Nil: "branches r [] r [] []"
  by (simp add: branches_def)

lemma branches_append:
  assumes "branches r as r1 tM tB" and "branches r1 bs r2 tM' tB'"
  shows "branches r (as @ bs) r2 (tM @ tM') (tB @ tB')"
  using assms unfolding branches_def
  by (fastforce simp: run_events_append intro: em_run_split)

lemma reported_append:
  assumes "reported r as r1 xs" and "reported r1 bs r2 ys"
  shows "reported r (as @ bs) r2 (xs @ ys)"
  using assms branches_append unfolding reported_def by (auto simp: branches_append)

definition reader_ok :: "reader \<Rightarrow> bool" where
  "reader_ok r \<longleftrightarrow> carrier_ok (carrierDecoder r) \<and> em_live (em4100DecoderM r) \<and> em_live (em4100DecoderB r)"

lemma notify_all_eq:
  assumes "em_live (em4100DecoderM r)" and "em_live (em4100DecoderB r)"
  shows "\<exists>r' reps. notify_all r evs = Some (r', reps) \<and> carrierDecoder r' = carrierDecoder r \<and>
     reported r evs r' reps \<and> (\<forall>rep \<in> set reps. fst rep = carrierDivider (carrierDecoder r))"
  using assms
proof (induction evs arbitrary: r)
  case Nil
  then show ?case by (simp add: reported_def branches_Nil tokens_of_def)
next
  case (Cons ev evs)
  obtain r1 xs where r1: "notify_carrier r ev = Some (r1, xs)" "carrierDecoder r1 = carrierDecoder r"
    "reported r [ev] r1 xs" "\<forall>rep \<in> set xs. fst rep = carrierDivider (carrierDecoder r)"
    using notify_carrier_eq [OF Cons.prems] by blast
  then obtain r2 ys where r2: "notify_all r1 evs = Some (r2, ys)" "carrierDecoder r2 = carrierDecoder r1"
    "reported r1 evs r2 ys" "\<forall>rep \<in> set ys. fst rep = carrierDivider (carrierDecoder r1)"
    using Cons.IH [of r1] by (auto simp: reported_def)
  have "reported r (ev # evs) r2 (xs @ ys)" using reported_append [OF r1(3) r2(3)] by simp
  then show ?case using r1 r2 by auto
qed

lemma branches_carrier [simp]: "branches (r\<lparr>carrierDecoder := c\<rparr>) evs r' tM tB = branches r evs r' tM tB"
  by (simp add: branches_def)

lemma reported_carrier [simp]: "reported (r\<lparr>carrierDecoder := c\<rparr>) evs r' reps = reported r evs r' reps"
  by (simp add: reported_def)

lemma read_sample_eq:
  assumes "reader_ok r"
  shows "\<exists>r' reps. read_sample r s = Some (r', reps) \<and> reader_ok r' \<and>
     carrierDecoder r' = fst (check_pulse (carrierDecoder r) s) \<and>
     reported r (snd (check_pulse (carrierDecoder r) s)) r' reps \<and>
     (\<forall>rep \<in> set reps. fst rep = carrierDivider (carrierDecoder r'))"
proof -
  let ?c = "fst (check_pulse (carrierDecoder r) s)"
  obtain r' reps where *: "notify_all (r\<lparr>carrierDecoder := ?c\<rparr>) (snd (check_pulse (carrierDecoder r) s)) = Some (r', reps)"
    "carrierDecoder r' = ?c" "reported r (snd (check_pulse (carrierDecoder r) s)) r' reps"
    "\<forall>rep \<in> set reps. fst rep = carrierDivider ?c"
    using notify_all_eq [of "r\<lparr>carrierDecoder := ?c\<rparr>" "snd (check_pulse (carrierDecoder r) s)"] assms
    by (auto simp: reader_ok_def)
  moreover have "reader_ok r'"
    using * carrier_ok_check_pulse [of "carrierDecoder r" s] assms by (simp add: reader_ok_def reported_def)
  moreover have "read_sample r s = notify_all (r\<lparr>carrierDecoder := ?c\<rparr>) (snd (check_pulse (carrierDecoder r) s))"
    by (simp add: read_sample_def split: prod.splits)
  ultimately show ?thesis by simp
qed

text \<open>Reading is classifying the pulses and decoding their events in both branches.\<close>

lemma read_samples_eq:
  assumes "reader_ok r"
  shows "\<exists>r' reps. read_samples r ss = Some (r', reps) \<and> reader_ok r' \<and>
     carrierDecoder r' = fst (checkPulses (carrierDecoder r) ss) \<and>
     reported r (snd (checkPulses (carrierDecoder r) ss)) r' reps \<and>
     (\<forall>rep \<in> set reps. \<exists>k. fst rep = carrierDivider (fst (checkPulses (carrierDecoder r) (take (Suc k) ss))))"
  using assms
proof (induction ss arbitrary: r)
  case Nil
  then show ?case by (simp add: reported_def branches_Nil tokens_of_def reader_ok_def)
next
  case (Cons s ss)
  let ?c = "fst (check_pulse (carrierDecoder r) s)"
  obtain r1 xs where r1: "read_sample r s = Some (r1, xs)" "reader_ok r1" "carrierDecoder r1 = ?c"
    "reported r (snd (check_pulse (carrierDecoder r) s)) r1 xs"
    "\<forall>rep \<in> set xs. fst rep = carrierDivider ?c"
    using read_sample_eq [OF Cons.prems] by metis
  obtain r2 ys where r2: "read_samples r1 ss = Some (r2, ys)" "reader_ok r2"
    "carrierDecoder r2 = fst (checkPulses ?c ss)" "reported r1 (snd (checkPulses ?c ss)) r2 ys"
    "\<forall>rep \<in> set ys. \<exists>k. fst rep = carrierDivider (fst (checkPulses ?c (take (Suc k) ss)))"
    using Cons.IH [OF r1(2)] r1(3) by metis
  have "\<exists>k. fst rep = carrierDivider (fst (checkPulses (carrierDecoder r) (take (Suc k) (s # ss))))"
    if rep: "rep \<in> set (xs @ ys)" for rep
  proof -
    consider "fst rep = carrierDivider (fst (checkPulses (carrierDecoder r) (take (Suc 0) (s # ss))))"
      | k where "fst rep = carrierDivider (fst (checkPulses ?c (take (Suc k) ss)))"
      using rep r1(5) r2(5) by (auto simp: checkPulses_Cons simp del: checkPulses.simps(2))
    then show ?thesis
    proof cases
      case 2
      then show ?thesis by (intro exI [of _ "Suc k"]) (simp add: checkPulses_Cons del: checkPulses.simps(2))
    qed blast
  qed
  then show ?case
    using r1 r2 reported_append [OF r1(4) r2(4)]
    by (intro exI [of _ r2] exI [of _ "xs @ ys"]) (simp add: checkPulses_Cons del: checkPulses.simps(2))
qed

lemma reader_ok_init:
  assumes "length (em_data m) = 6" and "length (em_data b) = 6"
  shows "reader_ok (reader_init c m b)"
  using em_tracksI_seeking [OF em_seeking_reset [OF assms(1)]] em_tracksI_seeking [OF em_seeking_reset [OF assms(2)]]
  by (auto simp: reader_ok_def reader_init_def em_live_def carrier_ok_reset)


section \<open>A Manchester tag on the antenna\<close>

text \<open>Pulses as the events of a synchronised carrier decoder.\<close>

definition new_pulses :: "(bool \<times> bool) list \<Rightarrow> carrier_event list" where
  "new_pulses ps = map (\<lambda>p. EVENT_NEW_PULSE (fst p) (snd p)) ps"

lemma run_events_pulses: "run_events manchester_onEvent m (new_pulses ps) = run_pulses manchester_pulse m ps"
  by (induction ps arbitrary: m) (simp_all add: new_pulses_def)

text \<open>The pulses of samples with the lengths of divider \<open>n\<close>.\<close>

definition pulse_of :: "nat \<Rightarrow> sample \<Rightarrow> bool \<times> bool" where
  "pulse_of n s = (isHigh s, long_for n (getLengthUs s))"

lemma map_pulse_event: "map (pulse_event n) ss = new_pulses (map (pulse_of n) ss)"
  by (simp add: new_pulses_def pulse_event_def pulse_of_def)

lemma em_run_zeros: "em_seeking 0 d \<Longrightarrow> \<exists>d'. em_run d (replicate k False) = Some (d', []) \<and> em_seeking 0 d'"
proof -
  have "ones_run 0 (replicate k False) = Some 0" by (induction k) auto
  then show "em_seeking 0 d \<Longrightarrow> ?thesis" using em_run_seeking by blast
qed

text \<open>
  After a reset: short pulses, then the long pulse of bit \<open>k\<close> of a frame, then the rest of that
  frame and \<open>m\<close> whole ones. The bit of the long pulse may or may not be told.
\<close>

lemma manchester_frames:
  assumes "em_seeking 0 e" and "\<forall>p \<in> set pre. \<not> snd p" and "alternating l pre"
    and k: "5 \<le> k" "k < 64" and h: "h = em4100_frame c t ! k"
    and bs: "bs = drop (Suc k) (em4100_frame c t) @ concat (replicate m (em4100_frame c t))"
  shows "\<exists>d' bits e'. run_pulses manchester_pulse manchester_reset (pre @ (h, True) # manchester_pulses h bs) = (d', bits) \<and>
     em_run e bits = Some (e', replicate m (token c t))"
proof -
  obtain z d1 where d1: "run_pulses manchester_pulse manchester_reset pre = (d1, replicate z False)"
    using manchester_zeros [of manchester_reset pre l] assms(2,3) by (auto simp: manchester_reset_def)
  obtain d2 xs where d2: "run_pulses manchester_pulse d1 ((h, True) # manchester_pulses h bs) = (d2, xs @ bs)"
    "xs \<in> {[], [h]}"
    using man.self_synchronises [of d1 h bs] by blast
  obtain e1 where e1: "em_run e (replicate z False) = Some (e1, [])" "em_seeking 0 e1"
    using em_run_zeros [OF assms(1)] by blast
  have "\<exists>e2. em_run e1 (xs @ drop (Suc k) (em4100_frame c t)) = Some (e2, []) \<and> em_seeking 0 e2"
  proof (cases "xs = []")
    case True
    then show ?thesis using em_run_resync [OF e1(2), of "Suc k" c t] k by simp
  next
    case False
    then have "xs @ drop (Suc k) (em4100_frame c t) = drop k (em4100_frame c t)"
      using d2(2) k h by (simp add: Cons_nth_drop_Suc)
    then show ?thesis using em_run_resync [OF e1(2), of k c t] k by simp
  qed
  then obtain e2 where e2: "em_run e1 (xs @ drop (Suc k) (em4100_frame c t)) = Some (e2, [])" "em_seeking 0 e2"
    by blast
  obtain e3 where "em_run e2 (concat (replicate m (em4100_frame c t))) = Some (e3, replicate m (token c t))"
    using em_run_frames [OF e2(2)] by blast
  then have "em_run e (replicate z False @ (xs @ drop (Suc k) (em4100_frame c t)) @
      concat (replicate m (em4100_frame c t))) = Some (e3, replicate m (token c t))"
    using em_run_split [OF e1(1) em_run_split [OF e2(1)]] by simp
  then show ?thesis using d1 d2(1) by (simp add: run_pulses_append bs)
qed


lemma reads_frames:
  assumes em: "length (em_data m) = 6" "length (em_data b) = 6"
    and good: "\<forall>s \<in> set (as @ [x] @ ss). in_range 16 s" "length as < 255"
      "5 \<le> shorts 16 (as @ [x])" "5 \<le> longs 16 (as @ [x])" "shorts 16 as < 5 \<or> longs 16 as < 5"
    and ss: "map (pulse_of 16) ss = pre @ (h, True) # manchester_pulses h bs"
    and pre: "\<forall>p \<in> set pre. \<not> snd p" "alternating l pre"
    and k: "5 \<le> k" "k < 64" and h: "h = em4100_frame c t ! k"
    and bs: "bs = drop (Suc k) (em4100_frame c t) @ concat (replicate n (em4100_frame c t))"
  shows "\<exists>r' reps. read_samples (reader_init c0 m b) (as @ [x] @ ss) = Some (r', reps) \<and>
     tokens_of Manchester reps = replicate n (token c t) \<and> (\<forall>rep \<in> set reps. fst rep = 16)"
proof -
  let ?r = "reader_init c0 m b"
  have r: "carrierDecoder ?r = carrier_reset c0" "manchesterDecoder ?r = manchester_reset"
    "em4100DecoderM ?r = em_reset m" by (simp_all add: reader_init_def)
  obtain c1 where c1: "checkPulses (carrier_reset c0) (as @ [x]) = (c1, [EVENT_SYNC_CHANGED True 16])" "synced 16 c1"
    using acquires [OF acquiring_reset _ good(2-5)] good(1) by auto
  obtain r1 reps1 where r1: "read_samples ?r (as @ [x]) = Some (r1, reps1)" "reader_ok r1"
    "carrierDecoder r1 = c1" "reported ?r [EVENT_SYNC_CHANGED True 16] r1 reps1"
    using read_samples_eq [OF reader_ok_init [OF em], of c0 "as @ [x]"] c1(1) r by auto
  then have b1: "tokens_of Manchester reps1 = []" "tokens_of Biphase reps1 = []"
    "manchesterDecoder r1 = manchester_reset" "em4100DecoderM r1 = em_reset m"
    using r by (auto simp: reported_def branches_def)
  obtain c2 where c2: "checkPulses c1 ss = (c2, new_pulses (map (pulse_of 16) ss))"
    using synced_run [OF c1(2), of ss] good(1) by (auto simp: map_pulse_event)
  obtain r2 reps2 where r2: "read_samples r1 ss = Some (r2, reps2)"
    "reported r1 (new_pulses (map (pulse_of 16) ss)) r2 reps2"
    "\<forall>rep \<in> set reps2. \<exists>k. fst rep = carrierDivider (fst (checkPulses c1 (take (Suc k) ss)))"
    using read_samples_eq [OF r1(2), of ss] c2 r1(3) by auto
  have "carrierDivider (fst (checkPulses c1 (take k ss))) = 16" for k
  proof -
    have "\<forall>s \<in> set (take k ss). in_range 16 s" using good(1) by (auto dest: in_set_takeD)
    then show ?thesis using synced_run [OF c1(2), of "take k ss"] by (auto simp: synced_def ranges_of_def)
  qed
  then have d: "\<forall>rep \<in> set reps2. fst rep = 16" using r2(3) by auto
  obtain d' bits e' where m: "run_pulses manchester_pulse manchester_reset (map (pulse_of 16) ss) = (d', bits)"
    "em_run (em_reset m) bits = Some (e', replicate n (token c t))"
    using manchester_frames [OF em_seeking_reset [OF em(1)] pre k h bs] ss by auto
  then have t: "tokens_of Manchester reps2 = replicate n (token c t)"
    using r2(2) b1(3,4) by (auto simp: reported_def branches_def run_events_pulses)
  have "read_samples ?r (as @ [x] @ ss) = Some (r2, reps1 @ reps2)"
  proof -
    have "read_samples r0 (xs @ ys) = do { (r, a) \<leftarrow> read_samples r0 xs; (r, b) \<leftarrow> read_samples r ys; Some (r, a @ b) }"
      for r0 xs ys by (induction xs arbitrary: r0) (auto split: prod.splits Option.bind_splits)
    from this [of ?r "as @ [x]" ss] show ?thesis using r1(1) r2(1) by simp
  qed
  moreover have "reps1 = []" using b1(1,2) by (rule tokens_of_empty)
  ultimately show ?thesis using t d by auto
qed

text \<open>The samples of a tag, with \<open>n\<close> whole frames.\<close>

definition tag_samples :: "nat \<Rightarrow> u8 \<Rightarrow> u32 \<Rightarrow> sample list \<Rightarrow> bool" where
  "tag_samples n c t samples \<longleftrightarrow>
     (\<exists>as x ss pre h bs l k. samples = as @ [x] @ ss \<and>
        (\<forall>s \<in> set (as @ [x] @ ss). in_range 16 s) \<and> length as < 255 \<and>
        5 \<le> shorts 16 (as @ [x]) \<and> 5 \<le> longs 16 (as @ [x]) \<and> (shorts 16 as < 5 \<or> longs 16 as < 5) \<and>
        map (pulse_of 16) ss = pre @ (h, True) # manchester_pulses h bs \<and>
        (\<forall>p \<in> set pre. \<not> snd p) \<and> alternating l pre \<and> 5 \<le> k \<and> k < 64 \<and> h = em4100_frame c t ! k \<and>
        bs = drop (Suc k) (em4100_frame c t) @ concat (replicate n (em4100_frame c t)))"

lemma tag_samples_read:
  assumes "length (em_data m) = 6" and "length (em_data b) = 6" and "tag_samples n c t samples"
  shows "\<exists>r' reps. read_samples (reader_init c0 m b) samples = Some (r', reps) \<and>
     tokens_of Manchester reps = replicate n (token c t) \<and> (\<forall>rep \<in> set reps. fst rep = 16)"
proof -
  obtain as x ss pre h bs l k where "samples = as @ [x] @ ss"
    "\<forall>s \<in> set (as @ [x] @ ss). in_range 16 s" "length as < 255" "5 \<le> shorts 16 (as @ [x])"
    "5 \<le> longs 16 (as @ [x])" "shorts 16 as < 5 \<or> longs 16 as < 5"
    "map (pulse_of 16) ss = pre @ (h, True) # manchester_pulses h bs"
    "\<forall>p \<in> set pre. \<not> snd p" "alternating l pre" "5 \<le> k" "k < 64" "h = em4100_frame c t ! k"
    "bs = drop (Suc k) (em4100_frame c t) @ concat (replicate n (em4100_frame c t))"
    using assms(3) unfolding tag_samples_def by (elim exE conjE) (rule that)
  then show ?thesis using reads_frames [OF assms(1,2)] by simp
qed

section \<open>Properties\<close>

text \<open>
  C9. Reading a tag, end to end: the samples of a tag at RF/16 with Manchester coding. Pulses of
  the two proper lengths let the carrier decoder synchronise; then come short pulses (in
  whatever phase), the long pulse at bit \<open>k\<close> of a running frame (after the first five bits of
  its preamble), the rest of that frame and \<open>n\<close> complete frames. The Manchester branch prints
  the tag's customer id and token exactly \<open>n\<close> times, all reports carry divider 16, and no
  decoder fails.
\<close>
theorem read_tag:
  assumes em: "length (em_data m) = 6" "length (em_data b) = 6"
    and good: "\<forall>s \<in> set (as @ [x] @ ss). in_range 16 s" "length as < 255"
      "5 \<le> shorts 16 (as @ [x])" "5 \<le> longs 16 (as @ [x])" "shorts 16 as < 5 \<or> longs 16 as < 5"
    and ss: "map (pulse_of 16) ss = pre @ (h, True) # manchester_pulses h bs"
    and pre: "\<forall>p \<in> set pre. \<not> snd p" "alternating l pre"
    and k: "5 \<le> k" "k < 64" and h: "h = em4100_frame c t ! k"
    and bs: "bs = drop (Suc k) (em4100_frame c t) @ concat (replicate n (em4100_frame c t))"
  shows "\<exists>r' reps. read_samples (reader_init c0 m b) (as @ [x] @ ss) = Some (r', reps) \<and>
     tokens_of Manchester reps = replicate n (token c t) \<and> (\<forall>rep \<in> set reps. fst rep = 16)"
  using assms by (rule reads_frames)


lemma em4100_frame_stop: "em4100_frame c t ! 63 = False"
proof -
  have "em4100_frame c t = (replicate 9 True @ concat (map frame_row (frame_nibbles c t)) @
      column_parity (frame_nibbles c t)) @ [False]"
    by (simp add: em4100_frame_def Let_def)
  then show ?thesis by (simp only:) (simp add: nth_append)
qed

definition sample_of :: "bool \<times> bool \<Rightarrow> sample" where
  "sample_of p = \<lparr>getLengthUs = (if snd p then 128 else 64), isHigh = fst p\<rparr>"

lemma pulse_of_sample_of: "pulse_of 16 (sample_of p) = p"
  by (cases p) (simp add: pulse_of_def sample_of_def long_for_def)

theorem read_tag_witness:
  "\<exists>r' reps. read_samples (reader_init undefined em_uninit em_uninit)
       ((replicate 5 (us 64) @ replicate 4 (us 128)) @ [us 128] @
        map sample_of ([(True, False)] @ (False, True) #
          manchester_pulses False (drop (Suc 63) (em4100_frame 7 42) @ concat (replicate 2 (em4100_frame 7 42))))) =
      Some (r', reps) \<and>
     tokens_of Manchester reps = replicate 2 (token 7 42) \<and> (\<forall>rep \<in> set reps. fst rep = 16)"
proof (rule read_tag)
  show "map (pulse_of 16) (map sample_of ([(True, False)] @ (False, True) # manchester_pulses False
      (drop (Suc 63) (em4100_frame 7 42) @ concat (replicate 2 (em4100_frame 7 42))))) =
    [(True, False)] @ (False, True) # manchester_pulses False
      (drop (Suc 63) (em4100_frame 7 42) @ concat (replicate 2 (em4100_frame 7 42)))"
    by (simp only: map_map comp_def pulse_of_sample_of map_ident)
  show "alternating True [(True, False)]" by simp
  show "False = em4100_frame 7 42 ! 63" by (simp only: em4100_frame_stop)
  have "in_range 16 (sample_of p)" for p by (simp add: in_range_def short_for_def long_for_def sample_of_def)
  moreover have "in_range 16 (us 64)" "in_range 16 (us 128)"
    by (simp_all add: in_range_def short_for_def long_for_def us_def)
  ultimately show "\<forall>s \<in> set ((replicate 5 (us 64) @ replicate 4 (us 128)) @ [us 128] @
        map sample_of ([(True, False)] @ (False, True) #
          manchester_pulses False (drop (Suc 63) (em4100_frame 7 42) @ concat (replicate 2 (em4100_frame 7 42))))).
      in_range 16 s" by auto
qed (auto simp: em_uninit_def shorts_def longs_def short_for_def long_for_def us_def)

text \<open>
  C27. Reading never fails: on any samples, in any order and of any length, no decoder of the two
  branches accesses memory outside its arrays, and everything printed names one of the three
  dividers.
\<close>
theorem reading_safe:
  assumes "length (em_data m) = 6" and "length (em_data b) = 6"
  shows "\<exists>r' reps. read_samples (reader_init c m b) ss = Some (r', reps) \<and>
     (\<forall>rep \<in> set reps. fst rep \<in> {16, 32, 64})"
proof -
  have "carrierDivider (fst (checkPulses (carrier_reset c) q)) \<in> {16, 32, 64}" for q
    by (rule carrier_ok_divider [OF carrier_ok_checkPulses [OF carrier_ok_reset]])
  then show ?thesis
    using read_samples_eq [OF reader_ok_init [OF assms], of c ss] by (fastforce simp: reader_init_def)
qed

theorem reading_safe_witness:
  "\<exists>r' reps. read_samples (reader_init undefined em_uninit em_uninit) (replicate 99 (us 1)) = Some (r', reps) \<and>
     (\<forall>rep \<in> set reps. fst rep \<in> {16, 32, 64})"
  by (rule reading_safe) (simp_all add: em_uninit_def)

end
