(* ===== verification/T5557_Encoder.thy ===== *)
theory T5557_Encoder
  imports Data_Utils Carrier_Decoder
begin

unbundle bit_operations_syntax

text \<open>
  The writer for T5557/ATA5577 tags (\<open>rfid-tool/src/rfid/T5557Encoder.cpp\<close>,
  \<open>inc/rfid/T5557Encoder.hpp\<close>): a command is sent by switching the field off for gaps of fixed
  length; the time between two gaps tells a bit. The abstract view is the list of bits of a
  command, and a decoder with the limits of the tag's data sheet.
\<close>

section \<open>Constants and parameters\<close>

definition CARRIER_US :: int where "CARRIER_US = 8"

definition SL_FIXED_DATA_ONE :: int where "SL_FIXED_DATA_ONE = CARRIER_US * ((48 + 63) div 2)"
definition SL_FIXED_DATA_ZERO :: int where "SL_FIXED_DATA_ZERO = CARRIER_US * ((16 + 31) div 2)"
definition SL_FIXED_WRITE_GAP :: int where "SL_FIXED_WRITE_GAP = CARRIER_US * ((8 + 30) div 2)"
definition SL_FIXED_START_GAP :: int where "SL_FIXED_START_GAP = CARRIER_US * ((10 + 50) div 2)"

datatype DataRate =
    DATA_RATE_8 | DATA_RATE_16 | DATA_RATE_32 | DATA_RATE_40 | DATA_RATE_50 | DATA_RATE_64
  | DATA_RATE_100 | DATA_RATE_128

datatype Modulation =
    MODULATION_DIRECT | MODULATION_PSK1 | MODULATION_PSK2 | MODULATION_PSK3 | MODULATION_FSK1
  | MODULATION_FSK2 | MODULATION_FSK1a | MODULATION_FSK2a | MODULATION_MANCHESTER | MODULATION_BIPHASE

datatype PskSubcarrier = PSK_SUBCARRIER_RF_2 | PSK_SUBCARRIER_RF_4 | PSK_SUBCARRIER_RF_8

record Parameters =
  p_lock :: bool
  p_masterKey :: u8
  p_dataRate :: DataRate
  p_modulation :: Modulation
  p_pskSubcarrier :: PskSubcarrier
  p_answerOnRequest :: bool
  p_maxBlock :: u8
  p_password :: bool
  p_sequenceTerminator :: bool
  p_powerOnResetDelay :: bool

definition Parameters_init :: Parameters where
  "Parameters_init =
     \<lparr>p_lock = False, p_masterKey = 0, p_dataRate = DATA_RATE_16, p_modulation = MODULATION_MANCHESTER,
      p_pskSubcarrier = PSK_SUBCARRIER_RF_2, p_answerOnRequest = True, p_maxBlock = 0,
      p_password = False, p_sequenceTerminator = False, p_powerOnResetDelay = False\<rparr>"

section \<open>TransferData\<close>

text \<open>The class has one protocol; its state is the vector of samples it appends to.\<close>

definition addPulse :: "sample list \<Rightarrow> bool \<Rightarrow> int \<Rightarrow> sample list" where
  "addPulse samples high len = samples @ [\<lparr>getLengthUs = len, isHigh = high\<rparr>]"

definition TransferData :: "sample list \<Rightarrow> sample list" where
  "TransferData samples = addPulse samples False SL_FIXED_START_GAP"

definition addBit :: "sample list \<Rightarrow> bool \<Rightarrow> sample list" where
  "addBit samples b =
     addPulse (addPulse samples True (if b then SL_FIXED_DATA_ONE else SL_FIXED_DATA_ZERO)) False SL_FIXED_WRITE_GAP"

text \<open>The loops, with \<open>n\<close> rounds to go.\<close>

fun addBitsLsb_loop :: "sample list \<Rightarrow> u32 \<Rightarrow> nat \<Rightarrow> nat \<Rightarrow> sample list" where
  "addBitsLsb_loop samples w i 0 = samples"
| "addBitsLsb_loop samples w i (Suc n) =
     addBitsLsb_loop (addBit samples (w AND push_bit i 1 \<noteq> 0)) w (Suc i) n"

definition addBitsLsb :: "sample list \<Rightarrow> u32 \<Rightarrow> u8 \<Rightarrow> sample list" where
  "addBitsLsb samples w bitsToTransfer = addBitsLsb_loop samples w 0 (unat bitsToTransfer)"

fun addBitsMsb_loop :: "sample list \<Rightarrow> u32 \<Rightarrow> nat \<Rightarrow> sample list" where
  "addBitsMsb_loop samples w 0 = samples"
| "addBitsMsb_loop samples w (Suc i) = addBitsMsb_loop (addBit samples (w AND push_bit i 1 \<noteq> 0)) w i"

definition addBitsMsb :: "sample list \<Rightarrow> u32 \<Rightarrow> u8 \<Rightarrow> sample list" where
  "addBitsMsb samples w bitsToTransfer = addBitsMsb_loop samples w (unat bitsToTransfer)"

section \<open>Commands\<close>

definition encodeBlock :: "u8 \<Rightarrow> u8 \<Rightarrow> bool \<Rightarrow> bool \<Rightarrow> u32 \<Rightarrow> u32 \<Rightarrow> sample list \<Rightarrow> sample list" where
  "encodeBlock page block lock passwordSend password data samples =
     (let s = TransferData samples;
          s = addBitsLsb s (1 OR push_bit 1 (ucast page AND 1)) 2;
          s = (if passwordSend then addBitsMsb s password 32 else s);
          s = addBit s lock;
          s = addBitsLsb s data 32
      in addBitsMsb s (ucast block) 3)"

fun dataRateValue :: "DataRate \<Rightarrow> u16" where
  "dataRateValue DATA_RATE_8 = 0"
| "dataRateValue DATA_RATE_16 = 1"
| "dataRateValue DATA_RATE_32 = 2"
| "dataRateValue DATA_RATE_40 = 3"
| "dataRateValue DATA_RATE_50 = 4"
| "dataRateValue DATA_RATE_64 = 5"
| "dataRateValue DATA_RATE_100 = 6"
| "dataRateValue DATA_RATE_128 = 7"

fun modulationValue :: "Modulation \<Rightarrow> u16" where
  "modulationValue MODULATION_DIRECT = 0"
| "modulationValue MODULATION_PSK1 = 1"
| "modulationValue MODULATION_PSK2 = 2"
| "modulationValue MODULATION_PSK3 = 3"
| "modulationValue MODULATION_FSK1 = 4"
| "modulationValue MODULATION_FSK2 = 5"
| "modulationValue MODULATION_FSK1a = 6"
| "modulationValue MODULATION_FSK2a = 7"
| "modulationValue MODULATION_MANCHESTER = 8"
| "modulationValue MODULATION_BIPHASE = 24"

fun pskSubValue :: "PskSubcarrier \<Rightarrow> u16" where
  "pskSubValue PSK_SUBCARRIER_RF_2 = 0"
| "pskSubValue PSK_SUBCARRIER_RF_4 = 1"
| "pskSubValue PSK_SUBCARRIER_RF_8 = 2"

text \<open>\<open>bitOffset += putBits(...)\<close> on the locals \<open>data\<close> and \<open>bitOffset\<close>.\<close>

definition put_field :: "u16 \<Rightarrow> u8 \<Rightarrow> u32 list \<times> u8 \<Rightarrow> (u32 list \<times> u8) option" where
  "put_field bits n s = do { (data, w) \<leftarrow> putBitsMsb (fst s) (snd s) bits n; Some (data, snd s + w) }"

definition put_flag :: "bool \<Rightarrow> u32 list \<times> u8 \<Rightarrow> (u32 list \<times> u8) option" where
  "put_flag b s = do { (data, w) \<leftarrow> putBit (fst s) (snd s) b; Some (data, snd s + w) }"

definition parameters_word :: "Parameters \<Rightarrow> u32 option" where
  "parameters_word p = do {
     s \<leftarrow> put_field (ucast (p_masterKey p)) 4 ([0], 0);
     s \<leftarrow> put_field 0 7 s;
     s \<leftarrow> put_field (dataRateValue (p_dataRate p)) 3 s;
     s \<leftarrow> put_flag False s;
     s \<leftarrow> put_field (modulationValue (p_modulation p)) 5 s;
     s \<leftarrow> put_field (pskSubValue (p_pskSubcarrier p)) 2 s;
     s \<leftarrow> put_flag (p_answerOnRequest p) s;
     s \<leftarrow> put_flag False s;
     s \<leftarrow> put_field (ucast (p_maxBlock p)) 3 s;
     s \<leftarrow> put_flag (p_password p) s;
     s \<leftarrow> put_flag (p_sequenceTerminator p) s;
     s \<leftarrow> put_field 0 2 s;
     s \<leftarrow> put_flag (p_powerOnResetDelay p) s;
     rd (fst s) 0
   }"

definition encodeParameters :: "Parameters \<Rightarrow> bool \<Rightarrow> u32 \<Rightarrow> sample list \<Rightarrow> sample list option" where
  "encodeParameters p passwordSend password samples = do {
     data \<leftarrow> parameters_word p;
     Some (encodeBlock 0 0 (p_lock p) passwordSend password data samples)
   }"

section \<open>The bits of a command\<close>

definition lsb_bits :: "nat \<Rightarrow> 'a::len word \<Rightarrow> bool list" where
  "lsb_bits n w = map (bit w) [0..<n]"

definition msb_bits :: "nat \<Rightarrow> 'a::len word \<Rightarrow> bool list" where
  "msb_bits n w = rev (map (bit w) [0..<n])"

lemma length_lsb_bits [simp]: "length (lsb_bits n w) = n"
  by (simp add: lsb_bits_def)

lemma length_msb_bits [simp]: "length (msb_bits n w) = n"
  by (simp add: msb_bits_def)

definition command_bits :: "u8 \<Rightarrow> u8 \<Rightarrow> bool \<Rightarrow> u32 option \<Rightarrow> u32 \<Rightarrow> bool list" where
  "command_bits page block lock password data =
     [True, bit page 0] @ (case password of None \<Rightarrow> [] | Some p \<Rightarrow> msb_bits 32 p) @
     [lock] @ lsb_bits 32 data @ msb_bits 3 block"

definition bit_pulses :: "bool \<Rightarrow> sample list" where
  "bit_pulses b =
     [\<lparr>getLengthUs = (if b then SL_FIXED_DATA_ONE else SL_FIXED_DATA_ZERO), isHigh = True\<rparr>,
      \<lparr>getLengthUs = SL_FIXED_WRITE_GAP, isHigh = False\<rparr>]"

definition downlink :: "bool list \<Rightarrow> sample list" where
  "downlink bs = \<lparr>getLengthUs = SL_FIXED_START_GAP, isHigh = False\<rparr> # concat (map bit_pulses bs)"

lemma addBit_pulses: "addBit s b = s @ bit_pulses b"
  by (simp add: addBit_def addPulse_def bit_pulses_def)

lemma and_bit: "w AND push_bit i 1 \<noteq> 0 \<longleftrightarrow> bit w i" for w :: "'a::len word"
  by (simp add: bit_iff_and_push_bit_not_eq_0)

lemma addBitsLsb_loop_pulses:
  "addBitsLsb_loop s w i n = s @ concat (map bit_pulses (map (bit w) [i..<i + n]))"
proof (induction n arbitrary: s i)
  case (Suc n)
  have "[i..<i + Suc n] = i # [Suc i..<Suc i + n]" by (simp add: upt_conv_Cons)
  then show ?case unfolding addBitsLsb_loop.simps and_bit Suc.IH by (simp add: addBit_pulses del: upt_Suc)
qed simp

lemma addBitsMsb_loop_pulses: "addBitsMsb_loop s w i = s @ concat (map bit_pulses (msb_bits i w))"
proof (induction i arbitrary: s)
  case (Suc i)
  then show ?case unfolding addBitsMsb_loop.simps and_bit by (simp add: addBit_pulses msb_bits_def)
qed (simp add: msb_bits_def)

lemma addBitsLsb_pulses: "addBitsLsb s w n = s @ concat (map bit_pulses (lsb_bits (unat n) w))"
  by (simp add: addBitsLsb_def addBitsLsb_loop_pulses lsb_bits_def)

lemma addBitsMsb_pulses: "addBitsMsb s w n = s @ concat (map bit_pulses (msb_bits (unat n) w))"
  by (simp add: addBitsMsb_def addBitsMsb_loop_pulses)

lemma opcode_bits: "lsb_bits (unat (2 :: u8)) (1 OR push_bit 1 (ucast page AND 1) :: u32) = [True, bit page 0]"
  for page :: u8
proof -
  have "bit (1 OR push_bit 1 (ucast page AND 1) :: u32) 0"
    "bit (1 OR push_bit 1 (ucast page AND 1) :: u32) 1 \<longleftrightarrow> bit page 0"
    unfolding bit_or_iff bit_push_bit_iff bit_and_iff bit_1_iff bit_ucast_iff by simp_all
  moreover have "[0..<unat (2 :: u8)] = [0, 1]" by (simp add: upt_rec)
  ultimately show ?thesis by (simp only: lsb_bits_def list.map)
qed

lemma msb_bits_ucast: "msb_bits 3 (ucast block :: u32) = msb_bits 3 block" for block :: u8
  by (simp add: msb_bits_def bit_simps)

lemma encodeBlock_downlink:
  "encodeBlock page block lock send password data s =
     s @ downlink (command_bits page block lock (if send then Some password else None) data)"
  unfolding encodeBlock_def Let_def TransferData_def addPulse_def addBitsLsb_pulses addBitsMsb_pulses opcode_bits
  by (simp add: msb_bits_ucast addBit_pulses downlink_def command_bits_def)

section \<open>The tag's side\<close>

text \<open>
  The limits of the data sheet in field clocks of 8 microseconds: a write gap lasts 8 to 30, a
  start gap 10 to 50, a one 48 to 63 and a zero 16 to 31 clocks.
\<close>

definition clocks :: "sample \<Rightarrow> int" where
  "clocks s = getLengthUs s div CARRIER_US"

fun tag_bits :: "sample list \<Rightarrow> bool list option" where
  "tag_bits [] = Some []"
| "tag_bits [_] = None"
| "tag_bits (s # g # ss) =
     (if isHigh s \<and> isLow g \<and> 8 \<le> clocks g \<and> clocks g \<le> 30 then
        (if 48 \<le> clocks s \<and> clocks s \<le> 63 then map_option ((#) True) (tag_bits ss)
         else if 16 \<le> clocks s \<and> clocks s \<le> 31 then map_option ((#) False) (tag_bits ss)
         else None)
      else None)"

fun tag_receive :: "sample list \<Rightarrow> bool list option" where
  "tag_receive [] = None"
| "tag_receive (g # ss) = (if isLow g \<and> 10 \<le> clocks g \<and> clocks g \<le> 50 then tag_bits ss else None)"

lemmas sl_defs = SL_FIXED_DATA_ONE_def SL_FIXED_DATA_ZERO_def SL_FIXED_WRITE_GAP_def SL_FIXED_START_GAP_def
  CARRIER_US_def

lemma tag_bits_pulses: "tag_bits (concat (map bit_pulses bs)) = Some bs"
  by (induction bs) (auto simp: bit_pulses_def clocks_def sl_defs isLow_def)

lemma tag_receive_downlink: "tag_receive (downlink bs) = Some bs"
  by (simp add: downlink_def tag_bits_pulses clocks_def sl_defs isLow_def)

section \<open>The configuration word\<close>

lemma put_field_view:
  assumes "length data = 1" and "unat off + unat n \<le> 32"
  shows "\<exists>data'. put_field bits n (data, off) = Some (data', off + n) \<and> length data' = 1 \<and>
     unat (off + n) = unat off + unat n \<and>
     buf_bit data' = put_seg (buf_bit data) (unat off) (msb_bits (unat n) bits)"
  using putBitsMsb_view [of off n data bits] assms
  by (auto simp: put_field_def msb_bits_def unat_word_ariths)

lemma put_flag_view:
  assumes "length data = 1" and "unat off < 32"
  shows "\<exists>data'. put_flag b (data, off) = Some (data', off + 1) \<and> length data' = 1 \<and>
     unat (off + 1) = unat off + 1 \<and>
     buf_bit data' = put_seg (buf_bit data) (unat off) [b]"
proof -
  obtain data' where "putBit data off b = Some (data', 1)" "length data' = length data"
    "buf_bit data' = (buf_bit data)(unat off := b)"
    using putBit_view [of off data b] assms by auto
  moreover have "unat (off + 1) = unat off + 1" using assms(2) by (simp add: unat_word_ariths)
  moreover have "(buf_bit data)(unat off := b) = put_seg (buf_bit data) (unat off) [b]"
    by (rule ext) (auto simp: put_seg_def)
  ultimately show ?thesis using assms(1) by (simp add: put_flag_def)
qed

text \<open>The fields so far, at the start of the word.\<close>

definition fields_upto :: "bool list \<Rightarrow> u32 list \<times> u8 \<Rightarrow> bool" where
  "fields_upto bs s \<longleftrightarrow> length (fst s) = 1 \<and> unat (snd s) = length bs \<and>
     (\<exists>f. buf_bit (fst s) = put_seg f 0 bs)"

lemma put_field_upto:
  assumes "fields_upto bs s" and "length bs + unat n \<le> 32"
  shows "\<exists>s'. put_field bits n s = Some s' \<and> fields_upto (bs @ msb_bits (unat n) bits) s'"
proof -
  obtain f where f: "length (fst s) = 1" "unat (snd s) = length bs" "buf_bit (fst s) = put_seg f 0 bs"
    using assms(1) by (auto simp: fields_upto_def)
  then show ?thesis
    using put_field_view [of "fst s" "snd s" n bits] assms(2) put_seg_append [of f 0 bs "msb_bits (unat n) bits"]
    by (auto simp: fields_upto_def)
qed

lemma put_flag_upto:
  assumes "fields_upto bs s" and "length bs < 32"
  shows "\<exists>s'. put_flag b s = Some s' \<and> fields_upto (bs @ [b]) s'"
proof -
  obtain f where f: "length (fst s) = 1" "unat (snd s) = length bs" "buf_bit (fst s) = put_seg f 0 bs"
    using assms(1) by (auto simp: fields_upto_def)
  then show ?thesis
    using put_flag_view [of "fst s" "snd s" b] assms(2) put_seg_append [of f 0 bs "[b]"]
    by (auto simp: fields_upto_def)
qed

definition config_bits :: "Parameters \<Rightarrow> bool list" where
  "config_bits p =
     msb_bits 4 (p_masterKey p) @ replicate 7 False @ msb_bits 3 (dataRateValue (p_dataRate p)) @ [False] @
     msb_bits 5 (modulationValue (p_modulation p)) @ msb_bits 2 (pskSubValue (p_pskSubcarrier p)) @
     [p_answerOnRequest p, False] @ msb_bits 3 (p_maxBlock p) @
     [p_password p, p_sequenceTerminator p] @ replicate 2 False @ [p_powerOnResetDelay p]"

lemma length_config_bits [simp]: "length (config_bits p) = 32"
  by (simp add: config_bits_def)

lemma put_field_bind:
  assumes "fields_upto bs s" and "length bs + unat n \<le> 32"
    and "\<And>s'. fields_upto (bs @ msb_bits (unat n) bits) s' \<Longrightarrow> \<exists>w. rest s' = Some w \<and> P w"
  shows "\<exists>w. put_field bits n s \<bind> rest = Some w \<and> P w"
proof -
  obtain s' where "put_field bits n s = Some s'" "fields_upto (bs @ msb_bits (unat n) bits) s'"
    using put_field_upto [OF assms(1,2)] by blast
  then show ?thesis using assms(3) by simp
qed

lemma put_flag_bind:
  assumes "fields_upto bs s" and "length bs < 32"
    and "\<And>s'. fields_upto (bs @ [b]) s' \<Longrightarrow> \<exists>w. rest s' = Some w \<and> P w"
  shows "\<exists>w. put_flag b s \<bind> rest = Some w \<and> P w"
proof -
  obtain s' where "put_flag b s = Some s'" "fields_upto (bs @ [b]) s'"
    using put_flag_upto [OF assms(1,2)] by blast
  then show ?thesis using assms(3) by simp
qed

lemma fields_upto_full:
  assumes "fields_upto bs s" and "length bs = 32" and "bs = cs"
  shows "\<exists>w. rd (fst s) 0 = Some w \<and> lsb_bits 32 w = cs"
proof -
  obtain f where f: "length (fst s) = 1" "buf_bit (fst s) = put_seg f 0 bs"
    using assms(1) by (auto simp: fields_upto_def)
  then obtain w where w: "fst s = [w]" by (cases "fst s") auto
  have "lsb_bits 32 w = map (put_seg f 0 bs) [0..<32]"
    unfolding f(2) [symmetric] w by (simp add: lsb_bits_def buf_bit_def)
  then show ?thesis using assms(2,3) by (simp add: w rd_def map_put_seg)
qed

lemma msb_bits_0 [simp]: "msb_bits n 0 = replicate n False"
  by (induction n) (simp_all add: msb_bits_def)

lemma msb_bits_ucast16: "n \<le> 8 \<Longrightarrow> msb_bits n (ucast x :: u16) = msb_bits n x" for x :: u8
  by (auto simp: msb_bits_def bit_simps)

lemma fields_upto_Nil: "fields_upto [] ([0], 0)"
  by (auto simp: fields_upto_def)

lemma parameters_word_bits: "\<exists>w. parameters_word p = Some w \<and> lsb_bits 32 w = config_bits p"
  unfolding parameters_word_def
  apply (rule put_field_bind, rule fields_upto_Nil, simp)
  apply ((rule put_field_bind put_flag_bind, assumption, simp)+)
  apply (rule fields_upto_full, assumption, simp)
  apply (simp (no_asm) add: config_bits_def msb_bits_ucast16)
  done


section \<open>Properties\<close>

text \<open>
  C14. A block command is understood by the tag: \<open>encodeBlock\<close> appends to the samples a start gap and
  pulses that the tag, with the limits of its data sheet, reads as the opcode \<open>1\<close> and page, the
  password (highest bit first) if one is sent, the lock bit, the data word lowest bit first
  and the three address bits highest first: 38 bits, or 70 with a password.
\<close>
theorem block_command_received:
  "\<exists>ss. encodeBlock page block lock send password data samples = samples @ ss \<and>
     tag_receive ss = Some (command_bits page block lock (if send then Some password else None) data) \<and>
     length ss = (if send then 141 else 77)"
proof -
  have "length (downlink bs) = 1 + 2 * length bs" for bs
    by (induction bs) (simp_all add: downlink_def bit_pulses_def)
  then show ?thesis by (simp add: encodeBlock_downlink tag_receive_downlink command_bits_def)
qed

text \<open>
  C15. Configuration: for all parameters \<open>encodeParameters\<close> sends block 0 of page 0 with a word
  whose 32 bits, in the order they go out, are the fields of the data sheet's block 0 at their
  positions, each highest bit first: master key, data rate, modulation, PSK carrier, answer on
  request, last block, password mode, sequence terminator and power-on delay. The encoding
  never writes outside the word.
\<close>
theorem parameters_received:
  "\<exists>w ss. encodeParameters p send password samples = Some (samples @ ss) \<and>
     lsb_bits 32 w = config_bits p \<and>
     tag_receive ss = Some (command_bits 0 0 (p_lock p) (if send then Some password else None) w)"
  using parameters_word_bits [of p]
  by (auto simp: encodeParameters_def encodeBlock_downlink tag_receive_downlink)

end
