(* ===== verification/Interface_Usb.thy ===== *)
theory Interface_Usb
  imports Protocol Buffers Carrier_Decoder T5557_Encoder "HOL-Library.Signed_Division"
begin

unbundle bit_operations_syntax

text \<open>
  The host's side of the USB connection (\<open>rfid-tool/src/rfid/impl/InterfaceUsbImpl.cpp\<close>,
  \<open>inc/rfid/Interface.hpp\<close>). What libusb does with a control transfer is not part of the
  program: the functions take it as an argument, a record of operations on a state \<open>'w\<close> of the
  device and the bus. An operation of the class returns the new state and either an exception or
  a value; \<open>None\<close> is undefined behaviour (an access outside an array, a division by zero).
\<close>

section \<open>Exceptions, libusb and the interface object\<close>

datatype exception =
    NotConnectedException
  | NotSupportedInterfaceException
  | InvalidResponseException int
  | InvalidStateException
  | TooManyPulsesException

text \<open>
  \<open>ctl_in w command value index size\<close> is \<open>usb_control_msg\<close> with a vendor request to the device,
  direction IN: the new state, the number returned and the buffer afterwards. \<open>ctl_out\<close> is the
  same with direction OUT and the bytes to send. \<open>wait\<close> is \<open>usleep\<close>.
\<close>

record 'w libusb =
  ctl_in :: "'w \<Rightarrow> u8 \<Rightarrow> u16 \<Rightarrow> u16 \<Rightarrow> nat \<Rightarrow> 'w \<times> int \<times> u8 list"
  ctl_out :: "'w \<Rightarrow> u8 \<Rightarrow> u16 \<Rightarrow> u16 \<Rightarrow> u8 list \<Rightarrow> 'w \<times> int"
  wait :: "nat \<Rightarrow> 'w \<Rightarrow> 'w"

record iface =
  handle :: bool    \<comment> \<open>not null\<close>
  version :: "(u8 \<times> u8) option"
  pulsesMax :: u16
  pulseVectorSize :: u16
  pulseBits :: u16
  samplesMax :: u16
  sampleVectorSize :: u16
  sampleBits :: u16

type_synonym ('w, 'a) io = "'w \<Rightarrow> ('w \<times> (exception + 'a)) option"

definition io_return :: "'a \<Rightarrow> ('w, 'a) io" where
  "io_return x = (\<lambda>w. Some (w, Inr x))"

definition io_throw :: "exception \<Rightarrow> ('w, 'a) io" where
  "io_throw e = (\<lambda>w. Some (w, Inl e))"

definition io_bind :: "('w, 'a) io \<Rightarrow> ('a \<Rightarrow> ('w, 'b) io) \<Rightarrow> ('w, 'b) io" where
  "io_bind m f = (\<lambda>w. case m w of
       None \<Rightarrow> None
     | Some (w', Inl e) \<Rightarrow> Some (w', Inl e)
     | Some (w', Inr x) \<Rightarrow> f x w')"

text \<open>A memory access of the program itself.\<close>

definition io_try :: "'a option \<Rightarrow> ('w, 'a) io" where
  "io_try x = (\<lambda>w. map_option (\<lambda>x. (w, Inr x)) x)"

section \<open>Transfers\<close>

definition isSupported :: "u8 \<times> u8 \<Rightarrow> bool" where
  "isSupported v \<longleftrightarrow> fst v = 0 \<and> snd v = 1"

definition checkConnection :: "iface \<Rightarrow> ('w, unit) io" where
  "checkConnection d =
     (if \<not> handle d then io_throw NotConnectedException
      else case version d of
          Some v \<Rightarrow> if \<not> isSupported v then io_throw NotSupportedInterfaceException else io_return ()
        | None \<Rightarrow> io_return ())"

definition checkResponse :: "u8 list \<Rightarrow> int \<Rightarrow> int \<Rightarrow> bool \<Rightarrow> ('w, unit) io" where
  "checkResponse buffer bufferSize returned checkRc =
     (if bufferSize \<noteq> returned then io_throw (InvalidResponseException returned)
      else if bufferSize > 0 \<and> checkRc then
        io_bind (io_try (rd buffer 0)) (\<lambda>rc.
          if rc \<noteq> PROTO_RC_OK then io_throw (InvalidResponseException (uint rc)) else io_return ())
      else io_return ())"

text \<open>The bytes copied to the caller's buffer are the result.\<close>

definition doTransferRx :: "'w libusb \<Rightarrow> iface \<Rightarrow> u16 \<Rightarrow> u16 \<Rightarrow> u16 \<Rightarrow> u8 \<Rightarrow> bool \<Rightarrow> ('w, u8 list) io" where
  "doTransferRx usb d bufferSize index value command checkRc =
     io_bind (checkConnection d) (\<lambda>_.
     let transferSize = (if checkRc then bufferSize + 1 else bufferSize);
         src = (if checkRc then 1 else 0)
     in io_bind (\<lambda>w. let (w, returned, bytes) = ctl_in usb w command value index (unat transferSize)
                     in Some (w, Inr (returned, take (unat transferSize) bytes)))
       (\<lambda>(returned, transferBuffer).
     io_bind (checkResponse transferBuffer (uint transferSize) returned checkRc) (\<lambda>_.
     if bufferSize \<noteq> 0
     then io_try (if src + unat bufferSize \<le> length transferBuffer
                  then Some (take (unat bufferSize) (drop src transferBuffer)) else None)
     else io_return [])))"

definition doTransferTx :: "'w libusb \<Rightarrow> iface \<Rightarrow> u8 list \<Rightarrow> u16 \<Rightarrow> u16 \<Rightarrow> u16 \<Rightarrow> u8 \<Rightarrow> ('w, unit) io" where
  "doTransferTx usb d buffer bufferSize index value command =
     io_bind (checkConnection d) (\<lambda>_.
     io_bind (\<lambda>w. let (w, returned) = ctl_out usb w command value index (take (unat bufferSize) buffer)
                  in Some (w, Inr returned))
       (\<lambda>returned. checkResponse [] (uint bufferSize) returned False))"

section \<open>Constructor\<close>

text \<open>
  A device on the bus as the constructor sees it: its descriptor, whether the \<open>n\<close>-th attempt to
  open it succeeds, and what the two ways of reading its product string return (the number and
  the buffer).
\<close>

record bus_device =
  idVendor :: u16
  idProduct :: u16
  iProduct :: u8
  usb_open :: "nat \<Rightarrow> bool"
  string_simple :: "int \<times> string"
  string_msg :: "int \<times> u8 list"

definition DEV_USB_VID :: u16 where "DEV_USB_VID = 0x16c0"
definition DEV_USB_PID :: u16 where "DEV_USB_PID = 0x05dc"
definition DEV_USB_PROD :: string where "DEV_USB_PROD = ''rfid-tool''"

text \<open>
  \<open>usbGetStringAscii\<close> with the buffer it leaves, up to its terminating zero. In the second way the
  loop that copies characters runs to \<open>rval\<close>, which is zero, so the buffer gets the empty string.
\<close>

definition usbGetStringAscii :: "bus_device \<Rightarrow> string \<Rightarrow> (int \<times> string) option" where
  "usbGetStringAscii dev buf =
     (if fst (string_simple dev) \<ge> 0 then Some (string_simple dev)
      else
        (let ret = fst (string_msg dev); buffer = snd (string_msg dev)
         in if ret < 0 then Some (ret, buf)
            else do {
              b1 \<leftarrow> rd buffer 1;
              if b1 \<noteq> 3 then Some (0, [])
              else do {
                b0 \<leftarrow> rd buffer 0;
                let ret = (if uint b0 < ret then uint b0 else ret) div 2;
                Some (ret, [])
              }
            }))"

definition is_ours :: "bus_device \<Rightarrow> bool option" where
  "is_ours dev =
     (if iProduct dev > 0 then do {
        (ret, iProductBuffer) \<leftarrow> usbGetStringAscii dev [];
        Some (ret \<ge> 0 \<and> iProductBuffer = DEV_USB_PROD)
      } else Some False)"

text \<open>
  The walk over the devices of a bus; \<open>k\<close> counts the attempts to open the current one. When an
  attempt fails the code continues without going to the next device.
\<close>

partial_function (option) find_on_bus :: "nat \<Rightarrow> bus_device list \<Rightarrow> bool option" where
  "find_on_bus k devs =
     (case devs of
        [] \<Rightarrow> Some False
      | dev # rest \<Rightarrow>
          if idVendor dev = DEV_USB_VID \<and> idProduct dev = DEV_USB_PID then
            if \<not> usb_open dev k then find_on_bus (Suc k) devs
            else Option.bind (is_ours dev) (\<lambda>ours. if ours then Some True else find_on_bus 0 rest)
          else find_on_bus 0 rest)"

fun find_device :: "bus_device list list \<Rightarrow> bool option" where
  "find_device [] = Some False"
| "find_device (bus # busses) = do {
     found \<leftarrow> find_on_bus 0 bus;
     if found then Some True else find_device busses
   }"

definition iface_zero :: iface where
  "iface_zero = \<lparr>handle = False, version = None, pulsesMax = 0, pulseVectorSize = 0, pulseBits = 0,
     samplesMax = 0, sampleVectorSize = 0, sampleBits = 0\<rparr>"

text \<open>The second half of the constructor, when a device was found.\<close>

definition handshake :: "'w libusb \<Rightarrow> iface \<Rightarrow> ('w, iface) io" where
  "handshake usb d =
     io_bind (doTransferRx usb d 2 0 0 PROTO_CMD_GET_VERSION True) (\<lambda>response.
     io_bind (io_try (rd response 0)) (\<lambda>r0.
     io_bind (io_try (rd response 1)) (\<lambda>r1.
     let d = d\<lparr>version := Some (r0, r1)\<rparr> in
     io_bind (doTransferRx usb d 6 0 0 PROTO_CMD_GET_BUFFER_SIZE True) (\<lambda>response.
     io_try (do {
       r0 \<leftarrow> rd response 0; r1 \<leftarrow> rd response 1; r2 \<leftarrow> rd response 2;
       r3 \<leftarrow> rd response 3; r4 \<leftarrow> rd response 4; r5 \<leftarrow> rd response 5;
       let pbits = (ucast r0 :: u16);
       let sbits = (ucast r1 :: u16);
       let psize = (push_bit 8 (ucast r4) OR ucast r5 :: u16);
       let ssize = (push_bit 8 (ucast r2) OR ucast r3 :: u16);
       if pbits = 0 \<or> sbits = 0 then None
       else Some (d\<lparr>pulseBits := pbits, sampleBits := sbits, pulseVectorSize := psize, sampleVectorSize := ssize,
                    pulsesMax := of_nat (unat psize * 8 div unat pbits),
                    samplesMax := of_nat (unat ssize * 8 div unat sbits)\<rparr>)
     })))))"

definition InterfaceUsbImpl :: "'w libusb \<Rightarrow> bus_device list list \<Rightarrow> ('w, iface) io" where
  "InterfaceUsbImpl usb busses =
     io_bind (io_try (find_device busses)) (\<lambda>found.
       if found then handshake usb (iface_zero\<lparr>handle := True\<rparr>) else io_return iface_zero)"

definition isConnected :: "iface \<Rightarrow> bool" where
  "isConnected d = handle d"

definition iface_reset :: "'w libusb \<Rightarrow> iface \<Rightarrow> ('w, unit) io" where
  "iface_reset usb d = doTransferTx usb d [] 0 0 0 PROTO_CMD_RESET"

definition getVersion :: "iface \<Rightarrow> ('w, (u8 \<times> u8) option) io" where
  "getVersion d = io_bind (checkConnection d) (\<lambda>_. io_return (version d))"


section \<open>Receiving samples\<close>

text \<open>Starting a transfer and waiting for it, as \<open>getSamples\<close> and \<open>putSamples\<close> both do.\<close>

definition run_transfer :: "'w libusb \<Rightarrow> iface \<Rightarrow> u16 \<Rightarrow> u16 \<Rightarrow> ('w, unit) io" where
  "run_transfer usb d index value =
     io_bind (doTransferRx usb d 1 index value PROTO_CMD_TRANSFER_START True) (\<lambda>response.
     io_bind (io_try (rd response 0)) (\<lambda>transferId.
     io_bind (\<lambda>w. Some (wait usb (500 * 1000) w, Inr ())) (\<lambda>_.
     io_bind (doTransferRx usb d 3 (ucast transferId) 0 PROTO_CMD_TRANSFER_STATUS True) (\<lambda>response.
     io_bind (io_try (rd response 0)) (\<lambda>status.
     if status \<noteq> PROTO_TRANSFER_STATUS_OK then io_throw InvalidStateException else io_return ())))))"

definition prescaler :: int where "prescaler = 8"

text \<open>The loops over the bits, on the locals \<open>currentState\<close>, \<open>currentStateLength\<close> and \<open>ret\<close>.\<close>

definition get_bit :: "int \<times> int \<times> sample list \<Rightarrow> bool \<Rightarrow> int \<times> int \<times> sample list" where
  "get_bit s b =
     (let (currentState, currentStateLength, ret) = s;
          lastState = currentState;
          currentState = of_bool b
      in if currentState \<noteq> lastState then
           (if lastState \<noteq> -1
            then (currentState, 1,
                  ret @ [\<lparr>getLengthUs = currentStateLength * CARRIER_US * prescaler, isHigh = (lastState = 0)\<rparr>])
            else (currentState, currentStateLength, ret))
         else (currentState, currentStateLength + 1, ret))"

definition get_byte :: "u8 \<Rightarrow> int \<times> int \<times> sample list \<Rightarrow> int \<times> int \<times> sample list" where
  "get_byte x s = foldl (\<lambda>s j. get_bit s (x AND push_bit j 1 \<noteq> 0)) s [0..<8]"

definition decode_samples :: "u8 list \<Rightarrow> sample list" where
  "decode_samples samplesBuffer = snd (snd (fold get_byte samplesBuffer (-1, 0, [])))"

definition getSamples :: "'w libusb \<Rightarrow> iface \<Rightarrow> ('w, sample list) io" where
  "getSamples usb d =
     io_bind (run_transfer usb d
       (PROTO_TRANSFER_FLAG_FIRST_ON_START OR PROTO_TRANSFER_FLAG_START_ON_EDGE OR
        PROTO_TRANSFER_FLAG_FALLING_EDGE OR of_int prescaler) 60000) (\<lambda>_.
     io_bind (doTransferRx usb d (sampleVectorSize d) 0 0 PROTO_CMD_PULSE_VECTOR_READ False) (\<lambda>samplesBuffer.
     io_return (decode_samples samplesBuffer)))"

section \<open>Sending samples\<close>

text \<open>The set \<open>pulses\<close>, which a \<open>std::set\<close> of integers enumerates in ascending order.\<close>

definition pulse_set :: "sample list \<Rightarrow> int list" where
  "pulse_set samples = sort (remdups (map (\<lambda>s. getLengthUs s sdiv CARRIER_US) samples))"

definition position :: "int list \<Rightarrow> int \<Rightarrow> nat" where
  "position pulses x = length (takeWhile (\<lambda>p. p \<noteq> x) pulses)"

fun put_pulses :: "u8 list \<Rightarrow> u8 \<Rightarrow> int list \<Rightarrow> u8 list option" where
  "put_pulses buffer bufferWritten [] = Some buffer"
| "put_pulses buffer bufferWritten (p # ps) = do {
     buffer \<leftarrow> wr buffer (unat bufferWritten) (of_int p);
     put_pulses buffer (bufferWritten + 1) ps
   }"

definition sample_value :: "int list \<Rightarrow> sample \<Rightarrow> u8" where
  "sample_value pulses s =
     (if isLow s then 0 else 0x08) OR of_nat (position pulses (getLengthUs s sdiv CARRIER_US))"

fun put_values :: "int list \<Rightarrow> u8 list \<Rightarrow> u16 \<Rightarrow> sample list \<Rightarrow> u8 list option" where
  "put_values pulses buffer written [] = Some buffer"
| "put_values pulses buffer written (s # ss) = do {
     let value = sample_value pulses s;
     let i = unat (drop_bit 1 written);
     old \<leftarrow> rd buffer i;
     buffer \<leftarrow> wr buffer i (if written AND 1 \<noteq> 0 then old OR push_bit 4 value else value);
     put_values pulses buffer (written + 1) ss
   }"

definition putSamples :: "'w libusb \<Rightarrow> iface \<Rightarrow> sample list \<Rightarrow> ('w, unit) io" where
  "putSamples usb d samples =
     (let pulses = pulse_set samples in
      if length pulses > unat (pulseVectorSize d) then io_throw TooManyPulsesException
      else
        io_bind (io_try (put_pulses (replicate (unat (pulseVectorSize d)) 0) 0 pulses)) (\<lambda>buffer.
        io_bind (doTransferTx usb d buffer (pulseVectorSize d) 0 0 PROTO_CMD_SAMPLE_VECTOR_WRITE) (\<lambda>_.
        io_bind (io_try (put_values pulses (replicate (unat (sampleVectorSize d)) 0xff) 0 samples)) (\<lambda>buffer.
        io_bind (doTransferTx usb d buffer (sampleVectorSize d) 0 0 PROTO_CMD_PULSE_VECTOR_WRITE) (\<lambda>_.
        run_transfer usb d
          (PROTO_TRANSFER_FLAG_TX_MODE OR PROTO_TRANSFER_FLAG_START_ON_EDGE OR
           PROTO_TRANSFER_FLAG_FALLING_EDGE OR PROTO_TRANSFER_FLAG_FIRST_ON_START OR 8)
          (of_int (60000 * CARRIER_US)))))))"

section \<open>The decoded samples are the runs of the bits\<close>

text \<open>
  The samples as levels of one bit each; \<open>bit\<close> 1 is a low sample. One bit lasts 64 microseconds.
\<close>

definition expand :: "sample list \<Rightarrow> bool list" where
  "expand ss = concat (map (\<lambda>s. replicate (nat (getLengthUs s div 64)) (\<not> isHigh s)) ss)"

lemma get_bytes_bits:
  "fold get_byte buf s = foldl get_bit s (bits_of_bytes buf)"
proof (induction buf arbitrary: s)
  case (Cons x buf)
  have "get_byte x s = foldl get_bit s (map (bit x) [0..<8])"
    unfolding get_byte_def and_bit by (simp add: foldl_map)
  then show ?case using Cons.IH by (simp add: bits_of_bytes_Cons)
qed simp


text \<open>The state of the loops after a first bit and the bits \<open>bs\<close>.\<close>

definition runs_upto :: "bool list \<Rightarrow> int \<times> int \<times> sample list \<Rightarrow> bool" where
  "runs_upto bs s \<longleftrightarrow> (case s of (cur, len, ret) \<Rightarrow>
     (cur = 0 \<or> cur = 1) \<and> 0 \<le> len \<and> expand ret @ replicate (nat len) (cur = 1) = bs \<and>
     (\<forall>s \<in> set ret. 0 \<le> getLengthUs s \<and> getLengthUs s mod 64 = 0) \<and>
     (\<forall>s \<in> set (tl ret). 64 \<le> getLengthUs s) \<and>
     (\<forall>i. Suc i < length ret \<longrightarrow> isHigh (ret ! Suc i) = (\<not> isHigh (ret ! i))) \<and>
     (ret \<noteq> [] \<longrightarrow> isHigh (last ret) = (cur = 1) \<and> 1 \<le> len))"

lemma expand_snoc: "expand (ss @ [s]) = expand ss @ replicate (nat (getLengthUs s div 64)) (\<not> isHigh s)"
  by (simp add: expand_def)

lemma bit_time: "x * CARRIER_US * prescaler = x * 64"
  by (simp add: CARRIER_US_def prescaler_def)

lemma runs_upto_bit:
  assumes "runs_upto bs s"
  shows "runs_upto (bs @ [b]) (get_bit s b)"
proof -
  obtain cur len ret where s: "s = (cur, len, ret)" by (cases s)
  note r = assms [unfolded runs_upto_def s prod.case]
  have cur: "cur \<noteq> -1" using r by auto
  show ?thesis
  proof (cases "of_bool b = cur")
    case True
    then have "nat (len + 1) = Suc (nat len)" "(cur = 1) = b" using r by auto
    then have "expand ret @ replicate (nat (len + 1)) (cur = 1) = bs @ [b]"
      using r by (simp flip: replicate_append_same)
    then show ?thesis using True r by (auto simp: s get_bit_def runs_upto_def Let_def)
  next
    case False
    let ?s = "\<lparr>getLengthUs = len * CARRIER_US * prescaler, isHigh = (cur = 0)\<rparr>"
    have len: "getLengthUs ?s = len * 64" by (simp add: bit_time)
    have g: "get_bit s b = (of_bool b, 1, ret @ [?s])"
      using False cur by (auto simp: s get_bit_def Let_def)
    have alt: "isHigh ((ret @ [?s]) ! Suc i) = (\<not> isHigh ((ret @ [?s]) ! i))" if "Suc i < length (ret @ [?s])" for i
    proof (cases "Suc i < length ret")
      case True
      then show ?thesis using r by (simp add: nth_append)
    next
      case False
      then have i: "Suc i = length ret" "ret \<noteq> []" using that by auto
      then have "ret ! i = last ret" by (simp add: last_conv_nth flip: i(1))
      then show ?thesis using r i by (auto simp: nth_append)
    qed
    have "bs = expand (ret @ [?s])"
    proof -
      have "(cur = 1) = (\<not> isHigh ?s)" using r by auto
      then show ?thesis using r unfolding expand_snoc len by simp
    qed
    moreover have "isHigh ?s = b" "b = (of_bool b = (1 :: int))" using False r by (auto split: if_splits)
    moreover have "\<forall>s \<in> set (tl (ret @ [?s])). 64 \<le> getLengthUs s"
      using r by (cases ret) (auto simp: bit_time)
    moreover have "0 \<le> getLengthUs ?s \<and> getLengthUs ?s mod 64 = 0" using r by (simp add: bit_time)
    ultimately show ?thesis using alt r by (auto simp: g runs_upto_def bit_time)
  qed
qed

lemma runs_upto_bits: "runs_upto as s \<Longrightarrow> runs_upto (as @ bs) (foldl get_bit s bs)"
proof (induction bs arbitrary: as s)
  case (Cons b bs)
  then show ?case using Cons.IH [OF runs_upto_bit [OF Cons.prems, of b]] by simp
qed simp

lemma decode_samples_runs:
  assumes "buf \<noteq> []"
  shows "\<exists>n b. expand (decode_samples buf) @ replicate n b = tl (bits_of_bytes buf) \<and>
     (\<forall>s \<in> set (decode_samples buf). 0 \<le> getLengthUs s \<and> getLengthUs s mod 64 = 0) \<and>
     (\<forall>s \<in> set (tl (decode_samples buf)). 64 \<le> getLengthUs s) \<and>
     (\<forall>i. Suc i < length (decode_samples buf) \<longrightarrow>
        isHigh (decode_samples buf ! Suc i) = (\<not> isHigh (decode_samples buf ! i))) \<and>
     (decode_samples buf \<noteq> [] \<longrightarrow> isHigh (last (decode_samples buf)) = b \<and> 1 \<le> n)"
proof -
  obtain b0 bs where b: "bits_of_bytes buf = b0 # bs"
    using assms by (cases buf; cases "bits_of_bytes buf") (simp_all add: bits_of_bytes_Cons)
  have g: "get_bit (-1, 0, []) b0 = (of_bool b0, 0, [])" by (cases b0) (simp_all add: get_bit_def)
  have "runs_upto [] (of_bool b0, 0, [])" by (simp add: runs_upto_def expand_def)
  then have r: "runs_upto bs (fold get_byte buf (-1, 0, []))"
    using runs_upto_bits [of "[]" _ bs] by (simp add: get_bytes_bits b g)
  obtain cur len where f: "fold get_byte buf (-1, 0, []) = (cur, len, decode_samples buf)"
    by (cases "fold get_byte buf (-1, 0, [])") (auto simp: decode_samples_def)
  show ?thesis
    using r unfolding f runs_upto_def prod.case
    by (intro exI [of _ "nat len"] exI [of _ "cur = 1"]) (auto simp: b)
qed

text \<open>Conversely, a buffer with given runs is decoded to them.\<close>

lemma get_bit_run:
  assumes "cur = 0 \<or> cur = 1"
  shows "foldl get_bit (cur, len, ret) (replicate n (cur = 1)) = (cur, len + int n, ret)"
  using assms by (induction n arbitrary: len) (auto simp: get_bit_def)

fun proper_runs :: "bool \<Rightarrow> sample list \<Rightarrow> bool" where
  "proper_runs h [] \<longleftrightarrow> True"
| "proper_runs h (s # ss) \<longleftrightarrow> isHigh s = h \<and> getLengthUs s mod 64 = 0 \<and> 64 \<le> getLengthUs s \<and> proper_runs (\<not> h) ss"

lemma get_bit_change: "get_bit (of_bool (\<not> h), len, ret) h = (of_bool h, 1, ret @ [\<lparr>getLengthUs = len * 64, isHigh = h\<rparr>])"
  by (cases h) (simp_all add: get_bit_def CARRIER_US_def prescaler_def)

lemma get_bits_runs:
  assumes "proper_runs (\<not> h) ss" and "last_bit = (if even (length ss) then h else \<not> h)"
  shows "foldl get_bit (of_bool (\<not> h), len, ret) (expand ss @ [last_bit]) =
     (of_bool last_bit, 1, ret @ \<lparr>getLengthUs = len * 64, isHigh = h\<rparr> # ss)"
  using assms
proof (induction ss arbitrary: h len ret)
  case Nil
  then show ?case by (simp add: expand_def get_bit_change)
next
  case (Cons s ss)
  define n where "n = nat (getLengthUs s div 64)"
  have s: "isHigh s = (\<not> h)" "getLengthUs s = 64 * int n" "0 < n" "proper_runs h ss"
    using Cons.prems(1) by (auto simp: n_def)
  have "expand (s # ss) = replicate n h @ expand ss" by (simp add: expand_def n_def s(1))
  also have "replicate n h = h # replicate (n - 1) h" using s(3) by (cases n) simp_all
  finally have e: "expand (s # ss) @ [last_bit] = h # replicate (n - 1) (of_bool h = (1 :: int)) @ expand ss @ [last_bit]"
    by simp
  have s_eq: "s = \<lparr>getLengthUs = int n * 64, isHigh = (\<not> h)\<rparr>" using s(1,2) by (cases s) simp
  have n: "1 + int (n - 1) = int n" using s(3) by simp
  show ?case
    unfolding e foldl_Cons foldl_append get_bit_change
    using Cons.IH [of "\<not> h" "int n" "ret @ [\<lparr>getLengthUs = len * 64, isHigh = h\<rparr>]"] Cons.prems(2) s(4) n
    by (subst get_bit_run) (auto simp: foldl_append s_eq)
qed

lemma get_bit_of_runs:
  assumes "proper_runs (\<not> h) ss" and "last_bit = (if even (length ss) then h else \<not> h)"
  shows "snd (snd (foldl get_bit (-1, 0, []) ((\<not> h) # replicate k (\<not> h) @ expand ss @ replicate (Suc m) last_bit))) =
     \<lparr>getLengthUs = int k * 64, isHigh = h\<rparr> # ss"
proof -
  have 1: "get_bit (-1, 0, []) (\<not> h) = (of_bool (\<not> h), 0, [])" by (cases h) (simp_all add: get_bit_def)
  have 2: "foldl get_bit (of_bool (\<not> h), 0, []) (replicate k (of_bool (\<not> h) = (1 :: int))) = (of_bool (\<not> h), int k, [])"
    by (subst get_bit_run) auto
  have 3: "foldl get_bit (of_bool last_bit, 1, r) (replicate m (of_bool last_bit = (1 :: int))) = (of_bool last_bit, 1 + int m, r)" for r
    by (subst get_bit_run) auto
  have "expand ss @ replicate (Suc m) last_bit = (expand ss @ [last_bit]) @ replicate m last_bit" by simp
  then show ?thesis
    using get_bits_runs [OF assms, of "int k" "[]"] 1 2 3 by simp
qed

lemma decode_samples_of_runs:
  assumes "bits_of_bytes buf = x # replicate k (\<not> h) @ expand ss @ replicate (Suc m) last_bit"
    and "x = (\<not> h)"
    and "proper_runs (\<not> h) ss" and "last_bit = (if even (length ss) then h else \<not> h)"
  shows "decode_samples buf = \<lparr>getLengthUs = int k * 64, isHigh = h\<rparr> # ss"
  using get_bit_of_runs [OF assms(3,4), of k m] assms(1,2) by (simp add: decode_samples_def get_bytes_bits)

section \<open>The buffers of a transmission\<close>

lemma nibbles_update:
  assumes "i < length buf"
  shows "nibbles_of_bytes (buf[i := x]) =
     (nibbles_of_bytes buf)[2 * i := x AND 0x0f, Suc (2 * i) := drop_bit 4 x]"
proof (rule nth_equalityI)
  show "length (nibbles_of_bytes (buf[i := x])) =
      length ((nibbles_of_bytes buf)[2 * i := x AND 0x0f, Suc (2 * i) := drop_bit 4 x])" by simp
next
  fix k assume "k < length (nibbles_of_bytes (buf[i := x]))"
  then have k: "k < 2 * length buf" by simp
  show "nibbles_of_bytes (buf[i := x]) ! k =
      (nibbles_of_bytes buf)[2 * i := x AND 0x0f, Suc (2 * i) := drop_bit 4 x] ! k"
  proof (cases "k div 2 = i")
    case True
    then have "k = 2 * i \<or> k = Suc (2 * i)" by auto
    then show ?thesis using k assms by (auto simp: nth_nibbles_of_bytes)
  next
    case False
    then have "k \<noteq> 2 * i" "k \<noteq> Suc (2 * i)" by auto
    then show ?thesis using k False by (simp add: nth_nibbles_of_bytes)
  qed
qed


lemma low_high:
  assumes "small v"
  shows "v AND 0x0f = v" "drop_bit 4 v = 0" "drop_bit 4 (push_bit 4 v) = v"
    "drop_bit 4 (x OR push_bit 4 v) = drop_bit 4 x OR v" "(x OR push_bit 4 v) AND 0x0f = x AND 0x0f"
  using assms
  by (auto intro!: bit_word_eqI simp: bit_simps bit_15_int dest: smallD)

text \<open>The values written so far, a zero in the other half of the last byte, and the end marks.\<close>

definition values_upto :: "u8 list \<Rightarrow> u8 list \<Rightarrow> bool" where
  "values_upto vs buf \<longleftrightarrow>
     nibbles_of_bytes buf = vs @ (if odd (length vs) then [0] else []) @ replicate (2 * ((2 * length buf - length vs) div 2)) 0x0f"

lemma values_upto_step:
  assumes u: "values_upto vs buf" and v: "small v" and l: "length vs < 2 * length buf"
  defines "i \<equiv> length vs div 2"
  shows "values_upto (vs @ [v]) (buf[i := if odd (length vs) then buf ! i OR push_bit 4 v else v])"
proof -
  have i: "i < length buf" using l by (simp add: i_def)
  let ?r = "2 * length buf - length vs"
  show ?thesis
  proof (cases "odd (length vs)")
    case True
    then have k: "length vs = Suc (2 * i)" by (simp add: i_def)
    have n: "nibbles_of_bytes buf = vs @ [0] @ replicate (2 * (?r div 2)) 0x0f"
      using u True by (simp add: values_upto_def)
    have "nibbles_of_bytes buf ! (2 * i) = vs ! (2 * i)" "nibbles_of_bytes buf ! Suc (2 * i) = 0"
      unfolding n using k by (simp_all add: nth_append)
    then have b: "buf ! i AND 0x0f = vs ! (2 * i)" "drop_bit 4 (buf ! i) = 0"
      using i by (simp_all add: nth_nibbles_of_bytes)
    have "nibbles_of_bytes (buf[i := buf ! i OR push_bit 4 v]) =
        (nibbles_of_bytes buf)[2 * i := vs ! (2 * i), Suc (2 * i) := v]"
      using i b by (simp add: nibbles_update low_high [OF v])
    also have "\<dots> = (vs @ [v]) @ replicate (2 * (?r div 2)) 0x0f"
      unfolding n using k by (simp add: list_update_append)
    also have "2 * (?r div 2) = 2 * ((2 * length buf - length (vs @ [v])) div 2)"
      using k i by simp
    finally show ?thesis using True by (simp add: values_upto_def)
  next
    case False
    then have k: "length vs = 2 * i" by (simp add: i_def)
    obtain m where "length buf = Suc (i + m)" using i less_imp_Suc_add by blast
    then have r: "2 * (?r div 2) = Suc (Suc (2 * ((2 * length buf - length (vs @ [v])) div 2)))"
      using k by simp
    have n: "nibbles_of_bytes buf = vs @ 0x0f # 0x0f # replicate (2 * ((2 * length buf - length (vs @ [v])) div 2)) 0x0f"
      using u False unfolding values_upto_def r by simp
    have "nibbles_of_bytes (buf[i := v]) = (nibbles_of_bytes buf)[2 * i := v, Suc (2 * i) := 0]"
      using i by (simp add: nibbles_update low_high [OF v])
    also have "\<dots> = (vs @ [v]) @ [0] @ replicate (2 * ((2 * length buf - length (vs @ [v])) div 2)) 0x0f"
      unfolding n using k by (simp add: list_update_append)
    finally show ?thesis using False k by (simp add: values_upto_def)
  qed
qed


lemma put_values_view:
  assumes "values_upto vs buf" and "unat written = length vs" and "length vs + length ss \<le> 2 * length buf"
    and "2 * length buf < 65536" and "\<forall>s \<in> set ss. small (sample_value pulses s)"
  shows "\<exists>buf'. put_values pulses buf written ss = Some buf' \<and> length buf' = length buf \<and>
     values_upto (vs @ map (sample_value pulses) ss) buf'"
  using assms
proof (induction ss arbitrary: vs buf written)
  case (Cons s ss)
  let ?v = "sample_value pulses s" and ?i = "length vs div 2"
  let ?b = "buf[?i := if odd (length vs) then buf ! ?i OR push_bit 4 ?v else ?v]"
  have i: "unat (drop_bit 1 written) = ?i" "?i < length buf"
    using Cons.prems(2,3) by (simp_all add: drop_bit_eq_div unat_div)
  have "written AND 1 \<noteq> 0 \<longleftrightarrow> odd (unat written)"
    by (simp add: and_one_eq word_unat_eq_iff unat_mod flip: even_iff_mod_2_eq_zero)
  then have o: "written AND 1 \<noteq> 0 \<longleftrightarrow> odd (length vs)" using Cons.prems(2) by simp
  have step: "put_values pulses buf written (s # ss) = put_values pulses ?b (written + 1) ss"
    unfolding put_values.simps Let_def i(1) o using i(2) by (simp add: access_simps)
  have u: "values_upto (vs @ [?v]) ?b" using values_upto_step [OF Cons.prems(1)] Cons.prems(3,5) by simp
  have "unat (written + 1) = length (vs @ [?v])" using Cons.prems(2-4) by (simp add: unat_word_ariths)
  then show ?case using Cons.IH [OF u] Cons.prems(3-5) unfolding step by simp
qed simp

lemma put_values_overflow:
  assumes "unat written \<le> 2 * length buf" and "2 * length buf < unat written + length ss"
    and "2 * length buf < 65536"
  shows "put_values pulses buf written ss = None"
  using assms
proof (induction ss arbitrary: buf written)
  case (Cons s ss)
  have i: "unat (drop_bit 1 written) = unat written div 2" by (simp add: drop_bit_eq_div unat_div)
  show ?case
  proof (cases "unat written = 2 * length buf")
    case True
    then show ?thesis unfolding put_values.simps Let_def i by (simp add: rd_def)
  next
    case False
    then have "unat (written + 1) = Suc (unat written)" "unat written div 2 < length buf"
      using Cons.prems by (auto simp: unat_word_ariths)
    then show ?thesis
      using Cons.IH Cons.prems False unfolding put_values.simps Let_def i by (simp add: access_simps)
  qed
qed simp

lemma values_upto_init: "values_upto [] (replicate n 0xff)"
proof -
  have "nibbles_of_bytes (replicate n 0xff) = replicate (2 * n) 0x0f"
    by (induction n) (simp_all add: nibbles_of_bytes_def)
  then show ?thesis by (simp add: values_upto_def)
qed

lemma put_pulses_wr_list:
  "unat w + length ps < 256 \<Longrightarrow> put_pulses buf w ps = wr_list buf (unat w) (map of_int ps)"
proof (induction ps arbitrary: buf w)
  case (Cons p ps)
  then have "unat (w + 1) = Suc (unat w)" by (simp add: unat_word_ariths)
  then show ?case using Cons by (simp add: Cons.IH cong: Option.bind_cong)
qed simp

section \<open>The pulse widths\<close>

definition clocks_of :: "sample \<Rightarrow> int" where
  "clocks_of s = getLengthUs s sdiv CARRIER_US"

lemma set_pulse_set: "set (pulse_set samples) = clocks_of ` set samples"
  by (simp add: pulse_set_def clocks_of_def)

lemma distinct_pulse_set: "distinct (pulse_set samples)"
  by (simp add: pulse_set_def)

lemma sorted_pulse_set: "sorted (pulse_set samples)"
  by (simp add: pulse_set_def)

lemma nth_position: "x \<in> set ps \<Longrightarrow> position ps x < length ps \<and> ps ! position ps x = x"
  by (induction ps) (auto simp: position_def)

lemma value_bits:
  assumes "k < 8"
  shows "small ((if l then 0 else 0x08) OR of_nat k)"
    "((if l then 0 else 0x08) OR of_nat k :: u8) AND 0x08 \<noteq> 0 \<longleftrightarrow> \<not> l"
    "unat (((if l then 0 else 0x08) OR of_nat k :: u8) AND 0x07) = k"
proof -
  have "k \<in> {0, 1, 2, 3, 4, 5, 6, 7}"
    using assms by (simp only: insert_iff empty_iff) presburger
  then show "small ((if l then 0 else 0x08) OR of_nat k)"
    "((if l then 0 else 0x08) OR of_nat k :: u8) AND 0x08 \<noteq> 0 \<longleftrightarrow> \<not> l"
    "unat (((if l then 0 else 0x08) OR of_nat k :: u8) AND 0x07) = k"
    by (auto simp: small_def)
qed

lemma sample_value_bits:
  assumes "position ps (clocks_of s) < 8"
  shows "small (sample_value ps s)" "sample_value ps s AND 0x08 \<noteq> 0 \<longleftrightarrow> isHigh s"
    "unat (sample_value ps s AND 0x07) = position ps (clocks_of s)"
  using value_bits [OF assms, of "isLow s"]
  unfolding sample_value_def clocks_of_def [symmetric] isLow_def by blast+


section \<open>Running the monad\<close>

lemma io_step: "m w = Some (w', Inr x) \<Longrightarrow> f x w' = r \<Longrightarrow> io_bind m f w = r"
  by (simp add: io_bind_def)

lemma io_step_try: "y = Some x \<Longrightarrow> f x w = r \<Longrightarrow> io_bind (io_try y) f w = r"
  by (simp add: io_bind_def io_try_def)

lemma io_fail: "m w = Some (w', Inl e) \<Longrightarrow> io_bind m f w = Some (w', Inl e)"
  by (simp add: io_bind_def)

definition connected :: "iface \<Rightarrow> bool" where
  "connected d \<longleftrightarrow> handle d \<and> (\<forall>v. version d = Some v \<longrightarrow> isSupported v)"

lemma checkConnection_connected: "connected d \<Longrightarrow> checkConnection d w = Some (w, Inr ())"
  by (auto simp: checkConnection_def connected_def io_return_def split: option.splits)

text \<open>A request that the device answers with \<open>PROTO_RC_OK\<close> and \<open>bs\<close>.\<close>

lemma doTransferRx_reply:
  assumes "connected d" and "ctl_in usb w command value index k = (w', int k, PROTO_RC_OK # bs)"
    and "length bs < 65535" and "k = length bs + 1" and "n = of_nat (length bs)" and "bs \<noteq> []"
  shows "doTransferRx usb d n index value command True w = Some (w', Inr bs)"
proof -
  have n: "unat n = length bs" "unat (n + 1) = length bs + 1" "uint (n + 1) = int (length bs + 1)" "n \<noteq> 0"
    using assms(3,5,6) unat_of_nat [of "length bs", where ?'a = 16]
    by (auto simp: unat_word_ariths uint_word_ariths uint_nat take_bit_nat_eq_self word_unat_eq_iff)
  show ?thesis
    using n assms(2,4)
    by (simp add: doTransferRx_def io_bind_def checkConnection_connected [OF assms(1)] checkResponse_def
        io_try_def rd_def io_return_def Let_def)
qed

lemma doTransferRx_data:
  assumes "connected d" and "ctl_in usb w command value index (length bs) = (w', int (length bs), bs)"
    and "length bs < 65536" and "n = of_nat (length bs)" and "bs \<noteq> []"
  shows "doTransferRx usb d n index value command False w = Some (w', Inr bs)"
proof -
  have n: "unat n = length bs" "uint n = int (length bs)" "n \<noteq> 0"
    using assms(3-5) unat_of_nat [of "length bs", where ?'a = 16]
    by (auto simp: uint_nat take_bit_nat_eq_self word_unat_eq_iff)
  show ?thesis
    using n assms(2)
    by (simp add: doTransferRx_def io_bind_def checkConnection_connected [OF assms(1)] checkResponse_def
        io_try_def io_return_def Let_def)
qed

lemma doTransferTx_accepted:
  assumes "connected d" and "ctl_out usb w command value index bs = (w', int (length bs))"
    and "length bs < 65536" and "n = of_nat (length bs)"
  shows "doTransferTx usb d bs n index value command w = Some (w', Inr ())"
proof -
  have n: "unat n = length bs" "uint n = int (length bs)"
    using assms(3,4) unat_of_nat [of "length bs", where ?'a = 16]
    by (auto simp: uint_nat take_bit_nat_eq_self)
  show ?thesis
    using n assms(2)
    by (simp add: doTransferTx_def io_bind_def checkConnection_connected [OF assms(1)] checkResponse_def
        io_return_def Let_def)
qed


section \<open>The contract of the device\<close>

text \<open>
  What the class relies on: the identification replies, and buffers of 192 and 7 bytes that keep
  what is written. The number 3 is the reply's length with its return code, and so on. \<open>air\<close> is
  what the device has sent so far; only a transfer adds to it.
\<close>

locale rfid_device =
  fixes usb :: "'w libusb" and ready :: "'w \<Rightarrow> bool" and air :: "'w \<Rightarrow> 'a"
  assumes version_reply: "ready w \<Longrightarrow> \<exists>w'. ctl_in usb w PROTO_CMD_GET_VERSION 0 0 3 =
      (w', 3, [PROTO_RC_OK, 0, 1]) \<and> ready w' \<and> air w' = air w"
    and size_reply: "ready w \<Longrightarrow> \<exists>w'. ctl_in usb w PROTO_CMD_GET_BUFFER_SIZE 0 0 7 =
      (w', 7, [PROTO_RC_OK, 4, 1, 0, 192, 0, 7]) \<and> ready w' \<and> air w' = air w"

locale rfid_buffers = rfid_device +
  fixes io_buf :: "'w \<Rightarrow> u8 list" and width_buf :: "'w \<Rightarrow> u8 list"
  assumes write_widths: "ready w \<Longrightarrow> length m = 7 \<Longrightarrow> \<exists>w'.
      ctl_out usb w PROTO_CMD_SAMPLE_VECTOR_WRITE 0 0 m = (w', 7) \<and> ready w' \<and> width_buf w' = m \<and> air w' = air w"
    and write_io: "ready w \<Longrightarrow> length m = 192 \<Longrightarrow> \<exists>w'.
      ctl_out usb w PROTO_CMD_PULSE_VECTOR_WRITE 0 0 m = (w', 192) \<and> ready w' \<and> io_buf w' = m \<and>
      width_buf w' = width_buf w \<and> air w' = air w"
    and read_io: "ready w \<Longrightarrow> \<exists>w'.
      ctl_in usb w PROTO_CMD_PULSE_VECTOR_READ 0 0 192 = (w', 192, io_buf w) \<and> ready w' \<and> air w' = air w"
    and io_length: "ready w \<Longrightarrow> length (io_buf w) = 192"

text \<open>The interface object after the handshake with such a device.\<close>

definition reader_iface :: iface where
  "reader_iface = \<lparr>handle = True, version = Some (0, 1), pulsesMax = 14, pulseVectorSize = 7, pulseBits = 4,
     samplesMax = 1536, sampleVectorSize = 192, sampleBits = 1\<rparr>"

lemma connected_reader: "connected reader_iface"
  by (simp add: connected_def reader_iface_def isSupported_def)

lemma pulse_buffer:
  assumes "length ps \<le> 7"
  shows "put_pulses (replicate 7 0) 0 ps = Some (map of_int ps @ replicate (7 - length ps) 0)"
  using assms by (subst put_pulses_wr_list) (simp_all add: wr_list_in)

lemma sample_values_small:
  assumes "length (pulse_set samples) \<le> 7" and "s \<in> set samples"
  shows "position (pulse_set samples) (clocks_of s) < 7"
    and "pulse_set samples ! position (pulse_set samples) (clocks_of s) = clocks_of s"
    and "small (sample_value (pulse_set samples) s)"
proof -
  have "clocks_of s \<in> set (pulse_set samples)" using assms(2) by (simp add: set_pulse_set)
  note p = nth_position [OF this]
  show 1: "position (pulse_set samples) (clocks_of s) < 7" using p assms(1) by simp
  show "pulse_set samples ! position (pulse_set samples) (clocks_of s) = clocks_of s" using p by simp
  show "small (sample_value (pulse_set samples) s)" using 1 by (intro sample_value_bits(1)) simp
qed

lemma value_buffer:
  assumes "length (pulse_set samples) \<le> 7" and "length samples \<le> 384"
  shows "\<exists>buf. put_values (pulse_set samples) (replicate 192 0xff) 0 samples = Some buf \<and> length buf = 192 \<and>
     values_upto (map (sample_value (pulse_set samples)) samples) buf"
  using put_values_view [OF values_upto_init [of 192], of 0 samples "pulse_set samples"] assms
    sample_values_small(3) [OF assms(1)] by auto

context rfid_device
begin

lemma handshake_reader:
  assumes "ready w"
  shows "\<exists>w'. handshake usb (iface_zero\<lparr>handle := True\<rparr>) w = Some (w', Inr reader_iface) \<and> ready w' \<and>
     air w' = air w"
proof -
  let ?d0 = "iface_zero\<lparr>handle := True\<rparr>" and ?d1 = "iface_zero\<lparr>handle := True, version := Some (0, 1)\<rparr>"
  obtain w1 where w1: "ctl_in usb w PROTO_CMD_GET_VERSION 0 0 3 = (w1, 3, [PROTO_RC_OK, 0, 1])" "ready w1"
    "air w1 = air w"
    using version_reply [OF assms] by blast
  obtain w2 where w2: "ctl_in usb w1 PROTO_CMD_GET_BUFFER_SIZE 0 0 7 = (w2, 7, [PROTO_RC_OK, 4, 1, 0, 192, 0, 7])" "ready w2"
    "air w2 = air w1"
    using size_reply [OF w1(2)] by blast
  have c: "connected ?d0" "connected ?d1" by (simp_all add: connected_def iface_zero_def isSupported_def)
  have 1: "doTransferRx usb ?d0 2 0 0 PROTO_CMD_GET_VERSION True w = Some (w1, Inr [0, 1])"
    using w1(1) by (intro doTransferRx_reply [OF c(1), where k = 3]) simp_all
  have 2: "doTransferRx usb ?d1 6 0 0 PROTO_CMD_GET_BUFFER_SIZE True w1 = Some (w2, Inr [4, 1, 0, 192, 0, 7])"
    using w2(1) by (intro doTransferRx_reply [OF c(2), where k = 7]) simp_all
  have "handshake usb ?d0 w = Some (w2, Inr reader_iface)"
    unfolding handshake_def
    apply (rule io_step, rule 1)
    apply (rule io_step_try, simp add: rd_def)+
    apply (simp only: Let_def iface.simps)
    apply (rule io_step, rule 2)
    apply (simp add: io_try_def rd_def Let_def reader_iface_def iface_zero_def)
    done
  then show ?thesis using w2(2,3) w1(3) by auto
qed

end

context rfid_buffers
begin

text \<open>Up to the transfer itself, \<open>putSamples\<close> only fills the two buffers.\<close>

lemma putSamples_buffers:
  assumes "ready w" and "length (pulse_set samples) \<le> 7" and "length samples \<le> 384"
  shows "\<exists>w'. ready w' \<and> air w' = air w \<and>
     width_buf w' = map of_int (pulse_set samples) @ replicate (7 - length (pulse_set samples)) 0 \<and>
     length (io_buf w') = 192 \<and> values_upto (map (sample_value (pulse_set samples)) samples) (io_buf w') \<and>
     putSamples usb reader_iface samples w =
       run_transfer usb reader_iface 0xf008 (of_int (60000 * CARRIER_US)) w'"
proof -
  let ?ps = "pulse_set samples"
  let ?widths = "map of_int ?ps @ replicate (7 - length ?ps) 0 :: u8 list"
  obtain buf where buf: "put_values ?ps (replicate 192 0xff) 0 samples = Some buf" "length buf = 192"
    "values_upto (map (sample_value ?ps) samples) buf"
    using value_buffer [OF assms(2,3)] by blast
  have len: "length ?widths = 7" using assms(2) by simp
  obtain w1 where w1: "ctl_out usb w PROTO_CMD_SAMPLE_VECTOR_WRITE 0 0 ?widths = (w1, 7)" "ready w1"
    "width_buf w1 = ?widths" "air w1 = air w"
    using write_widths [OF assms(1) len] by blast
  obtain w2 where w2: "ctl_out usb w1 PROTO_CMD_PULSE_VECTOR_WRITE 0 0 buf = (w2, 192)" "ready w2"
    "io_buf w2 = buf" "width_buf w2 = ?widths" "air w2 = air w"
    using write_io [OF w1(2) buf(2)] w1(3,4) by auto
  have 1: "doTransferTx usb reader_iface ?widths 7 0 0 PROTO_CMD_SAMPLE_VECTOR_WRITE w = Some (w1, Inr ())"
    using w1(1) len by (intro doTransferTx_accepted [OF connected_reader]) simp_all
  have 2: "doTransferTx usb reader_iface buf 192 0 0 PROTO_CMD_PULSE_VECTOR_WRITE w1 = Some (w2, Inr ())"
    using w2(1) buf(2) by (intro doTransferTx_accepted [OF connected_reader]) simp_all
  have p: "put_pulses (replicate 7 0) 0 ?ps = Some ?widths" by (rule pulse_buffer [OF assms(2)])
  have d: "pulseVectorSize reader_iface = 7" "unat (7 :: u16) = 7"
    "sampleVectorSize reader_iface = 192" "unat (192 :: u16) = 192"
    by (simp_all add: reader_iface_def)
  have "putSamples usb reader_iface samples w =
      run_transfer usb reader_iface 0xf008 (of_int (60000 * CARRIER_US)) w2"
    unfolding putSamples_def Let_def d if_not_P [OF assms(2) [folded not_less]]
    apply (rule io_step_try, rule p)
    apply (rule io_step, rule 1)
    apply (rule io_step_try, rule buf(1))
    apply (rule io_step, rule 2)
    apply simp
    done
  then show ?thesis using w2 buf by blast
qed

text \<open>After the transfer, \<open>getSamples\<close> decodes the device's buffer.\<close>

lemma getSamples_decodes:
  assumes "run_transfer usb reader_iface 0xe008 60000 w = Some (w1, Inr ())" and "ready w1"
  shows "\<exists>w'. getSamples usb reader_iface w = Some (w', Inr (decode_samples (io_buf w1))) \<and> ready w' \<and>
     air w' = air w1"
proof -
  obtain w2 where w2: "ctl_in usb w1 PROTO_CMD_PULSE_VECTOR_READ 0 0 192 = (w2, 192, io_buf w1)" "ready w2"
    "air w2 = air w1"
    using read_io [OF assms(2)] by blast
  have l: "length (io_buf w1) = 192" by (rule io_length [OF assms(2)])
  have "doTransferRx usb reader_iface 192 0 0 PROTO_CMD_PULSE_VECTOR_READ False w1 = Some (w2, Inr (io_buf w1))"
    using w2(1) l by (intro doTransferRx_data [OF connected_reader]) auto
  moreover have "sampleVectorSize reader_iface = 192" by (simp add: reader_iface_def)
  ultimately have "getSamples usb reader_iface w = Some (w2, Inr (decode_samples (io_buf w1)))"
    unfolding getSamples_def
    using assms(1)
    by (intro io_step [where w' = w1 and x = "()"] io_step [where w' = w2 and x = "io_buf w1"])
       (simp_all add: prescaler_def io_return_def)
  then show ?thesis using w2(2,3) by blast
qed

end


section \<open>The walk over the bus\<close>

definition matches :: "bus_device \<Rightarrow> bool" where
  "matches dev \<longleftrightarrow> idVendor dev = DEV_USB_VID \<and> idProduct dev = DEV_USB_PID"

lemma find_on_bus_Nil: "find_on_bus k [] = Some False"
  by (simp add: find_on_bus.simps)

lemma find_on_bus_skip: "\<not> matches dev \<Longrightarrow> find_on_bus k (dev # rest) = find_on_bus 0 rest"
  by (subst find_on_bus.simps) (auto simp: matches_def)

lemma find_on_bus_retry:
  "matches dev \<Longrightarrow> \<not> usb_open dev k \<Longrightarrow> find_on_bus k (dev # rest) = find_on_bus (Suc k) (dev # rest)"
  by (subst find_on_bus.simps) (simp add: matches_def)

lemma find_on_bus_open:
  "matches dev \<Longrightarrow> usb_open dev k \<Longrightarrow> find_on_bus k (dev # rest) =
     Option.bind (is_ours dev) (\<lambda>ours. if ours then Some True else find_on_bus 0 rest)"
  by (subst find_on_bus.simps) (simp add: matches_def)

lemma find_on_bus_opened:
  assumes "matches dev" and "usb_open dev (k + n)"
  shows "find_on_bus k (dev # rest) =
     Option.bind (is_ours dev) (\<lambda>ours. if ours then Some True else find_on_bus 0 rest)"
  using assms
proof (induction n arbitrary: k)
  case (Suc n)
  then show ?case
    using find_on_bus_open [of dev k rest] find_on_bus_retry [of dev k rest]
    by (cases "usb_open dev k") simp_all
qed (simp add: find_on_bus_open)

lemma find_on_bus_hangs:
  assumes dev: "matches dev" "\<And>i. \<not> usb_open dev i"
  shows "find_on_bus k (dev # rest) = None"
proof -
  have "devs \<noteq> dev # rest" if "find_on_bus k devs = Some y" for k devs y
  proof (rule find_on_bus.raw_induct [of "\<lambda>k devs y. devs \<noteq> dev # rest", OF _ that])
    fix f :: "nat \<Rightarrow> bus_device list \<Rightarrow> bool option" and k devs y
    assume IH: "\<And>k devs y. f k devs = Some y \<Longrightarrow> devs \<noteq> dev # rest"
      and body: "(case devs of [] \<Rightarrow> Some False
        | dev # rest \<Rightarrow>
            if idVendor dev = DEV_USB_VID \<and> idProduct dev = DEV_USB_PID then
              if \<not> usb_open dev k then f (Suc k) devs
              else Option.bind (is_ours dev) (\<lambda>ours. if ours then Some True else f 0 rest)
            else f 0 rest) = Some y"
    show "devs \<noteq> dev # rest"
    proof
      assume "devs = dev # rest"
      then have "f (Suc k) (dev # rest) = Some y" using body dev by (simp add: matches_def)
      then show False using IH by blast
    qed
  qed
  then show ?thesis by (cases "find_on_bus k (dev # rest)") auto
qed

section \<open>Properties\<close>

text \<open>
  C26. From the device's buffer to samples: \<open>getSamples\<close> turns the bits into samples of alternating
  level, whole multiples of 64 microseconds long, that are the runs of the bits (a one is a low
  sample) without the buffer's first bit and without its last run: all but the first sample
  last at least one bit.
\<close>
theorem samples_are_runs:
  assumes "buf \<noteq> []"
  shows "\<exists>n b. expand (decode_samples buf) @ replicate n b = tl (bits_of_bytes buf) \<and>
     (\<forall>s \<in> set (decode_samples buf). 0 \<le> getLengthUs s \<and> getLengthUs s mod 64 = 0) \<and>
     (\<forall>s \<in> set (tl (decode_samples buf)). 64 \<le> getLengthUs s) \<and>
     (\<forall>i. Suc i < length (decode_samples buf) \<longrightarrow>
        isHigh (decode_samples buf ! Suc i) = (\<not> isHigh (decode_samples buf ! i))) \<and>
     (decode_samples buf \<noteq> [] \<longrightarrow> isHigh (last (decode_samples buf)) = b \<and> 1 \<le> n)"
  using decode_samples_runs [OF assms] .

theorem samples_are_runs_witness:
  "\<exists>n b. expand (decode_samples [0x0f, 0x33]) @ replicate n b = tl (bits_of_bytes [0x0f, 0x33])"
  using samples_are_runs [of "[0x0f, 0x33]"] by blast

text \<open>
  Finding the reader: when every device with the right vendor and product id can be opened at
  some attempt and its product string can be read, the walk over a bus returns, and it returns
  true exactly when one of these devices has the reader's product string.
\<close>
lemma enumeration_finds:
  assumes "\<And>dev. dev \<in> set devs \<Longrightarrow> matches dev \<Longrightarrow> (\<exists>n. usb_open dev n) \<and> is_ours dev \<noteq> None"
  shows "find_on_bus 0 devs = Some (\<exists>dev \<in> set devs. matches dev \<and> is_ours dev = Some True)"
  using assms
proof (induction devs)
  case (Cons dev rest)
  have IH: "find_on_bus 0 rest = Some (\<exists>dev \<in> set rest. matches dev \<and> is_ours dev = Some True)"
    using Cons by simp
  show ?case
  proof (cases "matches dev")
    case True
    then obtain n ours where "usb_open dev (0 + n)" "is_ours dev = Some ours" using Cons.prems [of dev] by auto
    then show ?thesis using find_on_bus_opened [OF True, of 0 n rest] IH True by auto
  qed (use IH in \<open>simp add: find_on_bus_skip\<close>)
qed (simp add: find_on_bus_Nil)

definition reader_on_bus :: bus_device where
  "reader_on_bus = \<lparr>idVendor = 0x16c0, idProduct = 0x05dc, iProduct = 2, usb_open = (\<lambda>n. n = 3),
     string_simple = (9, ''rfid-tool''), string_msg = (-1, [])\<rparr>"

lemma enumeration_finds_example: "find_on_bus 0 [reader_on_bus] = Some True"
proof -
  have "is_ours reader_on_bus = Some True" "matches reader_on_bus"
    by (simp_all add: is_ours_def usbGetStringAscii_def reader_on_bus_def matches_def DEV_USB_PROD_def
        DEV_USB_VID_def DEV_USB_PID_def)
  then show ?thesis
    using enumeration_finds [of "[reader_on_bus]"] by (simp add: reader_on_bus_def)
qed

text \<open>
  The device that decides the walk: it has the right ids, and it is the reader or can never be
  opened.
\<close>

definition decides :: "bus_device \<Rightarrow> bool" where
  "decides dev \<longleftrightarrow> matches dev \<and> ((\<forall>n. \<not> usb_open dev n) \<or> is_ours dev = Some True)"

definition decision :: "bus_device option \<Rightarrow> bool option" where
  "decision d =
     (case d of None \<Rightarrow> Some False | Some dev \<Rightarrow> if \<exists>n. usb_open dev n then Some True else None)"

lemma find_decides_append:
  "List.find P (xs @ ys) = (case List.find P xs of None \<Rightarrow> List.find P ys | Some x \<Rightarrow> Some x)"
  by (induction xs) simp_all

lemma find_on_bus_decision:
  assumes "\<And>dev. dev \<in> set devs \<Longrightarrow> matches dev \<Longrightarrow> \<exists>n. usb_open dev n \<Longrightarrow> is_ours dev \<noteq> None"
  shows "find_on_bus 0 devs = decision (List.find decides devs)"
  using assms
proof (induction devs)
  case (Cons dev rest)
  have IH: "find_on_bus 0 rest = decision (List.find decides rest)" using Cons by simp
  consider "\<not> matches dev" | "matches dev" "\<forall>n. \<not> usb_open dev n" | n where "matches dev" "usb_open dev (0 + n)"
    by auto
  then show ?case
  proof cases
    case 1
    then show ?thesis using IH by (simp add: find_on_bus_skip decides_def [of dev])
  next
    case 2
    then show ?thesis using find_on_bus_hangs [of dev 0 rest] by (simp add: decides_def [of dev] decision_def)
  next
    case 3
    then obtain ours where "is_ours dev = Some ours" using Cons.prems [of dev] by auto
    then show ?thesis
      using find_on_bus_opened [OF 3, of rest] IH 3 by (auto simp: decides_def [of dev] decision_def)
  qed
qed (simp add: find_on_bus_Nil decision_def)

lemma find_device_decision:
  assumes "\<And>dev. dev \<in> set (concat busses) \<Longrightarrow> matches dev \<Longrightarrow> \<exists>n. usb_open dev n \<Longrightarrow> is_ours dev \<noteq> None"
  shows "find_device busses = decision (List.find decides (concat busses))"
  using assms
proof (induction busses)
  case (Cons bus busses)
  have "find_on_bus 0 bus = decision (List.find decides bus)" using Cons.prems by (intro find_on_bus_decision) simp
  moreover have "find_device busses = decision (List.find decides (concat busses))"
    using Cons.prems by (intro Cons.IH) simp
  ultimately show ?case
    by (auto simp: find_decides_append decision_def split: option.splits)
qed (simp add: decision_def)

text \<open>
  C38. The walk over the busses, in their order: when the product strings of the devices with the
  right ids can be read, the first device that is the reader or can never be opened (another user
  owns it) decides. If it is the reader, the walk finds it. If it cannot be opened, it is tried
  again for ever and the constructor does not return, although the reader may come after it. If
  there is neither, the walk ends without a reader.
\<close>
theorem enumeration_hangs:
  assumes "\<forall>dev \<in> set (concat busses). matches dev \<and> (\<exists>n. usb_open dev n) \<longrightarrow> is_ours dev \<noteq> None"
  shows "case List.find decides (concat busses) of
      Some dev \<Rightarrow> if \<exists>n. usb_open dev n then find_device busses = Some True
                 else InterfaceUsbImpl usb busses w = None
    | None \<Rightarrow> find_device busses = Some False"
  using find_device_decision [of busses] assms
  by (auto simp: decision_def InterfaceUsbImpl_def io_bind_def io_try_def split: option.split)

text \<open>On the second bus, a device that cannot be opened in front of the reader.\<close>

theorem enumeration_hangs_witness:
  "InterfaceUsbImpl (undefined :: unit libusb) [[], [reader_on_bus\<lparr>idVendor := 0\<rparr>, reader_on_bus\<lparr>usb_open := \<lambda>_. False\<rparr>, reader_on_bus]] () = None"
proof -
  let ?b = "[[], [reader_on_bus\<lparr>idVendor := 0\<rparr>, reader_on_bus\<lparr>usb_open := \<lambda>_. False\<rparr>, reader_on_bus]]"
  have m: "matches reader_on_bus" "\<not> matches (reader_on_bus\<lparr>idVendor := 0\<rparr>)"
    "matches (reader_on_bus\<lparr>usb_open := \<lambda>_. False\<rparr>)" "is_ours reader_on_bus = Some True"
    by (simp_all add: is_ours_def usbGetStringAscii_def reader_on_bus_def matches_def DEV_USB_PROD_def
        DEV_USB_VID_def DEV_USB_PID_def)
  then have "\<forall>dev \<in> set (concat ?b). matches dev \<and> (\<exists>n. usb_open dev n) \<longrightarrow> is_ours dev \<noteq> None"
    "List.find decides (concat ?b) = Some (reader_on_bus\<lparr>usb_open := \<lambda>_. False\<rparr>)"
    by (auto simp: decides_def)
  with enumeration_hangs [of ?b "undefined :: unit libusb" "()"] show ?thesis by simp
qed

text \<open>
  C33. Limits of \<open>putSamples\<close>: more different pulse lengths than the device has entries are refused
  with an exception before anything is sent. Too many samples are not: when there are more than
  two for each byte of the device's buffer, the values are written behind the end of the local
  array, for a device that takes the pulse lengths.
\<close>
theorem put_samples_limits:
  assumes "\<And>w c v i bs. snd (ctl_out usb w c v i bs) = int (length bs)"
  shows "(unat (pulseVectorSize d) < length (pulse_set samples) \<longrightarrow>
       putSamples usb d samples w = Some (w, Inl TooManyPulsesException)) \<and>
     (connected d \<and> length (pulse_set samples) \<le> unat (pulseVectorSize d) \<and>
       unat (pulseVectorSize d) < 256 \<and> unat (sampleVectorSize d) < 32768 \<and>
       2 * unat (sampleVectorSize d) < length samples \<longrightarrow>
       putSamples usb d samples w = None)"
proof (intro conjI impI; (elim conjE)?)
  show "putSamples usb d samples w = Some (w, Inl TooManyPulsesException)"
    if "unat (pulseVectorSize d) < length (pulse_set samples)"
    using that by (simp add: putSamples_def io_throw_def)
next
  assume d: "connected d" and p: "length (pulse_set samples) \<le> unat (pulseVectorSize d)"
    "unat (pulseVectorSize d) < 256" and s: "unat (sampleVectorSize d) < 32768"
    "2 * unat (sampleVectorSize d) < length samples"
  let ?n = "unat (pulseVectorSize d)" and ?ps = "pulse_set samples"
  let ?widths = "map of_int ?ps @ replicate (?n - length ?ps) 0 :: u8 list"
  have 1: "put_pulses (replicate ?n 0) 0 ?ps = Some ?widths"
    using p by (subst put_pulses_wr_list) (simp_all add: wr_list_in)
  obtain w1 where "ctl_out usb w PROTO_CMD_SAMPLE_VECTOR_WRITE 0 0 ?widths = (w1, int (length ?widths))"
    using assms by (metis prod.collapse)
  then have 2: "doTransferTx usb d ?widths (pulseVectorSize d) 0 0 PROTO_CMD_SAMPLE_VECTOR_WRITE w = Some (w1, Inr ())"
    using p by (intro doTransferTx_accepted [OF d]) (simp_all add: word_unat_eq_iff)
  have 3: "put_values ?ps (replicate (unat (sampleVectorSize d)) 0xff) 0 samples = None"
    using s by (intro put_values_overflow) simp_all
  show "putSamples usb d samples w = None"
    unfolding putSamples_def Let_def if_not_P [OF p(1) [folded not_less]]
    apply (rule io_step_try, rule 1)
    apply (rule io_step, rule 2)
    apply (simp add: 3 io_bind_def io_try_def)
    done
qed


definition usb_accepting :: "unit libusb" where
  "usb_accepting = \<lparr>ctl_in = (\<lambda>w c v i n. (w, int n, replicate n 0)),
     ctl_out = (\<lambda>w c v i bs. (w, int (length bs))), wait = (\<lambda>n w. w)\<rparr>"

theorem put_samples_limits_witness:
  "putSamples usb_accepting reader_iface (map us [8, 16, 24, 32, 40, 48, 56, 64]) () =
     Some ((), Inl TooManyPulsesException) \<and>
   putSamples usb_accepting reader_iface (replicate 385 (us 64)) () = None"
proof -
  have a: "\<And>w c v i bs. snd (ctl_out usb_accepting w c v i bs) = int (length bs)"
    by (simp add: usb_accepting_def)
  have 1: "unat (pulseVectorSize reader_iface) = 7" "unat (sampleVectorSize reader_iface) = 192"
    by (simp_all add: reader_iface_def)
  have 2: "length (pulse_set (map us [8, 16, 24, 32, 40, 48, 56, 64])) = 8"
    by (simp add: pulse_set_def us_def CARRIER_US_def signed_divide_int_def)
  have 3: "length (pulse_set (replicate 385 (us 64))) \<le> 1"
  proof -
    have "set (pulse_set (replicate 385 (us 64))) \<subseteq> {clocks_of (us 64)}" by (auto simp: set_pulse_set)
    then have "card (set (pulse_set (replicate 385 (us 64)))) \<le> card {clocks_of (us 64)}"
      by (intro card_mono) simp_all
    then show ?thesis by (simp add: distinct_card distinct_pulse_set)
  qed
  show ?thesis
    using put_samples_limits [OF a, of reader_iface "map us [8, 16, 24, 32, 40, 48, 56, 64]" "()"]
      put_samples_limits [OF a, of reader_iface "replicate 385 (us 64)" "()"] 1 2 3 connected_reader
    by simp
qed

end
