(* ===== verification/Tool_Main.thy ===== *)
theory Tool_Main
  imports Tool_Read Em4100_Eprom T5557_Encoder Interface_Usb
begin

unbundle bit_operations_syntax

text \<open>
  The tool's program (\<open>rfid-tool/src/main.cpp\<close>): the options, the checks on them, and the
  branches that reset the reader, read a tag or write one. What the C library's \<open>getopt_long\<close>
  returns, one option letter with its argument after the other, is the input; \<open>shown\<close> is what the
  program prints, the log messages apart.
\<close>

section \<open>Options\<close>

datatype Modulation = MODULATION_UNKNOWN | MODULATION_MANCHESTER | MODULATION_BIPHASE

datatype Bitrate = BITRATE_UNKNOWN | BITRATE_16 | BITRATE_32 | BITRATE_64

record ExecutionOptions =
  showHelp :: bool
  resetIface :: bool
  read :: bool
  "write" :: bool
  customerId :: u8
  token :: u32
  modulation :: Modulation
  bitrate :: Bitrate

definition ExecutionOptions_init :: ExecutionOptions where
  "ExecutionOptions_init =
     \<lparr>showHelp = False, resetIface = False, read = False, write = False, customerId = 0, token = 0,
      modulation = MODULATION_UNKNOWN, bitrate = BITRATE_UNKNOWN\<rparr>"


text \<open>
  \<open>strtol(s, nullptr, 0)\<close> of the C library, with a \<open>long\<close> of \<open>w\<close> bits: white space, a sign, a
  prefix that tells the base, then digits as long as they are valid; a value that does not fit
  becomes the nearest \<open>long\<close>.
\<close>

definition isspace :: "char \<Rightarrow> bool" where
  "isspace c \<longleftrightarrow> of_char c \<in> {9, 10, 11, 12, 13, 32 :: nat}"

definition digit_value :: "char \<Rightarrow> nat" where
  "digit_value c =
     (let n = of_char c :: nat
      in if 48 \<le> n \<and> n \<le> 57 then n - 48
         else if 97 \<le> n \<and> n \<le> 122 then n - 87
         else if 65 \<le> n \<and> n \<le> 90 then n - 55
         else 36)"

definition number :: "nat \<Rightarrow> string \<Rightarrow> nat" where
  "number base s =
     foldl (\<lambda>n c. n * base + digit_value c) 0 (takeWhile (\<lambda>c. digit_value c < base) s)"

definition magnitude :: "string \<Rightarrow> nat" where
  "magnitude s =
     (if take 2 s \<in> {''0x'', ''0X''} then number 16 (drop 2 s)
      else if take 1 s = ''0'' then number 8 s
      else number 10 s)"

definition strtol :: "nat \<Rightarrow> string \<Rightarrow> int" where
  "strtol w s =
     (let s = dropWhile isspace s;
          v = (if take 1 s = ''-'' then - int (magnitude (drop 1 s))
               else if take 1 s = ''+'' then int (magnitude (drop 1 s))
               else int (magnitude s))
      in max (- (2 ^ (w - 1))) (min (2 ^ (w - 1) - 1) v))"

definition bitrate_option :: "string \<Rightarrow> Bitrate option" where
  "bitrate_option optarg =
     (if optarg = ''16'' then Some BITRATE_16
      else if optarg = ''32'' then Some BITRATE_32
      else if optarg = ''64'' then Some BITRATE_64
      else None)"

definition modulation_option :: "string \<Rightarrow> Modulation option" where
  "modulation_option optarg =
     (if optarg = ''manchester'' then Some MODULATION_MANCHESTER
      else if optarg = ''biphase'' then Some MODULATION_BIPHASE
      else None)"

text \<open>
  One round of the loop over the options. The level of the log messages, which option \<open>v\<close> sets, is
  not modelled.
\<close>

definition apply_option :: "nat \<Rightarrow> ExecutionOptions \<Rightarrow> char \<times> string \<Rightarrow> ExecutionOptions" where
  "apply_option w opt arg =
     (let (c, optarg) = arg
      in if c = CHR ''h'' then opt\<lparr>showHelp := True\<rparr>
         else if c = CHR ''r'' then opt\<lparr>read := True\<rparr>
         else if c = CHR ''p'' then opt\<lparr>write := True\<rparr>
         else if c = CHR ''R'' then opt\<lparr>resetIface := True\<rparr>
         else if c = CHR ''b'' then (case bitrate_option optarg of Some b \<Rightarrow> opt\<lparr>bitrate := b\<rparr> | None \<Rightarrow> opt)
         else if c = CHR ''m'' then (case modulation_option optarg of Some m \<Rightarrow> opt\<lparr>modulation := m\<rparr> | None \<Rightarrow> opt)
         else if c = CHR ''c'' then opt\<lparr>customerId := of_int (strtol w optarg)\<rparr>
         else if c = CHR ''t'' then opt\<lparr>token := of_int (strtol w optarg)\<rparr>
         else if c = CHR ''v'' then opt
         else opt\<lparr>showHelp := True\<rparr>)"

definition parse_options :: "nat \<Rightarrow> (char \<times> string) list \<Rightarrow> ExecutionOptions" where
  "parse_options w args = foldl (apply_option w) ExecutionOptions_init args"

text \<open>What stops the program before it looks for a reader: the help text, with a message or not.\<close>

definition check_options :: "ExecutionOptions \<Rightarrow> string option option" where
  "check_options opt =
     (if showHelp opt then Some None
      else if write opt then
        (if modulation opt = MODULATION_UNKNOWN then Some (Some ''Unknown modulation!'')
         else if bitrate opt = BITRATE_UNKNOWN then Some (Some ''Unknown bitrate'')
         else None)
      else None)"

section \<open>The branches\<close>

datatype shown = Help "string option" | New_Token report | Failed exception

text \<open>
  The members and the array that the program does not initialise: those of the carrier decoder
  and of the two EM4100 decoders, and \<open>em4100Eprom\<close>.
\<close>

type_synonym locals = "carrier \<times> em4100 \<times> em4100 \<times> u32 list"

definition read_branch :: "'w libusb \<Rightarrow> iface \<Rightarrow> locals \<Rightarrow> ('w, shown list) io" where
  "read_branch usb d loc =
     (let (c, m, b, _) = loc
      in io_bind (getSamples usb d) (\<lambda>samples.
         io_bind (io_try (read_samples (reader_init c m b) samples)) (\<lambda>(_, reps).
         io_return (map New_Token reps))))"

definition write_params :: "ExecutionOptions \<Rightarrow> Parameters" where
  "write_params opt =
     (let params = Parameters_init;
          params = (case bitrate opt of
              BITRATE_16 \<Rightarrow> params\<lparr>p_dataRate := DATA_RATE_16\<rparr>
            | BITRATE_32 \<Rightarrow> params\<lparr>p_dataRate := DATA_RATE_32\<rparr>
            | BITRATE_64 \<Rightarrow> params\<lparr>p_dataRate := DATA_RATE_64\<rparr>
            | BITRATE_UNKNOWN \<Rightarrow> params);
          params = (case modulation opt of
              MODULATION_MANCHESTER \<Rightarrow> params\<lparr>p_modulation := T5557_Encoder.MODULATION_MANCHESTER\<rparr>
            | MODULATION_BIPHASE \<Rightarrow> params\<lparr>p_modulation := T5557_Encoder.MODULATION_BIPHASE\<rparr>
            | MODULATION_UNKNOWN \<Rightarrow> params)
      in params\<lparr>p_maxBlock := 2\<rparr>)"

definition write_branch :: "'w libusb \<Rightarrow> iface \<Rightarrow> locals \<Rightarrow> ExecutionOptions \<Rightarrow> ('w, shown list) io" where
  "write_branch usb d loc opt =
     (let (_, _, _, em4100Eprom) = loc
      in io_bind (io_try (encodeParameters (write_params opt) False 0 [])) (\<lambda>samples.
         io_bind (putSamples usb d samples) (\<lambda>_.
         io_bind (io_try (generate em4100Eprom (customerId opt) (token opt))) (\<lambda>em4100Eprom.
         io_bind (io_try (rd em4100Eprom 0)) (\<lambda>x.
         io_bind (putSamples usb d (encodeBlock 0 1 False False 0 x [])) (\<lambda>_.
         io_bind (io_try (rd em4100Eprom 1)) (\<lambda>x.
         io_bind (putSamples usb d (encodeBlock 0 2 False False 0 x [])) (\<lambda>_.
         io_return []))))))))"

definition run_branch :: "'w libusb \<Rightarrow> iface \<Rightarrow> locals \<Rightarrow> ExecutionOptions \<Rightarrow> ('w, shown list) io" where
  "run_branch usb d loc opt =
     (if resetIface opt then io_bind (iface_reset usb d) (\<lambda>_. io_return [])
      else if \<not> read opt \<and> \<not> write opt then io_return [Help None]
      else if read opt then read_branch usb d loc
      else write_branch usb d loc opt)"

text \<open>The body of the \<open>try\<close> block. The version is read through a pointer that must not be null.\<close>

definition try_block :: "'w libusb \<Rightarrow> bus_device list list \<Rightarrow> locals \<Rightarrow> ExecutionOptions \<Rightarrow> ('w, shown list) io" where
  "try_block usb busses loc opt =
     io_bind (InterfaceUsbImpl usb busses) (\<lambda>d.
     io_bind (getVersion d) (\<lambda>v.
     io_bind (io_try v) (\<lambda>_.
     run_branch usb d loc opt)))"

text \<open>The result is the exit code and what was shown.\<close>

definition tool_main ::
    "nat \<Rightarrow> 'w libusb \<Rightarrow> bus_device list list \<Rightarrow> locals \<Rightarrow> (char \<times> string) list \<Rightarrow> 'w \<Rightarrow>
     ('w \<times> int \<times> shown list) option" where
  "tool_main w usb busses loc args world =
     (let opt = parse_options w args
      in case check_options opt of
           Some msg \<Rightarrow> Some (world, -1, [Help msg])
         | None \<Rightarrow>
             (case try_block usb busses loc opt world of
                None \<Rightarrow> None
              | Some (world, Inl e) \<Rightarrow> Some (world, -1, [Failed e])
              | Some (world, Inr out) \<Rightarrow> Some (world, 0, out)))"

section \<open>The options that get through\<close>

definition known_letter :: "char \<Rightarrow> bool" where
  "known_letter c \<longleftrightarrow> c \<in> set ''vRrpbmct''"

lemma parse_options_snoc:
  "parse_options w [] = ExecutionOptions_init"
  "parse_options w (args @ [a]) = apply_option w (parse_options w args) a"
  by (simp_all add: parse_options_def)

lemma options_seen:
  "showHelp (parse_options w args) \<longleftrightarrow> (\<exists>a \<in> set args. \<not> known_letter (fst a))"
  "write (parse_options w args) \<longleftrightarrow> (\<exists>a \<in> set args. fst a = CHR ''p'')"
  "read (parse_options w args) \<longleftrightarrow> (\<exists>a \<in> set args. fst a = CHR ''r'')"
  "resetIface (parse_options w args) \<longleftrightarrow> (\<exists>a \<in> set args. fst a = CHR ''R'')"
  "modulation (parse_options w args) \<noteq> MODULATION_UNKNOWN \<longleftrightarrow>
     (\<exists>a \<in> set args. fst a = CHR ''m'' \<and> modulation_option (snd a) \<noteq> None)"
  "bitrate (parse_options w args) \<noteq> BITRATE_UNKNOWN \<longleftrightarrow>
     (\<exists>a \<in> set args. fst a = CHR ''b'' \<and> bitrate_option (snd a) \<noteq> None)"
  by (induction args rule: rev_induct)
    (auto simp: parse_options_snoc ExecutionOptions_init_def apply_option_def known_letter_def Let_def
      bitrate_option_def modulation_option_def split: prod.splits option.splits if_splits)

text \<open>The condition of the checks on the options as they were given.\<close>

definition acceptable :: "(char \<times> string) list \<Rightarrow> bool" where
  "acceptable args \<longleftrightarrow>
     (\<forall>a \<in> set args. known_letter (fst a)) \<and>
     ((\<exists>a \<in> set args. fst a = CHR ''p'') \<longrightarrow>
      (\<exists>a \<in> set args. fst a = CHR ''m'' \<and> snd a \<in> {''manchester'', ''biphase''}) \<and>
      (\<exists>a \<in> set args. fst a = CHR ''b'' \<and> snd a \<in> {''16'', ''32'', ''64''}))"

lemma acceptable_checked: "acceptable args \<longleftrightarrow> check_options (parse_options w args) = None"
proof -
  have m: "modulation_option s \<noteq> None \<longleftrightarrow> s \<in> {''manchester'', ''biphase''}" for s
    by (simp add: modulation_option_def)
  have b: "bitrate_option s \<noteq> None \<longleftrightarrow> s \<in> {''16'', ''32'', ''64''}" for s
    by (simp add: bitrate_option_def)
  show ?thesis
    unfolding acceptable_def m [symmetric] b [symmetric] options_seen(5,6) [of w, symmetric]
      options_seen(2) [of w, symmetric]
    using options_seen(1) [of w args] by (auto simp: check_options_def)
qed

section \<open>Numbers as they are typed\<close>

definition digit_char :: "nat \<Rightarrow> char" where
  "digit_char d = char_of (if d < 10 then 48 + d else 87 + d)"

fun show_number :: "nat \<Rightarrow> nat \<Rightarrow> string" where
  "show_number base n =
     (if n < base \<or> base < 2 then [digit_char n] else show_number base (n div base) @ [digit_char (n mod base)])"

declare show_number.simps [simp del]

lemma of_char_digit: "d < 16 \<Longrightarrow> of_char (digit_char d) = (if d < 10 then 48 + d else 87 + d)"
  by (simp add: digit_char_def)

lemma digit_value_char: "d < 16 \<Longrightarrow> digit_value (digit_char d) = d"
  by (auto simp: digit_value_def of_char_digit Let_def)

definition digit_string :: "nat \<Rightarrow> string \<Rightarrow> bool" where
  "digit_string base s \<longleftrightarrow> (\<forall>c \<in> set s. \<exists>d < base. c = digit_char d)"

lemma number_digits:
  assumes "base \<le> 16" and "digit_string base s"
  shows "number base s = foldl (\<lambda>n c. n * base + digit_value c) 0 s"
proof -
  have "takeWhile (\<lambda>c. digit_value c < base) s = s"
    using assms by (intro takeWhile_eq_all_conv [THEN iffD2]) (auto simp: digit_string_def digit_value_char)
  then show ?thesis unfolding number_def by (rule arg_cong)
qed

lemma show_number_digits:
  assumes "2 \<le> base" and "base \<le> 16"
  shows "digit_string base (show_number base n) \<and> number base (show_number base n) = n \<and>
     (\<exists>d cs. show_number base n = digit_char d # cs \<and> d < base \<and> (0 < n \<longrightarrow> 0 < d))"
proof (induction n rule: less_induct)
  case (less n)
  show ?case
  proof (cases "n < base")
    case True
    then have "show_number base n = [digit_char n]" "digit_string base [digit_char n]"
      by (auto simp: show_number.simps digit_string_def)
    then show ?thesis using True assms by (auto simp: number_digits digit_value_char)
  next
    case False
    then have n: "show_number base n = show_number base (n div base) @ [digit_char (n mod base)]"
      "n div base < n" "0 < n div base"
      using assms by (simp_all add: show_number.simps [of base n] div_greater_zero_iff)
    note IH = less [OF n(2)]
    have m: "n mod base < base" using assms by simp
    then have d: "digit_string base (show_number base n)"
      using IH by (auto simp: n(1) digit_string_def)
    have v: "digit_value (digit_char (n mod base)) = n mod base"
      using m assms(2) by (intro digit_value_char) simp
    have "number base (show_number base (n div base)) =
        foldl (\<lambda>n c. n * base + digit_value c) 0 (show_number base (n div base))"
      using IH by (intro number_digits assms(2)) blast
    then have "number base (show_number base n) = n"
      unfolding number_digits [OF assms(2) d] unfolding n(1) using IH v by simp
    then show ?thesis using IH d n by auto
  qed
qed

lemma digit_not_sign:
  assumes "d < 16"
  shows "\<not> isspace (digit_char d)" "digit_char d \<noteq> CHR ''-''" "digit_char d \<noteq> CHR ''+''"
    "digit_char d \<noteq> CHR ''x''" "digit_char d \<noteq> CHR ''X''" "digit_char d = CHR ''0'' \<longleftrightarrow> d = 0"
proof -
  have inj: "digit_char d = c \<longleftrightarrow> of_char (digit_char d) = (of_char c :: nat)" for c by simp
  show "\<not> isspace (digit_char d)" using assms by (simp add: isspace_def of_char_digit)
  show "digit_char d \<noteq> CHR ''-''" "digit_char d \<noteq> CHR ''+''" "digit_char d \<noteq> CHR ''x''"
    "digit_char d \<noteq> CHR ''X''" "digit_char d = CHR ''0'' \<longleftrightarrow> d = 0"
    unfolding inj of_char_digit [OF assms] using assms by auto
qed

lemma magnitude_shown:
  "magnitude (show_number 10 n) = n" "magnitude (''0x'' @ show_number 16 n) = n"
proof -
  obtain d cs where s: "show_number 10 n = digit_char d # cs" "d < 10" "0 < n \<longrightarrow> 0 < d"
    "digit_string 10 (show_number 10 n)" "number 10 (show_number 10 n) = n"
    using show_number_digits [of 10 n] by auto
  have x: "take 2 (digit_char d # cs) \<notin> {''0x'', ''0X''}"
  proof (cases cs)
    case (Cons e es)
    obtain k where "k < 10" "e = digit_char k" using s(4) by (auto simp: s(1) Cons digit_string_def)
    then show ?thesis using digit_not_sign(4,5) [of k] by (simp add: Cons)
  qed simp
  show "magnitude (show_number 10 n) = n"
  proof (cases "n = 0")
    case True
    then have "show_number 10 n = ''0''" using digit_not_sign(6) [of 0] by (simp add: show_number.simps)
    then show ?thesis using True by (simp add: magnitude_def number_def digit_value_def)
  next
    case False
    then have "take 1 (show_number 10 n) \<noteq> ''0''" using s(1-3) digit_not_sign(6) [of d] by simp
    then show ?thesis using x s(5) by (simp add: magnitude_def s(1))
  qed
  show "magnitude (''0x'' @ show_number 16 n) = n"
    using show_number_digits [of 16 n] by (simp add: magnitude_def)
qed

lemma strtol_unsigned:
  assumes "s = digit_char d # cs" and "d < 16"
  shows "strtol w s = min (2 ^ (w - 1) - 1) (int (magnitude s))"
proof -
  have "(0 :: int) \<le> 2 ^ (w - 1) - 1" by simp
  then have "max (- (2 ^ (w - 1))) (min (2 ^ (w - 1) - 1) (int k)) = min (2 ^ (w - 1) - 1) (int k)" for k
    by linarith
  moreover have "take 1 (digit_char d # cs) = [digit_char d]" by simp
  ultimately show ?thesis
    using digit_not_sign [OF assms(2)] by (simp add: strtol_def assms(1) del: One_nat_def)
qed

lemma strtol_shown:
  "strtol w (show_number 10 n) = min (2 ^ (w - 1) - 1) (int n)"
  "strtol w (''0x'' @ show_number 16 n) = min (2 ^ (w - 1) - 1) (int n)"
proof -
  obtain d cs where "show_number 10 n = digit_char d # cs" "d < 10"
    using show_number_digits [of 10 n] by auto
  from strtol_unsigned [OF this(1), of w] this(2) show "strtol w (show_number 10 n) = min (2 ^ (w - 1) - 1) (int n)"
    by (simp add: magnitude_shown)
  have "''0x'' @ show_number 16 n = digit_char 0 # ''x'' @ show_number 16 n"
    using digit_not_sign(6) [of 0] by simp
  from strtol_unsigned [OF this, of w] show "strtol w (''0x'' @ show_number 16 n) = min (2 ^ (w - 1) - 1) (int n)"
    unfolding magnitude_shown by simp
qed

section \<open>Properties\<close>

text \<open>
  C31. The arguments of the options for token and customer id: a number in decimal, or in
  hexadecimal behind \<open>0x\<close>, is taken over as it is up to the greatest \<open>long\<close> and cut to that
  value above; the token then keeps the low 32 bits and the customer id the low 8. With a 64-bit
  \<open>long\<close> every 32-bit token is read exactly; with a 32-bit one the upper half of the tokens
  becomes \<open>0x7fffffff\<close>.
\<close>
theorem number_options:
  "token (parse_options w (args @ [(CHR ''t'', show_number 10 n)])) = of_int (min (2 ^ (w - 1) - 1) (int n)) \<and>
   token (parse_options w (args @ [(CHR ''t'', ''0x'' @ show_number 16 n)])) = of_int (min (2 ^ (w - 1) - 1) (int n)) \<and>
   customerId (parse_options w (args @ [(CHR ''c'', show_number 10 n)])) = of_int (min (2 ^ (w - 1) - 1) (int n)) \<and>
   customerId (parse_options w (args @ [(CHR ''c'', ''0x'' @ show_number 16 n)])) = of_int (min (2 ^ (w - 1) - 1) (int n))"
  unfolding parse_options_snoc apply_option_def Let_def prod.case strtol_shown by simp

text \<open>What acceptable arguments ask for: a reset before anything else, reading before writing.\<close>

definition asked :: "char \<Rightarrow> (char \<times> string) list \<Rightarrow> bool" where
  "asked c args \<longleftrightarrow> (\<exists>a \<in> set args. fst a = c)"

definition asked_branch ::
    "'w libusb \<Rightarrow> iface \<Rightarrow> locals \<Rightarrow> ExecutionOptions \<Rightarrow> (char \<times> string) list \<Rightarrow> ('w, shown list) io" where
  "asked_branch usb d loc opt args =
     (if asked (CHR ''R'') args then io_bind (iface_reset usb d) (\<lambda>_. io_return [])
      else if asked (CHR ''r'') args then read_branch usb d loc
      else if asked (CHR ''p'') args then write_branch usb d loc opt
      else io_return [Help None])"

definition refusal :: "(char \<times> string) list \<Rightarrow> string option" where
  "refusal args =
     (if \<exists>a \<in> set args. \<not> known_letter (fst a) then None
      else if \<exists>a \<in> set args. fst a = CHR ''m'' \<and> snd a \<in> {''manchester'', ''biphase''} then Some ''Unknown bitrate''
      else Some ''Unknown modulation!'')"

lemma check_refusal: "\<not> acceptable args \<Longrightarrow> check_options (parse_options w args) = Some (refusal args)"
proof -
  have m: "modulation_option s \<noteq> None \<longleftrightarrow> s \<in> {''manchester'', ''biphase''}" for s
    by (simp add: modulation_option_def)
  have b: "bitrate_option s \<noteq> None \<longleftrightarrow> s \<in> {''16'', ''32'', ''64''}" for s
    by (simp add: bitrate_option_def)
  show "\<not> acceptable args \<Longrightarrow> check_options (parse_options w args) = Some (refusal args)"
    unfolding acceptable_def refusal_def m [symmetric] b [symmetric] options_seen(5,6) [of w, symmetric]
      options_seen(2) [of w, symmetric] options_seen(1) [of w, symmetric]
    using options_seen(1) [of w args] by (auto simp: check_options_def)
qed

lemma run_branch_asked: "run_branch usb d loc (parse_options w args) = asked_branch usb d loc (parse_options w args) args"
  by (simp add: run_branch_def asked_branch_def asked_def options_seen)

text \<open>
  C30. The arguments decide what the program does. They are acceptable exactly when every option is
  a known one other than the help (\<open>h\<close> and unknown options show the help), and, if a tag is to be
  written, some argument of \<open>m\<close> names a modulation and some argument of \<open>b\<close> a bit rate. Then the
  program opens the reader, reads its version and does what is asked: it resets the reader,
  reads a tag, writes one, or shows its help, in this order of precedence. An exception ends it
  with its message and -1, anything else with 0. With other arguments it shows the help, with the
  message for the first check that failed, does nothing with the reader and returns -1.
\<close>
theorem options_checked:
  "tool_main w usb busses loc args world =
     (if acceptable args then
        map_option (\<lambda>(world, r). case r of Inl e \<Rightarrow> (world, -1, [Failed e]) | Inr out \<Rightarrow> (world, 0, out))
          (io_bind (InterfaceUsbImpl usb busses) (\<lambda>d.
           io_bind (getVersion d) (\<lambda>v.
           io_bind (io_try v) (\<lambda>_.
           asked_branch usb d loc (parse_options w args) args))) world)
      else Some (world, -1, [Help (refusal args)]))"
proof (cases "acceptable args")
  case True
  then have "check_options (parse_options w args) = None" by (simp add: acceptable_checked [symmetric])
  then show ?thesis
    using True
    by (simp add: tool_main_def try_block_def run_branch_asked Let_def split: option.split sum.split prod.split)
next
  case False
  then show ?thesis by (simp add: tool_main_def check_refusal)
qed

text \<open>
  Without a reader on the bus the program ends with the message of
  \<open>NotConnectedException\<close> and -1, whatever it was asked to do, and no request is sent.
\<close>
lemma no_reader:
  assumes "find_device busses = Some False" and "check_options (parse_options w args) = None"
  shows "tool_main w usb busses loc args world = Some (world, -1, [Failed NotConnectedException])"
  using assms
  by (simp add: tool_main_def try_block_def InterfaceUsbImpl_def io_bind_def io_try_def io_return_def
      getVersion_def checkConnection_def iface_zero_def io_throw_def)

lemma no_reader_example:
  "tool_main 64 usb_accepting [[], []] undefined [(CHR ''r'', [])] () =
     Some ((), -1, [Failed NotConnectedException])"
proof (rule no_reader)
  show "find_device [[], []] = Some False" by (simp add: find_on_bus_Nil)
  have "\<not> showHelp (parse_options 64 [(CHR ''r'', [])])" "\<not> write (parse_options 64 [(CHR ''r'', [])])"
    by (simp_all add: options_seen known_letter_def)
  then show "check_options (parse_options 64 [(CHR ''r'', [])]) = None" by (simp add: check_options_def)
qed

end
