(* ===== verification/Fw_Transfers.thy ===== *)
theory Fw_Transfers
  imports Fw_System
begin

unbundle bit_operations_syntax

text \<open>
  Whole transfers of the firmware that wait for an edge, the only kind the host tool starts: the
  main loop starts the converter, the sampler waits for the edge, one of the two interrupt
  handlers does the transfer, and the main loop ends it. What the transfer does not touch is
  collected in one relation, which every step preserves.
\<close>

section \<open>What a transfer leaves alone\<close>

definition kept :: "fw \<Rightarrow> fw \<Rightarrow> bool" where
  "kept s s' \<longleftrightarrow>
     usb s' = usb s \<and> response s' = response s \<and> sampleVector s' = sampleVector s \<and>
     length (ioBuffer s') = length (ioBuffer s) \<and> command s' = command s \<and>
     ioBufferOffset s' = ioBufferOffset s \<and> transferId (ctx s') = transferId (ctx s) \<and>
     thresholds s' = thresholds s"

named_theorems keeps "a step of a transfer keeps what \<open>kept\<close> says"

lemma kept_refl [simp]: "kept s s"
  by (simp add: kept_def)

lemma kept_trans [trans]: "kept s t \<Longrightarrow> kept t r \<Longrightarrow> kept s r"
  by (simp add: kept_def)

lemma kept_usb_ok: "kept s s' \<Longrightarrow> usb_ok s \<Longrightarrow> usb_ok s'"
  by (rule usb_ok_cong [of s' s]) (simp_all add: kept_def)

lemma kept_transfer_step [keeps]: "kept s (transfer_step s)"
  by (simp add: kept_def transfer_step_same)
    (simp add: thresholds_def transfer_step_def start_transfer_def finish_transfer_def Let_def split: State.split)

lemma kept_sampled [keeps]: "kept s (sampled v s)"
  by (simp add: kept_def thresholds_def)

lemma kept_wait [keeps]: "kept s (adc_wait_condition old s)"
  by (simp add: kept_def wait_same) (simp add: thresholds_def adc_wait_condition_def Let_def)

lemma kept_store [keeps]: "kept s (store_sample s)"
  by (simp add: kept_def store_same) (simp add: thresholds_def store_sample_def Let_def)

lemma kept_adc_sample: "adc_sample v s = Some s' \<Longrightarrow> kept s s'"
  using kept_trans [OF kept_sampled kept_wait] kept_trans [OF kept_sampled kept_store]
  by (auto simp: adc_sample_eq adc_store_eq split: if_splits)

lemma kept_adc_run [keeps]: "adc_run vs s = Some s' \<Longrightarrow> kept s s'"
proof (induction vs arbitrary: s)
  case (Cons v vs)
  then obtain t where "adc_sample v s = Some t" "adc_run vs t = Some s'"
    by (auto split: bind_splits)
  then show ?case using Cons.IH kept_adc_sample kept_trans by blast
qed simp

lemma kept_TIMER0: "TIMER0_COMPA_vect s = Some s' \<Longrightarrow> kept s s'"
  by (auto simp: TIMER0_COMPA_vect_def stopTx_def kept_def thresholds_def Let_def split: if_splits bind_splits)

lemma kept_tx_run [keeps]: "tx_run n s = Some (ps, s') \<Longrightarrow> kept s s'"
proof (induction n arbitrary: s ps)
  case (Suc n)
  then obtain t where t: "TIMER0_COMPA_vect s = Some t" by (auto split: bind_splits)
  show ?case
  proof (cases "fw_state t = STATE_FINISHED")
    case True
    then show ?thesis using Suc.prems t kept_TIMER0 by auto
  next
    case False
    then obtain qs where "tx_run n t = Some (qs, s')" using Suc.prems t by (auto split: bind_splits)
    then show ?thesis using Suc.IH kept_TIMER0 [OF t] kept_trans by blast
  qed
qed simp

lemma tx_run_ctx: "tx_run n s = Some (ps, s') \<Longrightarrow> timedOut (ctx s') = timedOut (ctx s)"
proof (induction n arbitrary: s ps)
  case (Suc n)
  then obtain t where t: "TIMER0_COMPA_vect s = Some t" by (auto split: bind_splits)
  have "timedOut (ctx t) = timedOut (ctx s)"
    using t by (auto simp: TIMER0_COMPA_vect_def stopTx_def Let_def split: if_splits bind_splits)
  then show ?case using Suc t by (auto split: bind_splits if_splits)
qed simp

section \<open>Time\<close>

text \<open>
  Timer 0 counts the carrier: one tick is \<open>CARRIER_US\<close>, 8 microseconds. It is compared with
  \<open>OCR0A\<close> and starts again at 0 after a match, so matches are \<open>OCR0A + 1\<close> ticks apart, and the
  first one comes \<open>OCR0A - TCNT0 + 1\<close> ticks after the prescaler was started. The compare match
  starts a conversion or calls the handler of the timer. \<open>adc_for t d vs\<close> and \<open>tx_for t d\<close> are the
  handlers' work in \<open>t\<close> ticks of which the first match takes \<open>d + 1\<close>; they stop early when the state
  changes. The time a conversion or a handler takes is not counted: it does not add up over the
  matches, and the main loop's reaction time, which the callers subtract, is meant to include it.
  The first conversion of a wait starts with the converter itself; it is counted as if it waited
  for the first match.
\<close>

definition reload :: "fw \<Rightarrow> nat" where
  "reload s = unat (OCR0A (hw s))"

definition first_match :: "fw \<Rightarrow> nat" where
  "first_match s = unat (OCR0A (hw s)) - unat (TCNT0 (hw s))"

fun adc_for :: "nat \<Rightarrow> nat \<Rightarrow> u8 list \<Rightarrow> fw \<Rightarrow> (nat \<times> fw) option" where
  "adc_for t d [] s = Some (t, s)"
| "adc_for t d (v # vs) s =
     (if t \<le> d then Some (0, s)
      else do {
        s' \<leftarrow> adc_sample v s;
        if fw_state s' = fw_state s then adc_for (t - Suc d) (reload s') vs s' else Some (t - Suc d, s')
      })"

function tx_for :: "nat \<Rightarrow> nat \<Rightarrow> fw \<Rightarrow> (pulse list \<times> fw) option" where
  "tx_for t d s =
     (if t \<le> d then Some ([], s)
      else do {
        s' \<leftarrow> TIMER0_COMPA_vect s;
        if fw_state s' = STATE_FINISHED then Some ([], s')
        else do {
          (ps, r) \<leftarrow> tx_for (t - Suc d) (reload s') s';
          Some (emitted s' # ps, r)
        }
      })"
  by pat_completeness auto

termination by (relation "measure fst") auto

declare tx_for.simps [simp del]

text \<open>
  A transfer in the \<open>t\<close> ticks the host leaves for it, with the pulses it sends: \<open>vs\<close> are the
  converter's results while the firmware waits for its start condition, \<open>ws\<close> those it stores.
\<close>

definition transfer_for :: "nat \<Rightarrow> u8 list \<Rightarrow> u8 list \<Rightarrow> fw \<Rightarrow> (pulse list \<times> fw) option" where
  "transfer_for t vs ws s = do {
     let s = transfer_step s;
     (t, s) \<leftarrow> (if fw_state s = STATE_WAIT_CONDITION then adc_for t (first_match s) vs s else Some (t, s));
     (ps, s) \<leftarrow> (if fw_state s = STATE_TX then tx_for t (first_match s) s
               else if fw_state s = STATE_RX then map_option (\<lambda>(t, s). ([], s)) (adc_for t (first_match s) ws s)
               else Some ([], s));
     Some (ps, transfer_step s)
   }"

text \<open>The ticks that pulses take, one after the other.\<close>

definition ticks :: "pulse list \<Rightarrow> nat" where
  "ticks ps = sum_list (map (\<lambda>p. unat (snd p) + 1) ps)"

lemma ticks_simps [simp]: "ticks [] = 0" "ticks (p # ps) = unat (snd p) + 1 + ticks ps"
  by (simp_all add: ticks_def)

lemma ticks_append: "ticks (ps @ qs) = ticks ps + ticks qs"
  by (simp add: ticks_def)

lemma kept_adc_for: "adc_for t d vs s = Some (t', s') \<Longrightarrow> kept s s'"
proof (induction vs arbitrary: t d s)
  case (Cons v vs)
  then show ?case
    using kept_adc_sample kept_trans by (fastforce split: if_splits bind_splits)
qed simp

text \<open>With enough time the timed transmission is the whole one; with less, it is still under way.\<close>

lemma tx_for_enough:
  assumes "tx_run n s = Some (ps, s')" and "fw_state s \<noteq> STATE_FINISHED" and "fw_state s' = STATE_FINISHED"
    and "d + 1 + ticks ps \<le> t"
  shows "tx_for t d s = Some (ps, s')"
  using assms
proof (induction n arbitrary: s ps d t)
  case (Suc n)
  then obtain r where r: "TIMER0_COMPA_vect s = Some r" by (auto split: bind_splits)
  show ?case
  proof (cases "fw_state r = STATE_FINISHED")
    case True
    then show ?thesis using Suc.prems r by (simp add: tx_for.simps [of t])
  next
    case False
    then obtain qs where qs: "tx_run n r = Some (qs, s')" "ps = emitted r # qs"
      using Suc.prems(1) r by (auto split: bind_splits)
    have "tx_for (t - Suc d) (reload r) r = Some (qs, s')"
      using Suc.prems(3,4) qs(2) by (intro Suc.IH [OF qs(1) False]) (simp_all add: reload_def emitted_def)
    then show ?thesis using Suc.prems(4) r False qs(2) by (simp add: tx_for.simps [of t])
  qed
qed simp

lemma tx_for_short:
  assumes "tx_run n s = Some (ps, s')" and "fw_state s = STATE_TX" and "fw_state s' = STATE_FINISHED"
    and "t < d + 1 + ticks ps"
  shows "\<exists>k r. tx_for t d s = Some (take k ps, r) \<and> fw_state r = STATE_TX \<and> kept s r"
  using assms
proof (induction n arbitrary: s ps d t)
  case (Suc n)
  then obtain r where r: "TIMER0_COMPA_vect s = Some r" by (auto split: bind_splits)
  show ?case
  proof (cases "t \<le> d")
    case True
    then have "tx_for t d s = Some (take 0 ps, s)" by (simp add: tx_for.simps [of t])
    then show ?thesis using Suc.prems(2) kept_refl by blast
  next
    case False
    note late = this
    show ?thesis
    proof (cases "fw_state r = STATE_FINISHED")
      case True
      then show ?thesis using Suc.prems r late by simp
    next
      case False
      then obtain qs where qs: "tx_run n r = Some (qs, s')" "ps = emitted r # qs"
        using Suc.prems(1) r by (auto split: bind_splits)
      have tx: "fw_state r = STATE_TX"
        using r False Suc.prems(2) by (auto simp: TIMER0_COMPA_vect_def Let_def split: if_splits bind_splits)
      have "t - Suc d < reload r + 1 + ticks qs"
        using Suc.prems(4) qs(2) late by (simp add: reload_def emitted_def)
      from Suc.IH [OF qs(1) tx Suc.prems(3) this] obtain k q where
        q: "tx_for (t - Suc d) (reload r) r = Some (take k qs, q)" "fw_state q = STATE_TX" "kept r q"
        by blast
      then have "tx_for t d s = Some (take (Suc k) ps, q)"
        using late r False qs(2) by (simp add: tx_for.simps [of t])
      then show ?thesis using q(2,3) kept_TIMER0 [OF r] kept_trans by blast
    qed
  qed
qed simp

text \<open>The wait for the edge takes four ticks a sample.\<close>

lemma adc_for_wait:
  assumes "fw_state s = STATE_WAIT_CONDITION" and "edge_after s vs = Some i" and "length vs = Suc i"
    and "i \<le> unat (timeout (ctx s))" and "adc_run vs s = Some r"
  shows "if Suc (reload s) * length vs \<le> t
     then adc_for t (reload s) vs s = Some (t - Suc (reload s) * length vs, r)
     else \<exists>q. adc_for t (reload s) vs s = Some (0, q) \<and> fw_state q = STATE_WAIT_CONDITION"
  using assms
proof (induction vs arbitrary: s i t)
  case (Cons v vs)
  let ?s = "wait_longer (sampled v s)"
  show ?case
  proof (cases "edge_after s [v] = Some 0")
    case True
    then have "i = 0" using Cons.prems(2) by (simp add: edge_after_Cons [of s v vs])
    then have "vs = []" using Cons.prems(3) by simp
    moreover have "fw_state (begin_transfer (sampled v s)) \<noteq> STATE_WAIT_CONDITION"
      by (simp add: begin_transfer_def Let_def)
    ultimately show ?thesis
      using True Cons.prems(1,5) by (auto simp: adc_sample_wait)
  next
    case False
    then obtain j where j: "i = Suc j" "edge_after ?s vs = Some j"
      using Cons.prems(2) by (auto simp: edge_after_Cons [of s v vs])
    then have m: "timeout (ctx s) \<noteq> 0" using Cons.prems(4) by auto
    have step: "adc_sample v s = Some ?s" using Cons.prems(1) False m by (simp add: adc_sample_wait)
    let ?p = "Suc (reload s)"
    have re: "reload ?s = reload s" by (simp add: reload_def sampled_def TIFR_or_def write_TIFR_def)
    have "unat (timeout (ctx s) - 1) = unat (timeout (ctx s)) - 1" using m by (simp add: unat_minus_one)
    then have "j \<le> unat (timeout (ctx ?s))" using Cons.prems(4) j(1) by simp
    moreover have "adc_run vs ?s = Some r" using Cons.prems(5) step by simp
    ultimately have IH: "if ?p * length vs \<le> t - ?p
       then adc_for (t - ?p) (reload s) vs ?s = Some (t - ?p - ?p * length vs, r)
       else \<exists>q. adc_for (t - ?p) (reload s) vs ?s = Some (0, q) \<and> fw_state q = STATE_WAIT_CONDITION"
      using Cons.IH [of ?s j "t - ?p", unfolded re] Cons.prems(1,3) j by auto
    show ?thesis
    proof (cases "t \<le> reload s")
      case True
      then show ?thesis using Cons.prems(1) by auto
    next
      case False
      then have "adc_for t (reload s) (v # vs) s = adc_for (t - ?p) (reload s) vs ?s"
        using step Cons.prems(1) by (simp add: re)
      moreover have "?p * length vs \<le> t - ?p \<longleftrightarrow> ?p * length (v # vs) \<le> t" using False by auto
      moreover have "t - ?p - ?p * length vs = t - ?p * length (v # vs)" by simp
      ultimately show ?thesis using IH by (simp del: mult_Suc mult_Suc_right)
    qed
  qed
qed simp

lemma edge_starts_timer:
  assumes "fw_state s = STATE_WAIT_CONDITION" and "edge_after s vs = Some i" and "length vs = Suc i"
    and "i \<le> unat (timeout (ctx s))" and "adc_run vs s = Some r"
  shows "OCR0A (hw r) = prescalerValue (ctx s) - 1 \<and>
     TCNT0 (hw r) = (if prescalerCompOnStart (ctx s) \<and> 2 < prescalerValue (ctx s) then prescalerValue (ctx s) - 2 else 0)"
  using assms
proof (induction vs arbitrary: s i)
  case (Cons v vs)
  let ?s = "wait_longer (sampled v s)"
  show ?case
  proof (cases "edge_after s [v] = Some 0")
    case True
    then have "i = 0" using Cons.prems(2) by (simp add: edge_after_Cons [of s v vs])
    then have "vs = []" using Cons.prems(3) by simp
    then show ?thesis
      using True Cons.prems(1,5) by (auto simp: adc_sample_wait begin_transfer_def hw_defs Let_def)
  next
    case False
    then obtain j where j: "i = Suc j" "edge_after ?s vs = Some j"
      using Cons.prems(2) by (auto simp: edge_after_Cons [of s v vs])
    then have m: "timeout (ctx s) \<noteq> 0" using Cons.prems(4) by auto
    then have "unat (timeout (ctx s) - 1) = unat (timeout (ctx s)) - 1" by (simp add: unat_minus_one)
    then show ?thesis
      using Cons.IH [of ?s j] Cons.prems j False m by (simp add: adc_sample_wait wait_longer_def)
  qed
qed simp

text \<open>A reception that has the time for its samples stores them all.\<close>

lemma adc_for_records:
  assumes "fw_state s = STATE_RX" and "length (ioBuffer s) = SAMPLE_BUFFER_SIZE"
    and "unat (opOffset s) + length vs = unat (opLength s)" and "unat (opLength s) \<le> 8 * SAMPLE_BUFFER_SIZE"
    and "adc_run vs s = Some r" and "vs \<noteq> []" and "Suc d + (length vs - 1) * Suc (reload s) \<le> t"
  shows "\<exists>t'. adc_for t d vs s = Some (t', r)"
  using assms
proof (induction vs arbitrary: s t d)
  case (Cons v vs)
  let ?s = "store_sample (sampled v s)"
  have off: "unat (opOffset s) < 8 * SAMPLE_BUFFER_SIZE" using Cons.prems(3,4) by simp
  note sample = adc_sample_records [OF Cons.prems(1,2) off, of v]
  have re: "reload ?s = reload s"
    by (simp add: reload_def store_sample_def Let_def sampled_def TIFR_or_def write_TIFR_def prescallerStop_def)
  show ?case
  proof (cases "vs = []")
    case True
    then show ?thesis using sample(1) Cons.prems(5,7) by auto
  next
    case False
    then obtain w ws where w: "vs = w # ws" by (cases vs) auto
    have rx: "fw_state ?s = STATE_RX" using sample(4) Cons.prems(3) w by auto
    have "\<exists>t'. adc_for (t - Suc d) (reload ?s) vs ?s = Some (t', r)"
      using Cons.prems sample w rx by (intro Cons.IH [OF rx]) (auto simp: re)
    then show ?thesis using sample(1) rx Cons.prems(1,7) by simp
  qed
qed simp

section \<open>A transmission and a reception\<close>

text \<open>The wait ends with the last sample of \<open>vs\<close>, within the time limit of the request.\<close>

definition edge_in_time :: "u8 list \<Rightarrow> fw \<Rightarrow> bool" where
  "edge_in_time vs s \<longleftrightarrow>
     (\<exists>i. edge_after (start_transfer s) vs = Some i \<and> length vs = Suc i \<and> i \<le> unat (timeout (ctx s)))"

definition awaits_edge :: "fw \<Rightarrow> bool" where
  "awaits_edge s \<longleftrightarrow> fw_state s = STATE_STARTING \<and> edgeStart (ctx s) \<and> \<not> timedOut (ctx s)"

text \<open>The converter at its highest value reads as the end of a low signal, at once.\<close>

lemma edge_at_once: "fallingEdge (ctx s) \<Longrightarrow> edge_in_time [255] s"
proof -
  have "adcHiVal s \<le> 255" using unat_u8_less [of "adcHiVal s"] by (simp add: word_le_nat_alt)
  then show "fallingEdge (ctx s) \<Longrightarrow> edge_in_time [255] s"
    by (simp add: edge_in_time_def edge_after_def start_transfer_simps edge_def comparator_def Let_def)
qed

lemma starts_on_edge:
  assumes "awaits_edge s" and "edge_in_time vs s"
  obtains r where "adc_run vs (transfer_step s) = Some r"
    "fw_state r = (if tx (ctx s) then STATE_TX else STATE_RX)" "\<not> timedOut (ctx r)"
    "opOffset r = 0" "opLength r = (if tx (ctx s) then 384 else 1536)"
    "ioBuffer r = ioBuffer s" "sampleVector r = sampleVector s"
    "adcHiVal r = adcHiVal s" "adcLowVal r = adcLowVal s" "fallingEdge (ctx s) \<longrightarrow> adcLastSignal r = 0"
proof -
  let ?s = "start_transfer s"
  have s: "fw_state s = STATE_STARTING" "edgeStart (ctx s)" "\<not> timedOut (ctx s)"
    using assms(1) by (simp_all add: awaits_edge_def)
  have w: "fw_state ?s = STATE_WAIT_CONDITION" using s by (simp add: start_transfer_simps)
  obtain i where i: "edge_after ?s vs = Some i" "length vs = Suc i" "i \<le> unat (timeout (ctx ?s))"
    using assms(2) by (auto simp: edge_in_time_def start_transfer_simps)
  have "take (Suc i) vs = vs" using i(2) by simp
  moreover have "transfer_step s = ?s" using s(1) by (simp add: transfer_step_def)
  ultimately show ?thesis
    using adc_run_edge [OF w i(1,3)] s(3) that by (auto simp: start_transfer_simps)
qed

lemma ends:
  assumes "fw_state r = STATE_FINISHED" and "\<not> timedOut (ctx r)"
  shows "fw_state (transfer_step r) = STATE_IDLE"
    "transfer_status (transfer_step r) = PROTO_TRANSFER_STATUS_OK" "quiet (hw (transfer_step r))"
    "ioBuffer (transfer_step r) = ioBuffer r"
  using assms by (simp_all add: transfer_step_def finish_transfer_simps transfer_status_def)

lemma start_transfer_timer:
  assumes "awaits_edge s"
  shows "first_match (start_transfer s) = 3" and "reload (start_transfer s) = 3"
  using assms
  by (simp_all add: awaits_edge_def first_match_def reload_def start_transfer_def hw_defs Let_def)

text \<open>The host's requests: a match every 8 ticks, and the first one at once.\<close>

definition host_clock :: "fw \<Rightarrow> bool" where
  "host_clock s \<longleftrightarrow> prescalerValue (ctx s) = 8 \<and> prescalerCompOnStart (ctx s)"

lemma wait_ends:
  assumes "awaits_edge s" and "edge_in_time vs s" and "host_clock s" and "adc_run vs (transfer_step s) = Some r"
  shows "if 4 * length vs \<le> t
     then adc_for t (first_match (transfer_step s)) vs (transfer_step s) = Some (t - 4 * length vs, r) \<and>
       first_match r = 1 \<and> reload r = 7
     else \<exists>q. adc_for t (first_match (transfer_step s)) vs (transfer_step s) = Some (0, q) \<and>
       fw_state q = STATE_WAIT_CONDITION"
proof -
  let ?s = "start_transfer s"
  have s: "transfer_step s = ?s" "fw_state ?s = STATE_WAIT_CONDITION"
    using assms(1) by (simp_all add: transfer_step_def awaits_edge_def start_transfer_simps)
  obtain i where i: "edge_after ?s vs = Some i" "length vs = Suc i" "i \<le> unat (timeout (ctx ?s))"
    using assms(2) by (auto simp: edge_in_time_def start_transfer_simps)
  have c: "prescalerValue (ctx ?s) = 8" "prescalerCompOnStart (ctx ?s)"
    using assms(3) by (simp_all add: host_clock_def start_transfer_def Let_def)
  have r: "adc_run vs ?s = Some r" using assms(4) s(1) by simp
  note t = start_transfer_timer [OF assms(1)]
  have "first_match r = 1" "reload r = 7"
    using edge_starts_timer [OF s(2) i r] c by (simp_all add: first_match_def reload_def)
  then show ?thesis using adc_for_wait [OF s(2) i r, of t, unfolded t] by (simp add: s(1) t(1))
qed

text \<open>A transfer after its wait; one that has not the time to wait is still in progress.\<close>

lemma transfer_waits:
  assumes "awaits_edge s" and "edge_in_time vs s" and "host_clock s" and "adc_run vs (transfer_step s) = Some r"
  shows "if 4 * length vs \<le> t
     then transfer_for t vs ws s = do {
       (ps, s) \<leftarrow> (if fw_state r = STATE_TX then tx_for (t - 4 * length vs) 1 r
                 else if fw_state r = STATE_RX
                 then map_option (\<lambda>(t, s). ([], s)) (adc_for (t - 4 * length vs) 1 ws r)
                 else Some ([], r));
       Some (ps, transfer_step s) }
     else \<exists>q. transfer_for t vs ws s = Some ([], q) \<and>
       transfer_status q = PROTO_TRANSFER_STATUS_IN_PROGRESS \<and> kept s q"
proof -
  let ?s = "transfer_step s"
  have w: "fw_state ?s = STATE_WAIT_CONDITION"
    using assms(1) by (simp add: transfer_step_def awaits_edge_def start_transfer_simps)
  note wait = wait_ends [OF assms, of t]
  show ?thesis
  proof (cases "4 * length vs \<le> t")
    case True
    then show ?thesis using wait w by (simp add: transfer_for_def Let_def)
  next
    case False
    then obtain q where q: "adc_for t (first_match ?s) vs ?s = Some (0, q)" "fw_state q = STATE_WAIT_CONDITION"
      using wait by auto
    then have "transfer_for t vs ws s = Some ([], q)"
      using w by (simp add: transfer_for_def transfer_step_def [of q] Let_def)
    moreover have "kept s q" using kept_transfer_step kept_adc_for [OF q(1)] kept_trans by blast
    ultimately show ?thesis using False q(2) by (simp add: transfer_status_def)
  qed
qed

text \<open>
  A transmission that has the time for its wait and its pulses sends them all and ends with the
  status OK; one that has not is still in progress and has sent the first pulses only.
\<close>

lemma transmission_ends:
  assumes "awaits_edge s" and "tx (ctx s)" and "edge_in_time vs s" and "host_clock s"
    and "length (sampleVector s) = 7" and "length (ioBuffer s) = 192"
    and prog: "prog = takeWhile (\<lambda>p. \<not> end_of_pulses p) (take 384 (nibbles_of_bytes (ioBuffer s)))"
    and ps: "ps = map (pulse_of (sampleVector s)) prog"
  shows "if 4 * length vs + 2 + ticks ps \<le> t
     then \<exists>s'. transfer_for t vs ws s = Some (ps, s') \<and> fw_state s' = STATE_IDLE \<and>
       transfer_status s' = PROTO_TRANSFER_STATUS_OK \<and> quiet (hw s') \<and> kept s s'
     else \<exists>k s'. transfer_for t vs ws s = Some (take k ps, s') \<and>
       transfer_status s' = PROTO_TRANSFER_STATUS_IN_PROGRESS \<and> kept s s'"
proof -
  obtain r where r: "adc_run vs (transfer_step s) = Some r" "fw_state r = STATE_TX" "\<not> timedOut (ctx r)"
    "opOffset r = 0" "opLength r = 384" "ioBuffer r = ioBuffer s" "sampleVector r = sampleVector s"
    by (rule starts_on_edge [OF assms(1,3)]) (use assms(2) in simp)
  have p: "pulse_program r = prog" by (simp add: prog pulse_program_def r)
  obtain q where q: "tx_run (Suc (length prog)) r = Some (ps, q)" "fw_state q = STATE_FINISHED"
    using tx_run_plays [of r "Suc (length prog)"] assms(5,6) r p ps by auto
  have k: "kept s r" using kept_transfer_step kept_adc_run [OF r(1)] kept_trans by blast
  let ?t = "t - 4 * length vs"
  note wait = transfer_waits [OF assms(1,3,4) r(1), of t ws]
  consider "4 * length vs \<le> t" "2 + ticks ps \<le> ?t" | "4 * length vs \<le> t" "\<not> 2 + ticks ps \<le> ?t" | "\<not> 4 * length vs \<le> t"
    by blast
  then show ?thesis
  proof cases
    case 1
    then have "tx_for ?t 1 r = Some (ps, q)" by (intro tx_for_enough [OF q(1) _ q(2)]) (simp_all add: r(2))
    then have "transfer_for t vs ws s = Some (ps, transfer_step q)" using wait 1 r(2) by simp
    moreover have "\<not> timedOut (ctx q)" using tx_run_ctx [OF q(1)] r(3) by simp
    moreover have "kept s (transfer_step q)"
      using k kept_tx_run [OF q(1)] kept_transfer_step kept_trans by blast
    moreover have "4 * length vs + 2 + ticks ps \<le> t" using 1 by simp
    ultimately show ?thesis using ends [OF q(2)] by simp
  next
    case 2
    obtain i u where u: "tx_for ?t 1 r = Some (take i ps, u)" "fw_state u = STATE_TX" "kept r u"
      using tx_for_short [OF q(1) r(2) q(2), of ?t 1] 2 by auto
    then have "transfer_for t vs ws s = Some (take i ps, u)"
      using wait 2 r(2) by (simp add: transfer_step_def [of u])
    moreover have "kept s u" using k u(3) kept_trans by blast
    moreover have "transfer_status u = PROTO_TRANSFER_STATUS_IN_PROGRESS" using u(2) by (simp add: transfer_status_def)
    moreover have "\<not> 4 * length vs + 2 + ticks ps \<le> t" using 2 by simp
    ultimately show ?thesis by (simp only: if_False) blast
  next
    case 3
    then obtain u where "transfer_for t vs ws s = Some (take 0 ps, u)"
      "transfer_status u = PROTO_TRANSFER_STATUS_IN_PROGRESS" "kept s u" using wait by auto
    moreover have "\<not> 4 * length vs + 2 + ticks ps \<le> t" using 3 by simp
    ultimately show ?thesis by (simp only: if_False) blast
  qed
qed

lemma reception_ends:
  assumes "awaits_edge s" and "\<not> tx (ctx s)" and "fallingEdge (ctx s)" and "edge_in_time vs s" and "host_clock s"
    and "length (ioBuffer s) = 192" and "length ws = 1536" and "4 * length vs + 12282 \<le> t"
  shows "\<exists>s'. transfer_for t vs ws s = Some ([], s') \<and>
     fw_state s' = STATE_IDLE \<and> transfer_status s' = PROTO_TRANSFER_STATUS_OK \<and> quiet (hw s') \<and> kept s s' \<and>
     bits_of_bytes (ioBuffer s') = map (\<lambda>l. l \<noteq> 0) (levels (adcHiVal s) (adcLowVal s) 0 ws)"
proof -
  obtain r where r: "adc_run vs (transfer_step s) = Some r" "fw_state r = STATE_RX" "\<not> timedOut (ctx r)"
    "opOffset r = 0" "opLength r = 1536" "ioBuffer r = ioBuffer s"
    "adcHiVal r = adcHiVal s" "adcLowVal r = adcLowVal s" "adcLastSignal r = 0"
    by (rule starts_on_edge [OF assms(1,4)]) (use assms(2,3) in simp)
  have "ws \<noteq> []" using assms(7) by auto
  then obtain q where q: "adc_run ws r = Some q" "fw_state q = STATE_FINISHED"
    "bits_of_bytes (ioBuffer q) = map (\<lambda>l. l \<noteq> 0) (levels (adcHiVal s) (adcLowVal s) 0 ws)"
    using adc_run_records [OF r(2), of ws] r assms(6,7) by auto
  have "timedOut (ctx q) = timedOut (ctx r)"
    by (rule adc_run_timedOut [OF r(2) q(1)]) (use q r assms in simp_all)
  then have "\<not> timedOut (ctx q)" using r(3) by simp
  moreover have "transfer_for t vs ws s = Some ([], transfer_step q)"
  proof -
    have "4 * length vs \<le> t" "12282 \<le> t - 4 * length vs" using assms(8) by simp_all
    moreover have "reload r = 7" using wait_ends [OF assms(1,4,5) r(1), of t] calculation(1) by simp
    ultimately have "\<exists>t'. adc_for (t - 4 * length vs) 1 ws r = Some (t', q)"
      by (intro adc_for_records [OF r(2) _ _ _ q(1) \<open>ws \<noteq> []\<close>]) (simp_all add: r(4-6) assms(6,7))
    then show ?thesis
      using transfer_waits [OF assms(1,4,5) r(1), of t ws] \<open>4 * length vs \<le> t\<close> r(2) by auto
  qed
  moreover have "kept s (transfer_step q)"
    using kept_transfer_step kept_adc_run [OF r(1)] kept_adc_run [OF q(1)] kept_trans by blast
  ultimately show ?thesis using ends [OF q(2)] q(3) by simp
qed

end
