(* ===== verification/Tool_System.thy ===== *)
theory Tool_System
  imports Interface_Usb Usb_Control Fw_Transfers
begin

unbundle bit_operations_syntax

text \<open>
  The host tool connected to the firmware. A control message of the host library is carried out
  on the bus of \<open>Usb_Control\<close>: setup packet, data packets with their checksums and PIDs,
  handshakes, all handled by the modelled driver and firmware. The contract that \<open>Interface_Usb\<close>
  states for the device is discharged here for the firmware. While the host sleeps, the firmware
  does the transfer, as far as it gets in the time of the sleep.
\<close>

section \<open>The firmware behind libusb\<close>

text \<open>
  The state of the world: the firmware, and the pulses of every transmission so far. \<open>W\<close> is what
  happens while the host sleeps. 25 packets are enough for the largest answer, 192 bytes.
\<close>

type_synonym world = "fw \<times> pulse list list"

definition fw_libusb :: "u8 \<Rightarrow> (nat \<Rightarrow> world \<Rightarrow> world) \<Rightarrow> world libusb" where
  "fw_libusb addr W =
     \<lparr>ctl_in = (\<lambda>(s, log) c v i n.
        case control_in 25 addr (vendor_in c v i (of_nat n)) s of
          Some (ps, s') \<Rightarrow> (let m = concat (map payload ps) in ((s', log), int (length m), m))
        | None \<Rightarrow> ((s, log), -1, [])),
      ctl_out = (\<lambda>(s, log) c v i bs.
        case control_out addr (vendor_out c v i (of_nat (length bs))) bs s of
          Some s' \<Rightarrow> ((s', log), int (length bs))
        | None \<Rightarrow> ((s, log), -1)),
      wait = W\<rparr>"

definition fw_ready :: "u8 \<Rightarrow> world \<Rightarrow> bool" where
  "fw_ready addr w \<longleftrightarrow> ready addr (fst w)"

text \<open>What no control message changes: what was sent, and the comparator's thresholds.\<close>

definition unmoved :: "world \<Rightarrow> (u8 \<times> u8) \<times> pulse list list" where
  "unmoved w = (thresholds (fst w), snd w)"

lemma fw_reply:
  assumes "ready addr s" and "\<not> buffer_command c" and "n < 65536"
    and rq_def: "rq = vendor_in c v i (of_nat n)"
  shows "\<exists>s'. ctl_in (fw_libusb addr W) (s, log) c v i n =
       ((s', log), int (length (take n (setup_reply rq s))), take n (setup_reply rq s)) \<and>
     ready addr s' \<and> ctx s' = ctx (setup_effect rq s) \<and> ioBuffer s' = ioBuffer s \<and> sampleVector s' = sampleVector s \<and>
     thresholds s' = thresholds s"
proof -
  have n: "unat (wLength rq) = n"
    using assms(3) by (simp add: rq_def vendor_in_def unat_of_nat)
  have r: "\<not> buffer_command (bRequest rq)" "bmRequestType rq AND USBRQ_TYPE_MASK \<noteq> USBRQ_TYPE_STANDARD"
    using assms(2) by (simp_all add: rq_def vendor_in_def)
  have "25 = Suc 24" by simp
  obtain s' where s': "control_in 25 addr rq s =
      Some (data_packets USBPID_DATA1 (take n (setup_reply rq s)), s')" "ready addr s'"
    "ctx s' = ctx (setup_effect rq s)" "ioBuffer s' = ioBuffer s" "sampleVector s' = sampleVector s"
    "thresholds s' = thresholds s"
    using control_in_reply [OF assms(1) r, of 24] unfolding n \<open>25 = Suc 24\<close> by blast
  then show ?thesis
    by (simp add: fw_libusb_def rq_def concat_data_packets)
qed

lemma fw_arrays: "ready addr s \<Longrightarrow> length (ioBuffer s) = 192 \<and> length (sampleVector s) = 7"
  by (simp add: ready_def usb_ok_def arrays_ok_def)

interpretation fw_dev: rfid_buffers "fw_libusb addr W" "fw_ready addr" unmoved "\<lambda>w. ioBuffer (fst w)"
    "\<lambda>w. sampleVector (fst w)"
  for addr W
proof
  fix w :: world and m :: "u8 list"
  assume "fw_ready addr w"
  moreover obtain s log where w: "w = (s, log)" by (cases w)
  ultimately have s: "ready addr s" by (simp add: fw_ready_def)
  show "\<exists>w'. ctl_in (fw_libusb addr W) w PROTO_CMD_GET_VERSION 0 0 3 = (w', 3, [PROTO_RC_OK, 0, 1]) \<and>
      fw_ready addr w' \<and> unmoved w' = unmoved w"
    using fw_reply [OF s _ _ refl, of PROTO_CMD_GET_VERSION 3 W log 0 0]
    by (auto simp: w unmoved_def fw_ready_def buffer_command_def setup_reply_def vendor_in_def)
  show "\<exists>w'. ctl_in (fw_libusb addr W) w PROTO_CMD_GET_BUFFER_SIZE 0 0 7 =
      (w', 7, [PROTO_RC_OK, 4, 1, 0, 192, 0, 7]) \<and> fw_ready addr w' \<and> unmoved w' = unmoved w"
    using fw_reply [OF s _ _ refl, of PROTO_CMD_GET_BUFFER_SIZE 7 W log 0 0]
    by (auto simp: w unmoved_def fw_ready_def buffer_command_def setup_reply_def vendor_in_def)
  have whole: "overwrite 0 m buf = m" if "length m = length buf" for buf :: "u8 list"
    using that by (simp add: overwrite_def)
  note a = fw_arrays [OF s]
  show "\<exists>w'. ctl_out (fw_libusb addr W) w PROTO_CMD_SAMPLE_VECTOR_WRITE 0 0 m = (w', 7) \<and> fw_ready addr w' \<and>
      sampleVector (fst w') = m \<and> unmoved w' = unmoved w" if "length m = 7"
    using control_out_writes [of s addr "vendor_out PROTO_CMD_SAMPLE_VECTOR_WRITE 0 0 7" m] s that whole a
    by (auto simp: w unmoved_def fw_ready_def ready_def vendor_out_def fw_libusb_def)
  show "\<exists>w'. ctl_out (fw_libusb addr W) w PROTO_CMD_PULSE_VECTOR_WRITE 0 0 m = (w', 192) \<and> fw_ready addr w' \<and>
      ioBuffer (fst w') = m \<and> sampleVector (fst w') = sampleVector (fst w) \<and> unmoved w' = unmoved w" if "length m = 192"
    using control_out_writes [of s addr "vendor_out PROTO_CMD_PULSE_VECTOR_WRITE 0 0 192" m] s that whole a
    by (auto simp: w unmoved_def fw_ready_def ready_def vendor_out_def fw_libusb_def)
  show "\<exists>w'. ctl_in (fw_libusb addr W) w PROTO_CMD_PULSE_VECTOR_READ 0 0 192 = (w', 192, ioBuffer (fst w)) \<and>
      fw_ready addr w' \<and> unmoved w' = unmoved w"
    using control_in_vector [OF s, of 4 "ioBuffer s" 192 25 0 0] a
    by (auto simp: w unmoved_def fw_ready_def fw_libusb_def concat_data_packets)
  show "length (ioBuffer (fst w)) = 192" using a by (simp add: w)
qed

section \<open>A transfer\<close>

definition start_request :: "u16 \<Rightarrow> u16 \<Rightarrow> usbRequest" where
  "start_request index value = vendor_in PROTO_CMD_TRANSFER_START value index 2"

text \<open>
  The firmware's transfer while the host sleeps for \<open>dur\<close> microseconds. Of this time the firmware
  has all but twice \<open>lat\<close>: its main loop takes up to \<open>lat\<close> microseconds to see a request and to see
  the end of a transfer. \<open>vs s\<close> are the converter's results until the edge, \<open>ws\<close> those after it.
\<close>

definition on_air :: "nat \<Rightarrow> (fw \<Rightarrow> u8 list) \<Rightarrow> u8 list \<Rightarrow> nat \<Rightarrow> world \<Rightarrow> world" where
  "on_air lat vs ws dur w =
     (let (s, log) = w
      in case transfer_for ((dur - 2 * lat) div 8) (vs s) ws s of
           Some (ps, s') \<Rightarrow> (s', if tx (ctx s) then log @ [ps] else log)
         | None \<Rightarrow> w)"

text \<open>
  Starting a transfer leaves the firmware in \<open>STATE_STARTING\<close> with the parameters of the request;
  after the sleep the host asks for the status of this transfer and goes by it.
\<close>

definition goes_by_status :: "u8 \<Rightarrow> (nat \<Rightarrow> world \<Rightarrow> world) \<Rightarrow> u16 \<Rightarrow> u16 \<Rightarrow> world \<Rightarrow> fw \<Rightarrow> bool" where
  "goes_by_status addr W index value w s1 \<longleftrightarrow>
     (\<forall>t log'. W 500000 (s1, snd w) = (t, log') \<and> ready addr t \<and> transferId (ctx t) = transferId (ctx s1) \<longrightarrow>
       (\<exists>s2. ready addr s2 \<and> ctx s2 = ctx t \<and> ioBuffer s2 = ioBuffer t \<and>
          run_transfer (fw_libusb addr W) reader_iface index value w =
            Some ((s2, log'), if transfer_status t = PROTO_TRANSFER_STATUS_OK then Inr ()
                      else Inl InvalidStateException)))"

lemma fw_run_transfer:
  assumes s: "ready addr s"
  shows "\<exists>s1. ready addr s1 \<and> ctx s1 = started_ctx (start_request index value) (ctx s) \<and>
    ioBuffer s1 = ioBuffer s \<and> sampleVector s1 = sampleVector s \<and> thresholds s1 = thresholds s \<and>
    goes_by_status addr W index value (s, log) s1"
proof -
  let ?usb = "fw_libusb addr W"
  let ?i = "transferId (ctx s) + 1"
  have nb: "\<not> buffer_command PROTO_CMD_TRANSFER_START" "\<not> buffer_command PROTO_CMD_TRANSFER_STATUS"
    by (simp_all add: buffer_command_def)
  obtain s1 where s1: "ctl_in ?usb (s, log) PROTO_CMD_TRANSFER_START value index 2 = ((s1, log), 2, [PROTO_RC_OK, ?i])"
    "ready addr s1" "ctx s1 = started_ctx (start_request index value) (ctx s)"
    "ioBuffer s1 = ioBuffer s" "sampleVector s1 = sampleVector s" "thresholds s1 = thresholds s"
    using fw_reply [OF s nb(1) _ refl, of 2 W log "value" index]
    by (auto simp: setup_reply_def setup_effect_def vendor_in_def start_request_def)
  have "\<exists>s2. ready addr s2 \<and> ctx s2 = ctx t \<and> ioBuffer s2 = ioBuffer t \<and>
      run_transfer ?usb reader_iface index value (s, log) =
        Some ((s2, log'), if transfer_status t = PROTO_TRANSFER_STATUS_OK then Inr () else Inl InvalidStateException)"
    if t: "W 500000 (s1, log) = (t, log')" "ready addr t" "transferId (ctx t) = transferId (ctx s1)" for t log'
  proof -
    have id: "transferId (ctx t) = ?i" using t(3) s1(3) by (simp add: started_ctx_def)
    let ?bs = "[transfer_status t, hi8 (opOffset t), lo8 (opOffset t)]"
    obtain s2 where s2: "ctl_in ?usb (t, log') PROTO_CMD_TRANSFER_STATUS 0 (ucast ?i) 4 = ((s2, log'), 4, PROTO_RC_OK # ?bs)"
      "ready addr s2" "ctx s2 = ctx t" "ioBuffer s2 = ioBuffer t"
      using fw_reply [OF t(2) nb(2) _ refl, of 4 W log' 0 "ucast ?i"] id
      by (auto simp: setup_reply_def setup_effect_def vendor_in_def buffer_command_def)
    have 1: "doTransferRx ?usb reader_iface 1 index value PROTO_CMD_TRANSFER_START True (s, log) = Some ((s1, log), Inr [?i])"
      using s1(1) by (intro doTransferRx_reply [OF connected_reader, where k = 2]) simp_all
    have 2: "doTransferRx ?usb reader_iface 3 (ucast ?i) 0 PROTO_CMD_TRANSFER_STATUS True (t, log') = Some ((s2, log'), Inr ?bs)"
      using s2(1) by (intro doTransferRx_reply [OF connected_reader, where k = 4]) simp_all
    have w: "wait ?usb (500 * 1000) (s1, log) = (t, log')" by (simp add: fw_libusb_def t(1))
    have "run_transfer ?usb reader_iface index value (s, log) =
        Some ((s2, log'), if transfer_status t = PROTO_TRANSFER_STATUS_OK then Inr () else Inl InvalidStateException)"
      unfolding run_transfer_def
      apply (rule io_step, rule 1)
      apply (rule io_step_try, simp add: rd_def)
      apply (rule io_step [where w' = "(t, log')" and x = "()"], simp only: w)
      apply (rule io_step, rule 2)
      apply (rule io_step_try, simp add: rd_def)
      apply (simp add: io_throw_def io_return_def)
      done
    then show ?thesis using s2 by blast
  qed
  then show ?thesis using s1(2-6) unfolding goes_by_status_def snd_conv by blast
qed

section \<open>What the transmitter plays\<close>

lemma end_of_pulses_index: "end_of_pulses v \<longleftrightarrow> unat (v AND 0x07) = 7"
  by (simp add: end_of_pulses_def word_unat_eq_iff)

lemma takeWhile_values:
  assumes u: "values_upto vs buf" and l: "length buf = 192" "length vs \<le> 384"
    and v: "\<forall>v \<in> set vs. \<not> end_of_pulses v"
  shows "takeWhile (\<lambda>p. \<not> end_of_pulses p) (take 384 (nibbles_of_bytes buf)) =
     vs @ (if odd (length vs) then [0] else [])"
proof -
  let ?pad = "if odd (length vs) then [0 :: u8] else []"
  have "take 384 (nibbles_of_bytes buf) = nibbles_of_bytes buf" using l(1) by simp
  also have "\<dots> = (vs @ ?pad) @ replicate (2 * ((2 * length buf - length vs) div 2)) 0x0f"
    using u by (simp add: values_upto_def)
  finally have n: "take 384 (nibbles_of_bytes buf) =
      (vs @ ?pad) @ replicate (2 * ((2 * length buf - length vs) div 2)) 0x0f" .
  have "\<forall>v \<in> set (vs @ ?pad). \<not> end_of_pulses v" using v by (auto simp: end_of_pulses_def)
  moreover have "takeWhile (\<lambda>p. \<not> end_of_pulses p) (replicate k 0x0f) = []" for k
    by (cases k) (simp_all add: end_of_pulses_def)
  ultimately show ?thesis unfolding n by (subst takeWhile_append2) auto
qed

text \<open>The level and compare value the transmitter should use for a sample.\<close>

definition played :: "sample \<Rightarrow> pulse" where
  "played s = (isHigh s, of_int (clocks_of s) - 1)"

definition filler :: "sample list \<Rightarrow> pulse list" where
  "filler samples = (if odd (length samples) then [(False, of_int (hd (pulse_set samples)) - 1)] else [])"

lemma played_value:
  assumes "length (pulse_set samples) \<le> 7" and "s \<in> set samples"
    and w: "widths = map of_int (pulse_set samples) @ replicate (7 - length (pulse_set samples)) 0"
  shows "Fw_Transmitter.pulse_of widths (sample_value (pulse_set samples) s) = played s"
    and "\<not> end_of_pulses (sample_value (pulse_set samples) s)"
proof -
  let ?ps = "pulse_set samples" and ?k = "position (pulse_set samples) (clocks_of s)"
  note k = sample_values_small(1,2) [OF assms(1,2)]
  have b: "sample_value ?ps s AND 0x08 \<noteq> 0 \<longleftrightarrow> isHigh s" "unat (sample_value ?ps s AND 0x07) = ?k"
    using sample_value_bits [of ?ps s] k(1) by simp_all
  show "\<not> end_of_pulses (sample_value ?ps s)" using b(2) k(1) by (simp add: end_of_pulses_index)
  have "?k < length ?ps" using nth_position [of "clocks_of s" ?ps] assms(2) by (simp add: set_pulse_set)
  then have "widths ! ?k = of_int (clocks_of s)" using k(2) by (simp add: w nth_append)
  then show "Fw_Transmitter.pulse_of widths (sample_value ?ps s) = played s"
    using b by (simp add: Fw_Transmitter.pulse_of_def played_def)
qed

text \<open>
  A transmission from the buffers that \<open>putSamples\<close> has filled plays the samples, and one more
  pulse if their number is odd.
\<close>

lemma plays_samples:
  assumes ps: "length (pulse_set samples) \<le> 7" "length samples \<le> 384"
    and w: "sampleVector s = map of_int (pulse_set samples) @ replicate (7 - length (pulse_set samples)) 0"
    and io: "length (ioBuffer s) = 192" "values_upto (map (sample_value (pulse_set samples)) samples) (ioBuffer s)"
  shows "map (Fw_Transmitter.pulse_of (sampleVector s))
      (takeWhile (\<lambda>p. \<not> end_of_pulses p) (take 384 (nibbles_of_bytes (ioBuffer s)))) =
    map played samples @ filler samples"
proof -
  let ?vs = "map (sample_value (pulse_set samples)) samples"
  let ?pad = "if odd (length samples) then [0 :: u8] else []"
  have "\<forall>v \<in> set ?vs. \<not> end_of_pulses v" using played_value(2) [OF ps(1) _ w] by auto
  then have prog: "takeWhile (\<lambda>p. \<not> end_of_pulses p) (take 384 (nibbles_of_bytes (ioBuffer s))) = ?vs @ ?pad"
    using takeWhile_values [OF io(2,1)] ps(2) by simp
  have played: "map (Fw_Transmitter.pulse_of (sampleVector s)) ?vs = map played samples"
    using played_value(1) [OF ps(1) _ w] by simp
  have fill: "map (Fw_Transmitter.pulse_of (sampleVector s)) ?pad = filler samples"
  proof (cases "odd (length samples)")
    case True
    then obtain x where "x \<in> set samples" by (cases samples) auto
    then have "pulse_set samples \<noteq> []" using set_pulse_set [of samples] by auto
    then have "sampleVector s ! 0 = of_int (hd (pulse_set samples))" by (simp add: w nth_append hd_conv_nth)
    then show ?thesis using True by (simp add: filler_def Fw_Transmitter.pulse_of_def)
  qed (simp add: filler_def)
  show ?thesis unfolding prog map_append played fill ..
qed

section \<open>Sending and receiving samples\<close>

lemma finds_reader: "find_device [[], [reader_on_bus]] = Some True"
proof -
  have "is_ours reader_on_bus = Some True" "matches reader_on_bus" "usb_open reader_on_bus (0 + 3)"
    by (simp_all add: is_ours_def usbGetStringAscii_def reader_on_bus_def matches_def DEV_USB_PROD_def
        DEV_USB_VID_def DEV_USB_PID_def)
  then show ?thesis
    using find_on_bus_opened [of reader_on_bus 0 3 "[]"] by (simp add: find_on_bus_Nil)
qed

text \<open>
  The voltages bring the start condition of every transfer within its time limit and within \<open>d\<close>
  microseconds, of which a sample takes 32.
\<close>

definition edges_within :: "nat \<Rightarrow> (fw \<Rightarrow> u8 list) \<Rightarrow> bool" where
  "edges_within d vs \<longleftrightarrow>
     (\<forall>s. awaits_edge s \<and> fallingEdge (ctx s) \<longrightarrow> edge_in_time (vs s) s \<and> 32 * length (vs s) \<le> d)"

lemma edges_within_once: "edges_within 32 (\<lambda>_. [255])"
  by (simp add: edges_within_def edge_at_once)

lemma kept_ready: "kept s t \<Longrightarrow> ready addr s \<Longrightarrow> ready addr t"
  using kept_usb_ok [of s t] by (auto simp: ready_def kept_def)

text \<open>The state in which \<open>putSamples\<close> sleeps, and how it goes on.\<close>

lemma putSamples_sleeps:
  assumes "ready addr s" and "length (pulse_set samples) \<le> 7" and "length samples \<le> 384"
  shows "\<exists>s1. awaits_edge s1 \<and> tx (ctx s1) \<and> fallingEdge (ctx s1) \<and> host_clock s1 \<and>
    length (sampleVector s1) = 7 \<and> length (ioBuffer s1) = 192 \<and>
    map (Fw_Transmitter.pulse_of (sampleVector s1))
      (takeWhile (\<lambda>p. \<not> end_of_pulses p) (take 384 (nibbles_of_bytes (ioBuffer s1)))) =
      map played samples @ filler samples \<and>
    (\<forall>ps t. transfer_for ((500000 - 2 * lat) div 8) (vs s1) ws s1 = Some (ps, t) \<and> kept s1 t \<longrightarrow>
      (\<exists>s'. putSamples (fw_libusb addr (on_air lat vs ws)) reader_iface samples (s, log) =
         Some ((s', log @ [ps]), if transfer_status t = PROTO_TRANSFER_STATUS_OK then Inr ()
                      else Inl InvalidStateException) \<and> ready addr s' \<and> ctx s' = ctx t))"
proof -
  let ?W = "on_air lat vs ws"
  obtain s0 where s0: "ready addr s0"
    "sampleVector s0 = map of_int (pulse_set samples) @ replicate (7 - length (pulse_set samples)) 0"
    "length (ioBuffer s0) = 192" "values_upto (map (sample_value (pulse_set samples)) samples) (ioBuffer s0)"
    "putSamples (fw_libusb addr ?W) reader_iface samples (s, log) =
       run_transfer (fw_libusb addr ?W) reader_iface 0xf008 (of_int (60000 * CARRIER_US)) (s0, log)"
    using fw_dev.putSamples_buffers [of addr "(s, log)" samples ?W] assms
    by (auto simp: fw_ready_def unmoved_def)
  let ?v = "of_int (60000 * CARRIER_US) :: u16"
  obtain s1 where s1: "ready addr s1" "ctx s1 = started_ctx (start_request 0xf008 ?v) (ctx s0)"
    "ioBuffer s1 = ioBuffer s0" "sampleVector s1 = sampleVector s0"
    "goes_by_status addr ?W 0xf008 ?v (s0, log) s1"
    using fw_run_transfer [OF s0(1), of "0xf008" ?v ?W log] by blast
  have c: "awaits_edge s1" "tx (ctx s1)" "fallingEdge (ctx s1)" "host_clock s1"
    by (simp_all add: awaits_edge_def host_clock_def s1(2) started_ctx_def start_request_def vendor_in_def lo8_def bit_numeral_rec)
  have "map (Fw_Transmitter.pulse_of (sampleVector s1))
      (takeWhile (\<lambda>p. \<not> end_of_pulses p) (take 384 (nibbles_of_bytes (ioBuffer s1)))) =
      map played samples @ filler samples"
    using s0(2-4) by (intro plays_samples [OF assms(2,3)]) (simp_all only: s1(3,4))
  moreover have "\<exists>s'. putSamples (fw_libusb addr ?W) reader_iface samples (s, log) =
       Some ((s', log @ [ps]), if transfer_status t = PROTO_TRANSFER_STATUS_OK then Inr ()
                      else Inl InvalidStateException) \<and> ready addr s' \<and> ctx s' = ctx t"
    if "transfer_for ((500000 - 2 * lat) div 8) (vs s1) ws s1 = Some (ps, t)" "kept s1 t" for ps t
  proof -
    have "?W 500000 (s1, log) = (t, log @ [ps])" using that(1) c(2) by (simp add: on_air_def)
    with s1(5) show ?thesis
      using that(2) kept_ready [OF that(2) s1(1)] by (auto simp: goes_by_status_def kept_def s0(5))
  qed
  ultimately show ?thesis using c fw_arrays [OF s1(1)] by blast
qed

text \<open>
  Whether \<open>putSamples\<close> returns depends on the time: the wait for the edge and the pulses must end
  within the sleep.
\<close>

lemma putSamples_plays:
  assumes "ready addr s" and "length (pulse_set samples) \<le> 7" and "length samples \<le> 384"
    and "edges_within d vs" and ps: "ps = map played samples @ filler samples"
  shows "\<exists>n. 32 * n \<le> d \<and>
    (if 4 * n + 2 + ticks ps \<le> (500000 - 2 * lat) div 8
     then \<exists>s'. putSamples (fw_libusb addr (on_air lat vs ws)) reader_iface samples (s, log) =
       Some ((s', log @ [ps]), Inr ()) \<and> ready addr s'
     else \<exists>s' k. putSamples (fw_libusb addr (on_air lat vs ws)) reader_iface samples (s, log) =
       Some ((s', log @ [take k ps]), Inl InvalidStateException) \<and> ready addr s' \<and>
       transfer_status s' = PROTO_TRANSFER_STATUS_IN_PROGRESS)"
proof -
  let ?t = "(500000 - 2 * lat) div 8"
  obtain s1 where c: "awaits_edge s1" "tx (ctx s1)" "fallingEdge (ctx s1)" "host_clock s1"
      "length (sampleVector s1) = 7" "length (ioBuffer s1) = 192"
    and plays: "map (Fw_Transmitter.pulse_of (sampleVector s1))
      (takeWhile (\<lambda>p. \<not> end_of_pulses p) (take 384 (nibbles_of_bytes (ioBuffer s1)))) = ps"
    and run: "\<And>qs t. transfer_for ?t (vs s1) ws s1 = Some (qs, t) \<Longrightarrow> kept s1 t \<Longrightarrow>
      \<exists>s'. putSamples (fw_libusb addr (on_air lat vs ws)) reader_iface samples (s, log) =
         Some ((s', log @ [qs]), if transfer_status t = PROTO_TRANSFER_STATUS_OK then Inr ()
                      else Inl InvalidStateException) \<and> ready addr s' \<and> ctx s' = ctx t"
    using putSamples_sleeps [OF assms(1-3), of lat vs ws log] unfolding ps by blast
  have e: "edge_in_time (vs s1) s1" "32 * length (vs s1) \<le> d" using assms(4) c by (simp_all add: edges_within_def)
  note tr = transmission_ends [OF c(1,2) e(1) c(4-6) refl refl, unfolded plays, of ?t ws]
  have status: "transfer_status s' = transfer_status t" if "ctx s' = ctx t" for s' t
    using that by (simp add: transfer_status_def)
  show ?thesis
  proof (cases "4 * length (vs s1) + 2 + ticks ps \<le> ?t")
    case True
    with tr obtain t where t: "transfer_for ?t (vs s1) ws s1 = Some (ps, t)" "transfer_status t = PROTO_TRANSFER_STATUS_OK"
      "kept s1 t" unfolding if_P [OF True] by blast
    then show ?thesis using run [OF t(1,3)] True e(2) by (intro exI [of _ "length (vs s1)"]) auto
  next
    case False
    with tr obtain k t where t: "transfer_for ?t (vs s1) ws s1 = Some (take k ps, t)"
      "transfer_status t = PROTO_TRANSFER_STATUS_IN_PROGRESS" "kept s1 t" unfolding if_not_P [OF False] by blast
    obtain s' where s': "putSamples (fw_libusb addr (on_air lat vs ws)) reader_iface samples (s, log) =
        Some ((s', log @ [take k ps]), Inl InvalidStateException)" "ready addr s'" "ctx s' = ctx t"
      using run [OF t(1,3)] t(2) by auto
    show ?thesis
      by (rule exI [of _ "length (vs s1)"], rule conjI [OF e(2)], unfold if_not_P [OF False],
        rule exI [of _ s'], rule exI [of _ k]) (use s' t(2) status [OF s'(3)] in simp)
  qed
qed

lemma putSamples_in_time:
  assumes "ready addr s" and "length (pulse_set samples) \<le> 7" and "length samples \<le> 384"
    and "edges_within d vs" and "2 * lat + d + 8 * (2 + ticks (map played samples @ filler samples)) \<le> 500000"
  shows "\<exists>s'. putSamples (fw_libusb addr (on_air lat vs ws)) reader_iface samples (s, log) =
       Some ((s', log @ [map played samples @ filler samples]), Inr ()) \<and> ready addr s'"
proof -
  let ?ps = "map played samples @ filler samples"
  obtain n where n: "32 * n \<le> d"
    "if 4 * n + 2 + ticks ?ps \<le> (500000 - 2 * lat) div 8
     then \<exists>s'. putSamples (fw_libusb addr (on_air lat vs ws)) reader_iface samples (s, log) =
       Some ((s', log @ [?ps]), Inr ()) \<and> ready addr s'
     else \<exists>s' k. putSamples (fw_libusb addr (on_air lat vs ws)) reader_iface samples (s, log) =
       Some ((s', log @ [take k ?ps]), Inl InvalidStateException) \<and> ready addr s' \<and>
       transfer_status s' = PROTO_TRANSFER_STATUS_IN_PROGRESS"
    using putSamples_plays [OF assms(1-4) refl] by blast
  have "4 * n + 2 + ticks ?ps \<le> (500000 - 2 * lat) div 8"
    using assms(5) n(1) by (simp add: less_eq_div_iff_mult_less_eq mult.commute)
  then show ?thesis using n(2) by (auto simp del: map_append)
qed

text \<open>The pulses as levels and numbers of field clocks, and those that samples should become.\<close>

definition clocks_sent :: "pulse list \<Rightarrow> (bool \<times> int) list" where
  "clocks_sent ps = map (\<lambda>(h, c). (h, uint c + 1)) ps"

definition carried :: "sample list \<Rightarrow> (bool \<times> int) list" where
  "carried samples =
     map (\<lambda>s. (isHigh s, clocks_of s)) samples @
     (if odd (length samples) then [(False, Min (clocks_of ` set samples))] else [])"

definition air_clocks :: "(bool \<times> int) list \<Rightarrow> int" where
  "air_clocks ps = sum_list (map snd ps)"

lemma ticks_clocks: "int (ticks ps) = air_clocks (clocks_sent ps)"
  by (induction ps) (auto simp: air_clocks_def clocks_sent_def)

lemma clocks_carried:
  assumes "\<forall>s \<in> set samples. 1 \<le> clocks_of s \<and> clocks_of s \<le> 256"
  shows "clocks_sent (map played samples @ filler samples) = carried samples"
proof -
  have u: "uint (of_int n - 1 :: u8) + 1 = n" if "1 \<le> n" "n \<le> 256" for n :: int
  proof -
    have "of_int n - 1 = (of_int (n - 1) :: u8)" by simp
    then show ?thesis using that by (simp add: uint_word_of_int del: of_int_diff)
  qed
  have "hd (pulse_set samples) = Min (clocks_of ` set samples)" if "samples \<noteq> []"
  proof -
    have s: "set (pulse_set samples) = clocks_of ` set samples" by (rule set_pulse_set)
    then have "pulse_set samples \<noteq> []" using that by auto
    then show ?thesis using sorted_pulse_set [of samples] unfolding s [symmetric]
      by (cases "pulse_set samples") (auto intro: Min_eqI [symmetric])
  qed
  moreover have "Min (clocks_of ` set samples) \<in> clocks_of ` set samples" if "samples \<noteq> []"
    using that by (intro Min_in) simp_all
  moreover have "samples \<noteq> []" if "odd (length samples)" using that by auto
  ultimately show ?thesis
    using assms u by (fastforce simp: clocks_sent_def carried_def played_def filler_def)
qed

text \<open>
  What a reception hears: the runs in the comparator's levels of the voltages after the edge.
\<close>

definition heard :: "u8 \<times> u8 \<Rightarrow> u8 list \<Rightarrow> sample list" where
  "heard th ws = snd (snd (foldl get_bit (-1, 0, []) (map (\<lambda>l. l \<noteq> 0) (levels (snd th) (fst th) 0 ws))))"

lemma getSamples_receives:
  assumes "ready addr s" and "edges_within d vs" and "length ws = 1536" and "2 * lat + d + 98256 \<le> 500000"
  shows "\<exists>s'. getSamples (fw_libusb addr (on_air lat vs ws)) reader_iface (s, log) =
       Some ((s', log), Inr (heard (thresholds s) ws)) \<and> ready addr s'"
proof -
  let ?W = "on_air lat vs ws"
  obtain s1 where s1: "ready addr s1" "ctx s1 = started_ctx (start_request 0xe008 60000) (ctx s)"
    "thresholds s1 = thresholds s" "goes_by_status addr ?W 0xe008 60000 (s, log) s1"
    using fw_run_transfer [OF assms(1), of "0xe008" "60000" ?W log] by blast
  have c: "awaits_edge s1" "\<not> tx (ctx s1)" "fallingEdge (ctx s1)" "host_clock s1"
    by (simp_all add: awaits_edge_def host_clock_def s1(2) started_ctx_def start_request_def vendor_in_def lo8_def bit_numeral_rec)
  then have e: "edge_in_time (vs s1) s1" "32 * length (vs s1) \<le> d" using assms(2) by (simp_all add: edges_within_def)
  then have "8 * (4 * length (vs s1) + 12282) \<le> 500000 - 2 * lat" using assms(4) by simp
  then have time: "4 * length (vs s1) + 12282 \<le> (500000 - 2 * lat) div 8" by (simp add: less_eq_div_iff_mult_less_eq mult.commute)
  obtain t where t: "transfer_for ((500000 - 2 * lat) div 8) (vs s1) ws s1 = Some ([], t)" "transfer_status t = PROTO_TRANSFER_STATUS_OK" "kept s1 t"
    "bits_of_bytes (ioBuffer t) = map (\<lambda>l. l \<noteq> 0) (levels (adcHiVal s1) (adcLowVal s1) 0 ws)"
    using reception_ends [OF c(1-3) e(1) c(4) _ assms(3) time] fw_arrays [OF s1(1)] by auto
  have h: "decode_samples (ioBuffer t) = heard (thresholds s) ws"
    using s1(3) t(4) by (simp add: heard_def decode_samples_def get_bytes_bits thresholds_def)
  have "?W 500000 (s1, log) = (t, log)" using t(1) c(2) by (simp add: on_air_def)
  with s1(4) obtain s2 where s2: "ready addr s2" "ioBuffer s2 = ioBuffer t"
    "run_transfer (fw_libusb addr ?W) reader_iface 0xe008 60000 (s, log) = Some ((s2, log), Inr ())"
    using t(2,3) kept_ready [OF t(3) s1(1)] by (auto simp: goes_by_status_def kept_def)
  have "fw_ready addr (s2, log)" using s2(1) by (simp add: fw_ready_def)
  from fw_dev.getSamples_decodes [OF s2(3) this] s2(2) h show ?thesis
    by (auto simp: fw_ready_def unmoved_def)
qed

section \<open>Properties\<close>

text \<open>
  The handshake of the host's constructor with the firmware: once the device is found, the two
  vendor requests go through the bus and the constructor succeeds with version 0.1 (which it
  supports), 7 pulse entries of 4 bits and 192 bytes of samples of 1 bit; the firmware is ready
  for the next request.
\<close>
lemma constructor_meets_firmware:
  assumes "ready addr s" and "find_device busses = Some True"
  shows "\<exists>s'. InterfaceUsbImpl (fw_libusb addr W) busses (s, log) = Some ((s', log), Inr reader_iface) \<and> ready addr s'"
proof -
  have "fw_ready addr (s, log)" using assms(1) by (simp add: fw_ready_def)
  from fw_dev.handshake_reader [OF this, of W] show ?thesis
    by (auto simp: InterfaceUsbImpl_def assms(2) io_step_try fw_ready_def unmoved_def)
qed

lemma constructor_meets_firmware_example:
  "\<exists>s'. InterfaceUsbImpl (fw_libusb 0 (\<lambda>_ t. t)) [[], [reader_on_bus]] (fw_init avr_reset, []) =
     Some ((s', []), Inr reader_iface) \<and> ready 0 s'"
proof (rule constructor_meets_firmware [OF ready_init])
  show "find_device [[], [reader_on_bus]] = Some True" by (rule finds_reader)
qed

text \<open>
  C5. Sending samples, from the host's vector to the antenna, within the limits of the two buffers
  and of the sleep: at most 384 samples of at most 7 different lengths, each of 1 to 256 field
  clocks; a start edge within the time limit of the request; and the wait for it (\<open>d\<close>), the
  pulses and the main loop's reactions (\<open>lat\<close>) end within the 500 milliseconds for which the host
  sleeps. Then \<open>putSamples\<close> fills the firmware's two buffers over the bus, starts a transmission
  and returns normally, and what is sent is each sample, in order, with its level and its length
  in field clocks, and after an odd number of samples one more low pulse of the shortest length.
\<close>
theorem put_samples_plays:
  assumes "ready addr s" and "length (pulse_set samples) \<le> 7" and "length samples \<le> 384"
    and "\<forall>x \<in> set samples. 1 \<le> clocks_of x \<and> clocks_of x \<le> 256"
    and "edges_within d vs"
    and "2 * int lat + int d + CARRIER_US * (2 + air_clocks (carried samples)) \<le> 500000"
  shows "\<exists>s' ps. putSamples (fw_libusb addr (on_air lat vs ws)) reader_iface samples (s, log) =
       Some ((s', log @ [ps]), Inr ()) \<and> ready addr s' \<and> clocks_sent ps = carried samples"
proof -
  let ?ps = "map played samples @ filler samples"
  note c = clocks_carried [OF assms(4)]
  have "2 * lat + d + 8 * (2 + ticks ?ps) \<le> 500000"
    using assms(6) ticks_clocks [of ?ps] by (simp add: c CARRIER_US_def)
  from putSamples_in_time [OF assms(1-3,5) this] show ?thesis using c by blast
qed

lemma us_clocks: "pulse_set [us 64, us 80, us 64] = [8, 10]" "clocks_of (us 64) = 8" "clocks_of (us 80) = 10"
  "isHigh (us 64)"
  by (simp_all add: pulse_set_def us_def clocks_of_def CARRIER_US_def signed_divide_int_def)

theorem put_samples_plays_witness:
  "\<exists>s' ps. putSamples (fw_libusb 0 (on_air 100 (\<lambda>_. [255]) [])) reader_iface [us 64, us 80, us 64]
      (fw_init avr_reset, []) = Some ((s', [ps]), Inr ()) \<and> ready 0 s' \<and>
     clocks_sent ps = [(True, 8), (True, 10), (True, 8), (False, 8)]"
proof -
  have c: "carried [us 64, us 80, us 64] = [(True, 8), (True, 10), (True, 8), (False, 8)]"
    using us_clocks by (simp add: carried_def us_def)
  have "length (pulse_set [us 64, us 80, us 64]) \<le> 7" by (simp add: us_clocks)
  from put_samples_plays [OF ready_init this _ _ edges_within_once, of 100 "[]" avr_reset "[]"] show ?thesis
    by (simp add: c us_clocks air_clocks_def CARRIER_US_def)
qed

text \<open>
  C36. Samples that take longer than the sleep: within the other limits, when the pulses and the
  main loop's reactions do not fit into 500 milliseconds, \<open>putSamples\<close> fails with
  \<open>InvalidStateException\<close> although nothing is wrong: the transfer is still in progress, and at
  most the first of its pulses have been sent.
\<close>
theorem put_samples_too_long:
  assumes "ready addr s" and "length (pulse_set samples) \<le> 7" and "length samples \<le> 384"
    and "\<forall>x \<in> set samples. 1 \<le> clocks_of x \<and> clocks_of x \<le> 256"
    and "edges_within d vs"
    and "500000 < 2 * int lat + CARRIER_US * (2 + air_clocks (carried samples))"
  shows "\<exists>s' ps k. putSamples (fw_libusb addr (on_air lat vs ws)) reader_iface samples (s, log) =
       Some ((s', log @ [ps]), Inl InvalidStateException) \<and> ready addr s' \<and>
     clocks_sent ps = take k (carried samples) \<and> transfer_status s' = PROTO_TRANSFER_STATUS_IN_PROGRESS"
proof -
  let ?ps = "map played samples @ filler samples"
  obtain n where n:
    "if 4 * n + 2 + ticks ?ps \<le> (500000 - 2 * lat) div 8
     then \<exists>s'. putSamples (fw_libusb addr (on_air lat vs ws)) reader_iface samples (s, log) =
       Some ((s', log @ [?ps]), Inr ()) \<and> ready addr s'
     else \<exists>s' k. putSamples (fw_libusb addr (on_air lat vs ws)) reader_iface samples (s, log) =
       Some ((s', log @ [take k ?ps]), Inl InvalidStateException) \<and> ready addr s' \<and>
       transfer_status s' = PROTO_TRANSFER_STATUS_IN_PROGRESS"
    using putSamples_plays [OF assms(1-3,5) refl] by blast
  note c = clocks_carried [OF assms(4)]
  have "500000 < 2 * lat + 8 * (2 + ticks ?ps)"
    using assms(6) ticks_clocks [of ?ps] by (simp add: c CARRIER_US_def)
  then have "\<not> 4 * n + 2 + ticks ?ps \<le> (500000 - 2 * lat) div 8"
    by (simp add: less_eq_div_iff_mult_less_eq mult.commute)
  with n obtain s' k where
    "putSamples (fw_libusb addr (on_air lat vs ws)) reader_iface samples (s, log) =
       Some ((s', log @ [take k ?ps]), Inl InvalidStateException)" "ready addr s'"
    "transfer_status s' = PROTO_TRANSFER_STATUS_IN_PROGRESS"
    by (auto simp del: map_append)
  moreover have "clocks_sent (take k ?ps) = take k (carried samples)"
    by (simp only: c [symmetric] clocks_sent_def take_map)
  ultimately show ?thesis by blast
qed

theorem put_samples_too_long_witness:
  "\<exists>s' ps. putSamples (fw_libusb 0 (on_air 0 (\<lambda>_. [255]) [])) reader_iface (replicate 384 (us 2040))
      (fw_init avr_reset, []) = Some ((s', [ps]), Inl InvalidStateException) \<and>
     transfer_status s' = PROTO_TRANSFER_STATUS_IN_PROGRESS"
proof -
  have u: "clocks_of (us 2040) = 255" by (simp add: us_def clocks_of_def CARRIER_US_def signed_divide_int_def)
  have p: "pulse_set (replicate 384 (us 2040)) = [255]"
  proof -
    have "set (pulse_set (replicate 384 (us 2040))) = {255}" by (simp add: set_pulse_set u)
    then have "pulse_set (replicate 384 (us 2040)) \<noteq> []" "\<forall>x \<in> set (pulse_set (replicate 384 (us 2040))). x = 255" by auto
    then show ?thesis
      using distinct_pulse_set [of "replicate 384 (us 2040)"]
      by (cases "pulse_set (replicate 384 (us 2040))" rule: remdups_adj.cases) auto
  qed
  have l: "length (pulse_set (replicate 384 (us 2040))) \<le> 7" by (simp add: p)
  have "air_clocks (carried (replicate 384 (us 2040))) = 384 * 255"
    by (simp add: carried_def air_clocks_def map_replicate u sum_list_replicate)
  then show ?thesis
    using put_samples_too_long [OF ready_init l _ _ edges_within_once, of 0 "[]" avr_reset "[]"] u
    by (simp add: CARRIER_US_def) blast
qed

end
