(* ===== verification/Tool_Program.thy ===== *)
theory Tool_Program
  imports Tool_Main Tool_System
begin

unbundle bit_operations_syntax

text \<open>
  The whole system: the tool's program, the reader's firmware and the field. The program's
  branches are run against the modelled firmware; what it writes is followed to the pulses of the
  field and read with the tag's limits, and what it reads is followed from the voltages at the
  converter to the tokens it shows.
\<close>

section \<open>The field as the tag sees it\<close>











fun tag_bits_to :: "int \<Rightarrow> sample list \<Rightarrow> bool list option" where
  "tag_bits_to g [] = Some []"
| "tag_bits_to g [_] = None"
| "tag_bits_to g (s # l # ss) =
     (if isHigh s \<and> isLow l \<and> 8 \<le> clocks l \<and> clocks l \<le> (if ss = [] then g else 30) then
        (if 48 \<le> clocks s \<and> clocks s \<le> 63 then map_option ((#) True) (tag_bits_to g ss)
         else if 16 \<le> clocks s \<and> clocks s \<le> 31 then map_option ((#) False) (tag_bits_to g ss)
         else None)
      else None)"

fun tag_hears :: "int \<Rightarrow> sample list \<Rightarrow> bool list option" where
  "tag_hears g [] = None"
| "tag_hears g (l # ss) = (if isLow l \<and> 10 \<le> clocks l \<and> clocks l \<le> 50 then tag_bits_to g ss else None)"

lemma tag_hears_receive: "tag_hears 30 ss = tag_receive ss"
proof -
  have "tag_bits_to 30 ss = tag_bits ss" for ss by (induction ss rule: tag_bits.induct) simp_all
  then show ?thesis by (cases ss) simp_all
qed





section \<open>The program on the firmware\<close>



section \<open>Writing a tag\<close>

text \<open>The three commands that write a tag: its configuration and the two halves of its frame.\<close>

definition tag_commands :: "ExecutionOptions \<Rightarrow> u32 \<Rightarrow> u32 \<Rightarrow> u32 \<Rightarrow> bool list list" where
  "tag_commands opt cfg x y =
     [command_bits 0 0 False None cfg, command_bits 0 1 False None x, command_bits 0 2 False None y]"

lemma length_tag_commands: "length (tag_commands opt cfg x y) = 3"
  by (simp add: tag_commands_def)



section \<open>Reading a tag\<close>


section \<open>Properties\<close>

















end
