(* ===== verification/Tool_Log.thy ===== *)
theory Tool_Log
  imports Tool_Main "HOL-Library.Monad_Syntax"
begin

text \<open>
  What the parts of the tool share (\<open>rfid-tool/src/common\<close>, \<open>inc/common\<close>): the exceptions, the choice of an
  interface, the log with its levels, and the dump of a buffer. Log messages come formatted. Nothing of the tool
  calls \<open>Log::dump\<close>; it is a function of the bytes and of what its array on the stack holds.
\<close>

section \<open>Exceptions\<close>

record Exception =
  ex_message :: string
  ex_code :: int

definition Exception_message :: "string \<Rightarrow> Exception" where
  "Exception_message message = \<lparr>ex_message = message, ex_code = - 1\<rparr>"

definition Exception_code :: "string \<Rightarrow> int \<Rightarrow> Exception" where
  "Exception_code message code = \<lparr>ex_message = message, ex_code = code\<rparr>"

definition getMessage :: "Exception \<Rightarrow> string" where
  "getMessage ex = ex_message ex"

definition getCode :: "Exception \<Rightarrow> int" where
  "getCode ex = ex_code ex"

text \<open>The objects of the exceptions that are thrown.\<close>

definition exception_object :: "exception \<Rightarrow> Exception" where
  "exception_object e =
     (case e of
        NotConnectedException \<Rightarrow> Exception_message ''Interface was not detected!''
      | NotSupportedInterfaceException \<Rightarrow> Exception_message ''Not supported interface!''
      | InvalidResponseException code \<Rightarrow> Exception_code ''Invalid response!'' code
      | InvalidStateException \<Rightarrow> Exception_message ''Invalid state!''
      | TooManyPulsesException \<Rightarrow> Exception_message ''Too many pulses requested!'')"

text \<open>\<open>InterfaceFactory::newInstance\<close>: \<open>usb\<close> is the construction of an \<open>InterfaceUsbImpl\<close>.\<close>

definition TYPE_USB :: int where
  "TYPE_USB = 0"

definition newInstance :: "(unit \<Rightarrow> Exception + 'iface) \<Rightarrow> int \<Rightarrow> Exception + 'iface" where
  "newInstance usb type =
     (if type = TYPE_USB then usb () else Inl (Exception_code ''Not supported type!'' 1))"

section \<open>The log\<close>

text \<open>The levels are compared as the numbers of the enumeration.\<close>

datatype Level = NONE | ERROR | WARN | LOG | DEBUG

fun level_number :: "Level \<Rightarrow> nat" where
  "level_number NONE = 0"
| "level_number ERROR = 1"
| "level_number WARN = 2"
| "level_number LOG = 3"
| "level_number DEBUG = 4"

instantiation Level :: linorder
begin

definition less_eq_Level :: "Level \<Rightarrow> Level \<Rightarrow> bool" where
  "less_eq_Level a b \<longleftrightarrow> level_number a \<le> level_number b"

definition less_Level :: "Level \<Rightarrow> Level \<Rightarrow> bool" where
  "less_Level a b \<longleftrightarrow> level_number a < level_number b"

instance
proof
  fix a b :: Level
  assume "a \<le> b" "b \<le> a"
  then show "a = b" by (cases a; cases b) (simp_all add: less_eq_Level_def)
qed (auto simp: less_eq_Level_def less_Level_def)

end

definition newline :: string where
  "newline = [CHR 0x0A]"

definition level_prefix :: "Level \<Rightarrow> string" where
  "level_prefix level =
     (case level of
        DEBUG \<Rightarrow> ''[DBG]: ''
      | LOG \<Rightarrow> ''[LOG]: ''
      | WARN \<Rightarrow> ''[WRN]: ''
      | ERROR \<Rightarrow> ''[ERR]: ''
      | NONE \<Rightarrow> '''')"

text \<open>\<open>current\<close> is \<open>Log::_level\<close>, \<open>out\<close> the output so far.\<close>

definition log_report :: "Level \<Rightarrow> Level \<Rightarrow> string \<Rightarrow> string \<Rightarrow> string" where
  "log_report current level text out =
     (if level \<le> current then out @ level_prefix level @ text @ newline else out)"

definition log_debug :: "Level \<Rightarrow> string \<Rightarrow> string \<Rightarrow> string" where
  "log_debug current text out = log_report current DEBUG text out"

definition log_log :: "Level \<Rightarrow> string \<Rightarrow> string \<Rightarrow> string" where
  "log_log current text out = log_report current LOG text out"

definition log_warn :: "Level \<Rightarrow> string \<Rightarrow> string \<Rightarrow> string" where
  "log_warn current text out = log_report current WARN text out"

definition log_error :: "Level \<Rightarrow> string \<Rightarrow> string \<Rightarrow> string" where
  "log_error current text out = log_report current ERROR text out"

text \<open>The level starts as \<open>NONE\<close>; option \<open>v\<close> sets \<open>DEBUG\<close>.\<close>

definition setLevel :: "Level \<Rightarrow> Level \<Rightarrow> Level" where
  "setLevel level current = level"

definition log_level :: "(char \<times> string) list \<Rightarrow> Level" where
  "log_level args = foldl (\<lambda>level arg. if fst arg = CHR ''v'' then setLevel DEBUG level else level) NONE args"

lemma log_report_shows: "log_report current level text out = out \<longleftrightarrow> \<not> level \<le> current"
  by (simp add: log_report_def newline_def)

lemma log_level_verbose: "log_level args = (if CHR ''v'' \<in> fst ` set args then DEBUG else NONE)"
  by (induction args rule: rev_induct) (auto simp: log_level_def setLevel_def)

section \<open>The dump of a buffer\<close>

text \<open>\<open>%0wx\<close>, and \<open>isprint\<close> of the C locale.\<close>

definition zero_hex :: "nat \<Rightarrow> nat \<Rightarrow> string" where
  "zero_hex w n = replicate (w - length (show_number 16 n)) CHR ''0'' @ show_number 16 n"

definition printable :: "u8 \<Rightarrow> char" where
  "printable x = (if 0x20 \<le> x \<and> x < 0x7f then char_of (unat x) else CHR ''.'')"

text \<open>A string of C in an array; without a terminator it is read behind the array.\<close>

definition c_string :: "string \<Rightarrow> string option" where
  "c_string a = (if CHR 0x00 \<in> set a then Some (takeWhile (\<lambda>c. c \<noteq> CHR 0x00) a) else None)"

definition dump_ascii :: "string \<Rightarrow> string \<Rightarrow> string option" where
  "dump_ascii ascii out =
     do { s \<leftarrow> c_string ascii;
          Some (out @ ''  '' @ s @ newline) }"

text \<open>One turn of the loop: the index, \<open>asciiBuffer\<close> and the output. \<open>%x\<close> reads 32 bits of the index.\<close>

definition dump_byte :: "nat \<Rightarrow> u8 \<Rightarrow> nat \<times> string \<times> string \<Rightarrow> (nat \<times> string \<times> string) option" where
  "dump_byte lineLength x st =
     (let (i, ascii, out) = st
      in do { out \<leftarrow> (if i mod lineLength = 0
                      then do { out \<leftarrow> (if i \<noteq> 0 then dump_ascii ascii out else Some out);
                                Some (out @ zero_hex 4 (i mod 2 ^ 32) @ '':  '') }
                      else Some out);
              let out = out @ '' '' @ zero_hex 2 (unat x);
              let ascii = ascii[i mod lineLength := printable x];
              let ascii = ascii[Suc (i mod lineLength) := CHR 0x00];
              Some (Suc i, ascii, out) })"

fun dump_bytes :: "nat \<Rightarrow> u8 list \<Rightarrow> nat \<times> string \<times> string \<Rightarrow> (nat \<times> string \<times> string) option" where
  "dump_bytes lineLength [] st = Some st"
| "dump_bytes lineLength (x # xs) st = do { st \<leftarrow> dump_byte lineLength x st; dump_bytes lineLength xs st }"

function dump_pad :: "nat \<Rightarrow> string \<Rightarrow> string" where
  "dump_pad i out = (if i mod 16 \<noteq> 0 then dump_pad (Suc i) (out @ ''   '') else out)"
  by pat_completeness auto
termination
  by (relation "measure (\<lambda>(i, out). (16 - i mod 16) mod 16)") (auto simp: mod_Suc)

declare dump_pad.simps [simp del]

text \<open>
  \<open>junk\<close> is what the array of \<open>lineLength + 1\<close> characters holds at the start. The result is None when the
  code has no defined behaviour: a division by zero, or a string without an end.
\<close>

definition Log_dump :: "string \<Rightarrow> u8 list \<Rightarrow> nat \<Rightarrow> string \<Rightarrow> string option" where
  "Log_dump junk buffer lineLength out =
     (if lineLength = 0 \<and> buffer \<noteq> [] then None
      else do { (i, ascii, out) \<leftarrow> dump_bytes lineLength buffer (0, junk, out);
                dump_ascii ascii (dump_pad i out) })"

text \<open>An empty buffer prints whatever the array holds.\<close>

lemma dump_empty: "Log_dump junk [] lineLength out = dump_ascii junk out"
  by (simp add: Log_dump_def dump_pad.simps[of 0])

text \<open>The lines of a dump; what comes before the text of the last one is made for lines of 16 bytes.\<close>

definition dump_line :: "nat \<Rightarrow> u8 list \<Rightarrow> string \<Rightarrow> string" where
  "dump_line i xs pad =
     zero_hex 4 (i mod 2 ^ 32) @ '':  '' @ concat (map (\<lambda>x. '' '' @ zero_hex 2 (unat x)) xs) @ pad @
     ''  '' @ map printable xs @ newline"

definition pad_columns :: "nat \<Rightarrow> string" where
  "pad_columns i = concat (replicate ((16 - i mod 16) mod 16) ''   '')"

function dump_text :: "nat \<Rightarrow> nat \<Rightarrow> u8 list \<Rightarrow> string" where
  "dump_text lineLength i xs =
     (if length xs \<le> lineLength \<or> lineLength = 0 then dump_line i xs (pad_columns (i + length xs))
      else dump_line i (take lineLength xs) '''' @ dump_text lineLength (i + lineLength) (drop lineLength xs))"
  by pat_completeness auto
termination
  by (relation "measure (\<lambda>(lineLength, i, xs). length xs)") auto

declare dump_text.simps [simp del]

text \<open>What the loop does, line by line.\<close>

lemma dump_pad_columns: "dump_pad i out = out @ pad_columns i"
proof (induction i out rule: dump_pad.induct)
  case (1 i out)
  show ?case
  proof (cases "i mod 16 = 0")
    case False
    then have "(16 - i mod 16) mod 16 = Suc ((16 - Suc i mod 16) mod 16)" by (auto simp: mod_Suc)
    then have "pad_columns i = ''   '' @ pad_columns (Suc i)" by (simp add: pad_columns_def)
    then show ?thesis using 1 False by (simp add: dump_pad.simps[of i])
  qed (simp add: dump_pad.simps[of i] pad_columns_def)
qed

lemma c_string_array: "CHR 0x00 \<notin> set ps \<Longrightarrow> c_string (ps @ CHR 0x00 # rest) = Some ps"
  by (induction ps) (auto simp: c_string_def)

lemma printable_nonzero: "printable x \<noteq> CHR 0x00"
proof (cases "0x20 \<le> x \<and> x < 0x7f")
  case True
  then have "of_char (printable x) = unat x" "unat x \<noteq> 0"
    using unat_u8_less[of x] by (auto simp: printable_def word_le_nat_alt)
  then show ?thesis by force
qed (auto simp: printable_def)

lemma dump_bytes_append: "dump_bytes l (xs @ ys) st = do { st \<leftarrow> dump_bytes l xs st; dump_bytes l ys st }"
  by (induction xs arbitrary: st) (auto intro: Option.bind_cong)

definition hex_columns :: "u8 list \<Rightarrow> string" where
  "hex_columns xs = concat (map (\<lambda>x. '' '' @ zero_hex 2 (unat x)) xs)"

lemma dump_rest_of_line:
  assumes "i mod l = 0" "length ps = k" "0 < k" "k + length xs \<le> l" "k + length rest = l"
  shows "\<exists>rest'. k + length xs + length rest' = l \<and> dump_bytes l xs (i + k, ps @ CHR 0x00 # rest, out) =
    Some (i + k + length xs, ps @ map printable xs @ CHR 0x00 # rest', out @ hex_columns xs)"
  using assms(2-)
proof (induction xs arbitrary: ps k rest out)
  case (Cons x xs)
  have k: "(i + k) mod l = k" using assms(1) Cons.prems by (simp add: mod_add_eq[of i, symmetric])
  obtain r rest' where rest: "rest = r # rest'" using Cons.prems by (cases rest) auto
  have "dump_byte l x (i + k, ps @ CHR 0x00 # rest, out) =
      Some (i + Suc k, (ps @ [printable x]) @ CHR 0x00 # rest', out @ '' '' @ zero_hex 2 (unat x))"
    using Cons.prems(1,2) k by (simp add: dump_byte_def rest list_update_append Let_def)
  then show ?case
    using Cons.IH[of "ps @ [printable x]" "Suc k" rest' "out @ '' '' @ zero_hex 2 (unat x)"] Cons.prems rest
    by (simp add: hex_columns_def)
qed (simp_all add: hex_columns_def)

lemma dump_whole_line:
  assumes "i mod l = 0" "length ascii = Suc l" "xs \<noteq> []" "length xs \<le> l" "i \<noteq> 0 \<Longrightarrow> c_string ascii = Some prev"
  defines "before \<equiv> if i = 0 then '''' else ''  '' @ prev @ newline"
  shows "\<exists>rest. length xs + length rest = l \<and> dump_bytes l xs (i, ascii, out) =
    Some (i + length xs, map printable xs @ CHR 0x00 # rest,
      out @ before @ zero_hex 4 (i mod 2 ^ 32) @ '':  '' @ hex_columns xs)"
proof -
  obtain x ys where xs: "xs = x # ys" using assms(3) by (cases xs) auto
  obtain a b rest where ascii: "ascii = a # b # rest" "Suc (length rest) = l"
    using assms(2,3,4) by (cases ascii; cases "tl ascii") auto
  let ?out = "out @ before @ zero_hex 4 (i mod 2 ^ 32) @ '':  '' @ '' '' @ zero_hex 2 (unat x)"
  have "dump_byte l x (i, ascii, out) = Some (i + 1, [printable x] @ CHR 0x00 # rest, ?out)"
    using assms(1,5) ascii(1) by (cases "i = 0") (simp_all add: dump_byte_def before_def dump_ascii_def Let_def)
  then show ?thesis
    using dump_rest_of_line[OF assms(1), of "[printable x]" 1 ys rest ?out] assms(4) ascii(2)
    by (simp add: xs hex_columns_def)
qed

lemma dump_loop:
  assumes "i mod l = 0" "length ascii = Suc l" "xs \<noteq> []" "0 < l" "i \<noteq> 0 \<Longrightarrow> c_string ascii = Some prev"
  defines "before \<equiv> \<lambda>t. if i = 0 then '''' else ''  '' @ t @ newline"
  shows "do { (i, ascii, out) \<leftarrow> dump_bytes l xs (i, ascii, out); dump_ascii ascii (dump_pad i out) } =
    Some (out @ before prev @ dump_text l i xs)"
  using assms(1-5)
  unfolding before_def
proof (induction l i xs arbitrary: ascii prev out rule: dump_text.induct)
  case (1 l i xs)
  show ?case
  proof (cases "length xs \<le> l")
    case True
    obtain rest where line: "dump_bytes l xs (i, ascii, out) = Some (i + length xs, map printable xs @ CHR 0x00 # rest,
        out @ (if i = 0 then '''' else ''  '' @ prev @ newline) @ zero_hex 4 (i mod 2 ^ 32) @ '':  '' @ hex_columns xs)"
      using dump_whole_line[OF "1.prems"(1-3) True "1.prems"(5)] by blast
    have "c_string (map printable xs @ CHR 0x00 # rest) = Some (map printable xs)"
      by (rule c_string_array) (simp add: image_iff printable_nonzero[symmetric])
    then show ?thesis
      unfolding line using True
      by (simp add: dump_ascii_def dump_pad_columns dump_text.simps[of l i xs] dump_line_def hex_columns_def)
  next
    case False
    let ?xs = "take l xs"
    have xs: "?xs \<noteq> []" "length ?xs \<le> l" "length ?xs = l" "drop l xs \<noteq> []"
      using False "1.prems"(4) by auto
    obtain rest where line: "length ?xs + length rest = l"
        "dump_bytes l ?xs (i, ascii, out) = Some (i + length ?xs, map printable ?xs @ CHR 0x00 # rest,
        out @ (if i = 0 then '''' else ''  '' @ prev @ newline) @ zero_hex 4 (i mod 2 ^ 32) @ '':  '' @ hex_columns ?xs)"
      using dump_whole_line[OF "1.prems"(1,2) xs(1,2) "1.prems"(5)] by blast
    have "c_string (map printable ?xs @ CHR 0x00 # rest) = Some (map printable ?xs)"
      by (rule c_string_array) (simp add: image_iff printable_nonzero[symmetric])
    moreover have "dump_bytes l xs st = do { st \<leftarrow> dump_bytes l ?xs st; dump_bytes l (drop l xs) st }" for st
      using dump_bytes_append[of l ?xs "drop l xs" st] by simp
    ultimately show ?thesis
      using "1.IH"[of "map printable ?xs @ CHR 0x00 # rest" "map printable ?xs"] "1.prems"(1,4) False line xs(3,4)
      by (simp add: dump_text.simps[of l i xs] dump_line_def hex_columns_def)
  qed
qed

text \<open>
  A dump is the text of its lines, whatever the array held; only the last one is padded, always to a multiple of 16
  columns. With lines of 16 bytes this lines up the texts.
\<close>

lemma dump_lines:
  assumes "buffer \<noteq> []" "0 < lineLength" "length junk = Suc lineLength"
  shows "Log_dump junk buffer lineLength out = Some (out @ dump_text lineLength 0 buffer)"
  using dump_loop[of 0 lineLength junk buffer "''''" out] assms by (simp add: Log_dump_def)

end
