(* ===== verification/Tool_Output.thy ===== *)
theory Tool_Output
  imports Tool_Log
begin

text \<open>
  What the tool prints: the line for a token, the help and the messages of the exceptions
  (\<open>rfid-tool/src/main.cpp\<close>, \<open>inc/rfid/Interface.hpp\<close>). The conversions of \<open>printf\<close> the program uses
  are written out: \<open>%u\<close>, \<open>%#x\<close>, \<open>%#02x\<close>, \<open>%s\<close>, \<open>%c\<close>.
\<close>

section \<open>The line for a token\<close>






section \<open>Help and messages\<close>

definition longOpts :: "(string \<times> bool \<times> char) list" where
  "longOpts =
     [(''verbose'', False, CHR ''v''), (''help'', False, CHR ''h''), (''reset'', False, CHR ''R''),
      (''read'', False, CHR ''r''), (''program'', False, CHR ''p''), (''bitrate'', True, CHR ''b''),
      (''modulation'', True, CHR ''m''), (''customerid'', True, CHR ''c''), (''token'', True, CHR ''t'')]"



definition stderr_text :: "shown \<Rightarrow> string" where
  "stderr_text x = (case x of Failed e \<Rightarrow> getMessage (exception_object e) @ newline | _ \<Rightarrow> '''')"

text \<open>The options of the help text are the ones the program knows.\<close>

lemma longOpts_known: "c \<in> (\<lambda>(_, _, val). val) ` set longOpts \<longleftrightarrow> known_letter c \<or> c = CHR ''h''"
  unfolding known_letter_def longOpts_def list.set image_insert image_empty prod.case insert_iff empty_iff by blast

section \<open>The printed numbers as options\<close>






end
