(* ===== verification/Spec2Isabelle.thy ===== *)
theory Spec2Isabelle
  imports Fw_System Usb_Control Usb_Bus Usb_Measure Tool_Read Tool_Program Tool_Output
begin

text \<open>
  A verification of rfid-tool: a USB reader and writer for 125 kHz tags. The firmware of the
  reader (\<open>firmware/\<close>, AVR) samples the field or switches it and talks to the host over a
  software USB driver; the host tool (\<open>rfid-tool/\<close>, C++) decodes the samples of EM4100 tags and
  programs T5557 tags. Both share the request codes of \<open>common/inc/common/protocol.h\<close>.

  \<^bold>\<open>Theories.\<close> Each names the source it models and has its data, its operations in the order of the
  code, and then the lemmas about them.

  \<^item> \<open>Prelude\<close>: widths of integers, checked array accesses, lemma collections. \<open>Buffers\<close>: byte
    arrays as bits and nibbles. \<open>Protocol\<close>: \<open>protocol.h\<close>.
  \<^item> Firmware, \<open>firmware/src/main.c\<close>: \<open>Fw_State\<close> (globals, registers), \<open>Fw_Hardware\<close> (timer,
    converter, coil), \<open>Fw_Isr\<close> (the two interrupt handlers), \<open>Fw_Requests\<close> (vendor requests),
    \<open>Fw_Calibrate\<close> (oscillator calibration), \<open>Fw_Main\<close> (main loop). \<open>Fw_Sampler\<close> and
    \<open>Fw_Transmitter\<close> show what the handlers do over a whole reception or transmission,
    \<open>Fw_Transfers\<close> follows a transfer through the main loop in the time it is given, and \<open>Fw_System\<close> is the step relation
    of main loop, interrupts and host with its invariant.
  \<^item> USB, \<open>firmware/src/usbdrv/\<close>: \<open>Usb_Crc\<close> (the checksum of \<open>usbdrvasm.S\<close>), \<open>Usb_Driver\<close>
    (\<open>usbdrv.c\<close>), \<open>Usb_Transceiver\<close> (packets of \<open>asmcommon.inc\<close>), \<open>Usb_Line\<close> (the
    send loop of \<open>usbdrvasm165.inc\<close> with its clocks), \<open>Usb_Receiver\<close> (the receive loop on its samples),
    \<open>Usb_Clock\<close> (the receive loop at the clock, with its phase-locked loop), \<open>Usb_Recovery\<close> (where its
    samples lie in the bits), \<open>Usb_Answer\<close> (the clocks from SE0 to the answer), \<open>Usb_Sync\<close> (the search for the
    sync pattern and the whole interrupt routine at the clock), \<open>Usb_Bus\<close> (both directions together), \<open>Usb_Measure\<close>
    (the frame measurement of \<open>usbdrvasm.S\<close>, clock by clock), \<open>Usb_Safety\<close> (no access outside a buffer),
    \<open>Usb_Control\<close> (whole control transfers on the bus).
  \<^item> Host, \<open>rfid-tool/\<close>: \<open>Data_Utils\<close>, \<open>Em4100_Eprom\<close> and \<open>Em4100_Decoder\<close> (frames of EM4100
    tags), \<open>Carrier_Decoder\<close> and \<open>Coding_Decoders\<close> (pulses to bits), \<open>Tool_Read\<close> (the chain of
    decoders), \<open>T5557_Encoder\<close> (commands to tags), \<open>Interface_Usb\<close> (\<open>InterfaceUsbImpl.cpp\<close>),
    \<open>Tool_Main\<close> (\<open>main.cpp\<close>), \<open>Tool_Log\<close> (exceptions, log and dump, \<open>common/\<close>), \<open>Tool_Output\<close> (help and the
    lines printed).
  \<^item> Both together: \<open>Tool_System\<close> puts the firmware behind the host's USB library, \<open>Tool_Program\<close>
    runs the tool's program on it.

  \<^bold>\<open>Interfaces.\<close> A \<open>locale\<close> states what one part relies on, and is interpreted on the modelled
  provider: \<open>rfid_device\<close> and \<open>rfid_buffers\<close> (what the host expects of the device; provider: the
  firmware behind its bus, \<open>fw_dev\<close> in \<open>Tool_System\<close>), \<open>coding_decoder\<close> (what the decoders of
  Manchester and biphase share; \<open>man\<close> and \<open>bi\<close> in \<open>Coding_Decoders\<close>), \<open>byte_loop\<close> (a receive loop over
  whole bytes; \<open>rx_loop\<close> in \<open>Usb_Receiver\<close>, \<open>pll_loop\<close> in \<open>Usb_Recovery\<close>), and \<open>bit_step\<close> (what
  the eight unrolled steps of the loop share; \<open>bit0\<close> to \<open>bit7\<close> in \<open>Usb_Clock\<close>).

  \<^bold>\<open>Effects.\<close> The firmware passes its state \<open>fw\<close>; an operation of type \<open>fw \<Rightarrow> fw option\<close> gives
  \<open>None\<close> where the code would access memory outside an object. The host's interface passes the
  state of the device and returns an exception or a value (\<open>io\<close> in \<open>Interface_Usb\<close>). Loops recurse
  on their counters or lists; the walk over the bus, which may not end, is a
  \<open>partial_function\<close>, as are the last search of the calibration and the search for the sync pattern.

  \<^bold>\<open>What is shown.\<close>

  \<^item> The program: writing a tag sends three commands that a tag which takes the doubled last gap reads
    as its configuration and the 64 bits of the EM4100 frame; reading a Manchester tag at RF/16 prints
    its customer id and token once per frame (\<open>Tool_Program\<close>); what the options make the program
    do and how numbers are read (\<open>Tool_Main\<close>).
  \<^item> The decoders: a generated image decodes to its id and token, every report stands for a frame
    received, lost synchronisation is regained except where a false preamble comes in time, and then
    perhaps never (\<open>Em4100_Decoder\<close>, \<open>Carrier_Decoder\<close>,
    \<open>Coding_Decoders\<close>, \<open>Tool_Read\<close>).
  \<^item> The encoder's pulses keep the limits of the tag's data sheet and carry the bits of the command
    (\<open>T5557_Encoder\<close>).
  \<^item> The interface: what \<open>getSamples\<close> returns, the limits of \<open>putSamples\<close>, the walk over the bus
    (\<open>Interface_Usb\<close>), and both over the firmware, whether or not the transfer ends in the 500
    milliseconds for which the host sleeps (\<open>Tool_System\<close>).
  \<^item> The firmware: with a host that follows the protocol (\<open>polite\<close>), no access outside an array in
    any reachable state and exclusive interrupts; exact recording and playing, edges and time limits, completion (\<open>Fw_System\<close>, \<open>Fw_Sampler\<close>,
    \<open>Fw_Transmitter\<close>); vendor requests and buffers over the bus, the address change
    (\<open>Usb_Control\<close>); the checksum routine equals the bitwise CRC-16 (\<open>Usb_Crc\<close>); where the
    calibration's search stops, what it chooses there and when it returns (\<open>Fw_Calibrate\<close>).
  \<^item> The bus: the send loop produces the bit-stuffed NRZI coding of the USB specification, with bits and
    SE0 of the right length (\<open>Usb_Line\<close>); the receive loop reads every coded packet and so implements the
    model of whole packets (\<open>Usb_Receiver\<close>); counting clocks, the routine finds the end of the sync pattern
    and keeps every sample inside its bit, with senders off by up to 0.9 percent (\<open>Usb_Recovery\<close>), and its
    answer is on the bus within the turn-around time (\<open>Usb_Answer\<close>, \<open>Usb_Sync\<close>); what one device sends another
    reads (\<open>Usb_Bus\<close>); the frame measurement is exact to a unit and meets the calibration's target at the
    nominal clock (\<open>Usb_Measure\<close>).
  \<^item> The numbers printed for a token are options that write it again (\<open>Tool_Output\<close>); a dump is the text of
    its lines (\<open>Tool_Log\<close>).
  \<^item> Where the code leaves what it means to do: the unknown-signal mark of the sampler, a
    transmission without a start edge, a restart during a transmission, a write without a buffer,
    the calibration's and the enumeration's endless loops, the first and the last run of a
    reception, sample vectors that are too long for the buffer or for the host's sleep, the doubled
    last gap of a command, a decoder that stays out of step.

  \<^bold>\<open>Bounds.\<close> \<open>control_in\<close> gets 25 IN packets, enough for 192 bytes in packets of 8. In
  \<open>Fw_Transmitter\<close> a transmission gets \<open>n\<close> timer interrupts, more than its pulses; in \<open>Fw_Transfers\<close> and
  above it gets time, in ticks of 8 microseconds, what the host's sleep leaves after twice the main
  loop's reaction time \<open>lat\<close>: 2863 ticks are enough for a command of 38 bits, 12282 for a reception, and 4
  for each sample of the wait for the edge. Sample lengths are unbounded integers where the code has \<open>int\<close>.

  \<^bold>\<open>Not modelled.\<close> The delay from the pin-change flag to the entry of the interrupt routine, which the main
  loop calls from compiled C: the theorems ask that the routine is entered during the first six bits of the
  sync pattern. The writes to the direction register of the port, and the pull-up the send routine clears
  after the idle state. The source promises 1.1 percent for the
  clock; the theorems allow one clock in any ten bits, which a drift of 0.9 percent keeps. The calibration
  takes the measured frame lengths as a function of the setting. The time of the control messages and of the
  handlers, and the 14 microseconds from a compare match to the result of its conversion, are not
  counted; they do not add up over a transfer, and \<open>lat\<close> is there to bound them. The arguments of log messages, and exceptions of the
  C++ library. libusb, \<open>getopt_long\<close> and the C library's \<open>usleep\<close> are parameters or inputs. The debug code of
  the USB driver is compiled out. The tag is modelled by the limits of its data sheet only.
\<close>

end
